(* ===== verification/Nkfs_Prelude.thy ===== *)
theory Nkfs_Prelude
  imports Complex_Main "HOL-Library.Word" "HOL-Library.Monad_Syntax"
begin

text \<open>
  What every component of the development shares: the C integer types, the
  error numbers of the kernel and of NKFS, the little- and big-endian byte
  encodings of words, the convention for computations that can hit a
  \<open>BUG_ON\<close> or undefined behaviour, and generic lemmas on lists and
  folds.

  Conventions.  A C \<open>int\<close> result that is zero or a negated errno is an
  \<^typ>\<open>int\<close>.  A computation that may stop the machine (\<open>BUG_ON\<close>,
  a NULL dereference, an access outside an array) has an option type, where
  None stands for that stop, and is written with the \<open>do\<close> notation of the
  option monad.  A \<open>for\<close> loop with fixed bounds is a fold over its index
  list.
\<close>

unbundle bit_operations_syntax

type_synonym u8 = "8 word"
type_synonym u16 = "16 word"
type_synonym u32 = "32 word"
type_synonym u64 = "64 word"

section \<open>Error numbers\<close>

abbreviation (input) EPERM :: int where "EPERM \<equiv> 1"
abbreviation (input) ENOENT :: int where "ENOENT \<equiv> 2"
abbreviation (input) EIO :: int where "EIO \<equiv> 5"
abbreviation (input) EAGAIN :: int where "EAGAIN \<equiv> 11"
abbreviation (input) ENOMEM :: int where "ENOMEM \<equiv> 12"
abbreviation (input) EFAULT :: int where "EFAULT \<equiv> 14"
abbreviation (input) EEXIST :: int where "EEXIST \<equiv> 17"
abbreviation (input) EINVAL :: int where "EINVAL \<equiv> 22"
abbreviation (input) ENOSPC :: int where "ENOSPC \<equiv> 28"

text \<open>The page size of the machine.\<close>

abbreviation (input) PAGE_SIZE :: nat where "PAGE_SIZE \<equiv> 4096"

section \<open>Assertions in the option monad\<close>

definition assert_that :: "bool \<Rightarrow> unit option" where
  "assert_that b = (if b then Some () else None)"

lemma assert_that_True [simp]: "assert_that True = Some ()"
  by (simp add: assert_that_def)

lemma assert_that_False [simp]: "assert_that False = None"
  by (simp add: assert_that_def)

lemma assert_that_eq_Some [simp]: "assert_that b = Some u \<longleftrightarrow> b"
  by (simp add: assert_that_def)

section \<open>Byte encodings\<close>

primrec le_bytes :: "nat \<Rightarrow> 'a::len word \<Rightarrow> u8 list" where
  "le_bytes 0 w = []"
| "le_bytes (Suc n) w = ucast w # le_bytes n (drop_bit 8 w)"

primrec le_word :: "u8 list \<Rightarrow> 'a::len word" where
  "le_word [] = 0"
| "le_word (b # bs) = ucast b OR push_bit 8 (le_word bs)"

definition be_bytes :: "nat \<Rightarrow> 'a::len word \<Rightarrow> u8 list" where
  "be_bytes n w = rev (le_bytes n w)"

definition be_word :: "u8 list \<Rightarrow> 'a::len word" where
  "be_word bs = le_word (rev bs)"

lemma length_le_bytes [simp]: "length (le_bytes n w) = n"
  by (induction n arbitrary: w) auto

lemma length_be_bytes [simp]: "length (be_bytes n w) = n"
  by (simp add: be_bytes_def)

lemma le_word_le_bytes: "le_word (le_bytes n w) = take_bit (8 * n) (w :: 'a::len word)"
proof (induction n arbitrary: w)
  case 0
  show ?case by simp
next
  case (Suc n)
  show ?case
    by (rule bit_word_eqI) (auto simp: Suc bit_simps)
qed

lemma le_word_le_bytes_full [simp]:
  "LENGTH('a) \<le> 8 * n \<Longrightarrow> le_word (le_bytes n w) = (w :: 'a::len word)"
  by (simp add: le_word_le_bytes take_bit_word_eq_self)

lemma be_word_be_bytes_full [simp]:
  "LENGTH('a) \<le> 8 * n \<Longrightarrow> be_word (be_bytes n w) = (w :: 'a::len word)"
  by (simp add: be_word_def be_bytes_def)

lemma le_bytes_le_word:
  "8 * length bs \<le> LENGTH('a) \<Longrightarrow> le_bytes (length bs) (le_word bs :: 'a::len word) = bs"
proof (induction bs)
  case Nil
  show ?case by simp
next
  case (Cons b bs)
  have hd: "ucast (ucast b OR push_bit 8 (le_word bs :: 'a word)) = b"
    by (rule bit_word_eqI) (use Cons.prems in \<open>auto simp: bit_simps\<close>)
  have "drop_bit 8 (ucast b OR push_bit 8 (le_word bs :: 'a word))
      = take_bit (LENGTH('a) - 8) (le_word bs :: 'a word)"
    by (rule bit_word_eqI) (use Cons.prems in \<open>auto simp: bit_simps dest: bit_imp_le_length\<close>)
  moreover have "take_bit (LENGTH('a) - 8) (le_word bs :: 'a word) = le_word bs"
  proof -
    have "le_word bs = (le_word (le_bytes (length bs) (le_word bs :: 'a word)) :: 'a word)"
      using Cons by simp
    also have "\<dots> = take_bit (8 * length bs) (le_word bs)"
      by (rule le_word_le_bytes)
    finally have "take_bit (LENGTH('a) - 8) (le_word bs :: 'a word)
        = take_bit (LENGTH('a) - 8) (take_bit (8 * length bs) (le_word bs))"
      by simp
    also have "\<dots> = take_bit (8 * length bs) (le_word bs)"
      using Cons.prems by (simp add: min_absorb2)
    finally show ?thesis
      using \<open>le_word bs = le_word (le_bytes (length bs) (le_word bs))\<close>
      by (simp add: le_word_le_bytes)
  qed
  ultimately show ?case
    using hd Cons by simp
qed

lemma nth_le_bytes: "i < n \<Longrightarrow> le_bytes n w ! i = ucast (drop_bit (8 * i) w)"
  by (induction n arbitrary: i w) (auto simp: nth_Cons drop_bit_drop_bit add.commute split: nat.splits)

lemma le_bytes_append: "le_bytes (m + n) w = le_bytes m w @ le_bytes n (drop_bit (8 * m) w)"
  by (rule nth_equalityI)
    (auto simp: nth_le_bytes nth_append drop_bit_drop_bit not_less add_mult_distrib2 [symmetric])

lemma le_bytes_ucast:
  assumes "8 * n \<le> LENGTH('b)"
  shows "le_bytes n (ucast (w :: 'a::len word) :: 'b::len word) = le_bytes n w"
proof (rule nth_equalityI)
  fix i assume "i < length (le_bytes n (ucast w :: 'b word))"
  then have "i < n" "8 * i + 8 \<le> LENGTH('b)"
    using assms by auto
  then show "le_bytes n (ucast w :: 'b word) ! i = le_bytes n w ! i"
    by (auto simp: nth_le_bytes bit_simps intro!: bit_word_eqI)
qed simp

lemma be_bytes_be_word:
  "8 * length bs \<le> LENGTH('a) \<Longrightarrow> be_bytes (length bs) (be_word bs :: 'a::len word) = bs"
  using le_bytes_le_word [of "rev bs", where 'a = 'a]
  by (simp add: be_bytes_def be_word_def)

lemma le_bytes_inj:
  assumes "LENGTH('a) \<le> 8 * n"
  shows "le_bytes n v = le_bytes n w \<longleftrightarrow> v = (w :: 'a::len word)"
  using assms le_word_le_bytes_full by metis

text \<open>The byte swaps of a little-endian machine (\<open>cpu_to_be16\<close> and so on).\<close>

definition cpu_to_be32 :: "u32 \<Rightarrow> u32" where
  "cpu_to_be32 w = le_word (be_bytes 4 w)"

definition be32_to_cpu :: "u32 \<Rightarrow> u32" where
  "be32_to_cpu w = be_word (le_bytes 4 w)"

definition cpu_to_be64 :: "u64 \<Rightarrow> u64" where
  "cpu_to_be64 w = le_word (be_bytes 8 w)"

definition be64_to_cpu :: "u64 \<Rightarrow> u64" where
  "be64_to_cpu w = be_word (le_bytes 8 w)"

lemma le_bytes_cpu_to_be32: "le_bytes 4 (cpu_to_be32 w) = be_bytes 4 w"
  using le_bytes_le_word [of "be_bytes 4 w", where 'a = 32]
  by (simp add: cpu_to_be32_def)

lemma le_bytes_cpu_to_be64: "le_bytes 8 (cpu_to_be64 w) = be_bytes 8 w"
  using le_bytes_le_word [of "be_bytes 8 w", where 'a = 64]
  by (simp add: cpu_to_be64_def)

lemma be32_to_cpu_cpu_to_be32 [simp]: "be32_to_cpu (cpu_to_be32 w) = w"
  by (simp add: be32_to_cpu_def le_bytes_cpu_to_be32)

lemma be64_to_cpu_cpu_to_be64 [simp]: "be64_to_cpu (cpu_to_be64 w) = w"
  by (simp add: be64_to_cpu_def le_bytes_cpu_to_be64)

lemma cpu_to_be64_be64_to_cpu [simp]: "cpu_to_be64 (be64_to_cpu w) = w"
  using be_bytes_be_word [of "le_bytes 8 w", where 'a = 64]
  by (simp add: cpu_to_be64_def be64_to_cpu_def)

lemma cpu_to_be32_be32_to_cpu [simp]: "cpu_to_be32 (be32_to_cpu w) = w"
  using be_bytes_be_word [of "le_bytes 4 w", where 'a = 32]
  by (simp add: cpu_to_be32_def be32_to_cpu_def)

section \<open>Loops as folds\<close>

lemma fold_upt_inv:
  assumes "a \<le> b" "P a s" "\<And>i s. a \<le> i \<Longrightarrow> i < b \<Longrightarrow> P i s \<Longrightarrow> P (Suc i) (f i s)"
  shows "P b (fold f [a..<b] s)"
proof -
  have "P (a + n) (fold f [a..<a + n] s)" if "a + n \<le> b" for n
    using that by (induction n) (auto simp: assms)
  from this [of "b - a"] show ?thesis
    using assms(1) by simp
qed

lemma fold_upt_rev_inv:
  assumes "a \<le> b" "P b s" "\<And>i s. a \<le> i \<Longrightarrow> i < b \<Longrightarrow> P (Suc i) s \<Longrightarrow> P i (f i s)"
  shows "P a (fold f (rev [a..<b]) s)"
proof -
  have "P (b - n) (fold f (rev [b - n..<b]) s)" if "n \<le> b - a" for n
    using that
  proof (induction n)
    case (Suc n)
    then have e: "[b - Suc n..<b] = (b - Suc n) # [b - n..<b]"
      by (simp add: upt_conv_Cons Suc_diff_Suc)
    have s: "Suc (b - Suc n) = b - n" using Suc.prems by simp
    show ?case
      unfolding e using Suc assms(3) [of "b - Suc n"] by (simp add: s)
  qed (simp add: assms)
  from this [of "b - a"] show ?thesis
    using assms(1) by simp
qed

lemma concat_chunks:
  "P * k \<le> length xs \<Longrightarrow> concat (map (\<lambda>j. take k (drop (j * k) xs)) [0..<P]) = take (P * k) xs"
proof (induction P)
  case (Suc P)
  have "take (Suc P * k) xs = take (P * k) xs @ take k (drop (P * k) xs)"
    by (simp add: take_add add.commute [of k])
  then show ?case
    using Suc by simp
qed simp

section \<open>Runs and simulations\<close>

text \<open>
  A component's operations as one step function, run over a list of operations,
  and the contract under which every such run refines a specification.
\<close>

primrec run_ops :: "('op \<Rightarrow> 's \<Rightarrow> ('r \<times> 's) option) \<Rightarrow> 'op list \<Rightarrow> 's \<Rightarrow> ('r list \<times> 's) option" where
  "run_ops step [] s = Some ([], s)"
| "run_ops step (op # ops) s = do {
     (r, s) \<leftarrow> step op s;
     (rs, s) \<leftarrow> run_ops step ops s;
     Some (r # rs, s)
   }"

locale forward_sim =
  fixes step :: "'op \<Rightarrow> 's \<Rightarrow> ('r \<times> 's) option"
    and astep :: "'op \<Rightarrow> 'a \<Rightarrow> ('r \<times> 'a) option"
    and abs :: "'s \<Rightarrow> 'a"
    and inv :: "'s \<Rightarrow> bool"
  assumes sim: "inv s \<Longrightarrow> astep op (abs s) = Some (r, a) \<Longrightarrow> \<exists>s'. step op s = Some (r, s') \<and> abs s' = a \<and> inv s'"
begin

lemma run_sim:
  "inv s \<Longrightarrow> run_ops astep ops (abs s) = Some (rs, a) \<Longrightarrow>
     \<exists>s'. run_ops step ops s = Some (rs, s') \<and> abs s' = a \<and> inv s'"
proof (induction ops arbitrary: s rs)
  case (Cons op ops)
  from Cons.prems(2) obtain r a1 rs1 where 1: "astep op (abs s) = Some (r, a1)"
    "run_ops astep ops a1 = Some (rs1, a)" "rs = r # rs1"
    by (auto split: bind_splits)
  obtain s1 where 2: "step op s = Some (r, s1)" "abs s1 = a1" "inv s1"
    using sim [OF Cons.prems(1) 1(1)] by blast
  obtain s' where "run_ops step ops s1 = Some (rs1, s')" "abs s' = a" "inv s'"
    using Cons.IH [OF 2(3)] 1(2) 2(2) by blast
  then show ?case
    using 1 2 by auto
qed simp

end

section \<open>Total correctness in the option monad\<close>

text \<open>
  \<open>wpo m Q\<close>: the computation \<open>m\<close> does not stop, and its result satisfies
  \<open>Q\<close>.  Rules of this form for the operations of a component are collected in
  \<open>wp\<close>.
\<close>

definition wpo :: "'a option \<Rightarrow> ('a \<Rightarrow> bool) \<Rightarrow> bool" where
  "wpo m Q \<longleftrightarrow> (\<exists>x. m = Some x \<and> Q x)"

named_theorems wp

lemma wpo_Some [simp]: "wpo (Some x) Q \<longleftrightarrow> Q x"
  and wpo_None [simp]: "wpo None Q \<longleftrightarrow> False"
  and wpo_bind [simp]: "wpo (m \<bind> f) Q \<longleftrightarrow> wpo m (\<lambda>x. wpo (f x) Q)"
  and wpo_assert [simp]: "wpo (assert_that b) P \<longleftrightarrow> b \<and> P ()"
  by (auto simp: wpo_def split: bind_splits)

lemma wpo_if [simp]: "wpo (if b then m else n) Q \<longleftrightarrow> (if b then wpo m Q else wpo n Q)"
  by simp

lemma wpo_mono: "wpo m P \<Longrightarrow> (\<And>x. P x \<Longrightarrow> Q x) \<Longrightarrow> wpo m Q"
  by (auto simp: wpo_def)

section \<open>Loops that may stop\<close>

text \<open>
  A loop over an index list whose body may stop, with rules for counting up and
  down; \<open>fold_opt_mono\<close> lets it occur in the body of a \<open>while (1)\<close> loop
  written as a partial function.
\<close>

primrec fold_opt :: "('x \<Rightarrow> 's \<Rightarrow> 's option) \<Rightarrow> 'x list \<Rightarrow> 's \<Rightarrow> 's option" where
  "fold_opt f [] s = Some s"
| "fold_opt f (x # xs) s = do { s \<leftarrow> f x s; fold_opt f xs s }"

lemma fold_opt_append [simp]: "fold_opt f (xs @ ys) s = do { s \<leftarrow> fold_opt f xs s; fold_opt f ys s }"
  by (induction xs arbitrary: s) (simp_all add: bind_assoc)

lemma fold_opt_map: "fold_opt f (map g xs) s = fold_opt (\<lambda>x. f (g x)) xs s"
  by (induction xs arbitrary: s) auto

lemma fold_opt_mono [partial_function_mono]:
  assumes "\<And>x s. mono_option (\<lambda>g. B g x s)"
  shows "mono_option (\<lambda>g. fold_opt (B g) xs s)"
proof (induction xs arbitrary: s)
  case Nil
  show ?case by (simp add: monotone_def option.leq_refl)
next
  case (Cons x xs)
  show ?case
    by (simp, intro bind_mono assms Cons)
qed

lemma wpo_fold_upt:
  assumes "a \<le> b" "P a s" "\<And>i s. a \<le> i \<Longrightarrow> i < b \<Longrightarrow> P i s \<Longrightarrow> wpo (f i s) (P (Suc i))"
  shows "wpo (fold_opt f [a..<b] s) (P b)"
proof -
  have "wpo (fold_opt f [a..<a + n] s) (P (a + n))" if "a + n \<le> b" for n
    using that
  proof (induction n)
    case (Suc n)
    then show ?case
      using wpo_mono [OF _ assms(3) [of "a + n"]] by simp
  qed (simp add: assms)
  from this [of "b - a"] show ?thesis
    using assms(1) by simp
qed

lemma wpo_fold_downto:
  assumes "a \<le> b" "P b s" "\<And>i s. a \<le> i \<Longrightarrow> i < b \<Longrightarrow> P (Suc i) s \<Longrightarrow> wpo (f (int i) s) (P i)"
  shows "wpo (fold_opt f (rev [int a..int b - 1]) s) (P a)"
proof -
  have "wpo (fold_opt f (rev [int (b - n)..int b - 1]) s) (P (b - n))" if "n \<le> b - a" for n
    using that
  proof (induction n)
    case (Suc n)
    then have e: "[int (b - Suc n)..int b - 1] = int (b - Suc n) # [int (b - n)..int b - 1]"
      by (simp add: upto_rec1 of_nat_diff)
    have s: "Suc (b - Suc n) = b - n" using Suc.prems by simp
    have "wpo (fold_opt f (rev [int (b - n)..int b - 1]) s) (\<lambda>s. wpo (f (int (b - Suc n)) s) (P (b - Suc n)))"
    proof (rule wpo_mono [OF Suc.IH])
      show "wpo (f (int (b - Suc n)) s') (P (b - Suc n))" if "P (b - n) s'" for s'
        by (rule assms(3)) (use Suc.prems that s in simp_all)
    qed (use Suc.prems in simp)
    then show ?case
      unfolding e by simp
  qed (simp add: assms)
  from this [of "b - a"] show ?thesis
    using assms(1) by simp
qed

section \<open>Words as numbers\<close>

lemma unat_lt64: "unat (x :: u64) < 2 ^ 64" and unat_lt32: "unat (y :: u32) < 2 ^ 32"
  using unsigned_less [of x, where 'a = nat] unsigned_less [of y, where 'a = nat] by simp_all

lemma unat_of_nat_small: "n < 2 ^ 64 \<Longrightarrow> unat (of_nat n :: u64) = n"
  by (simp add: unat_of_nat)

lemma le_word_zeros: "le_word (replicate n 0) = 0"
  by (induction n) auto

lemma ucast_u32_u64_u32: "ucast (ucast (y :: u32) :: u64) = y"
  by (rule bit_word_eqI) (simp add: bit_simps)

lemma unat_ucast_u32: "unat (ucast (y :: u32) :: u64) = unat y"
proof -
  have "unat y < 2 ^ LENGTH(32)" by (rule unsigned_less)
  then show ?thesis
    by (simp add: unsigned_ucast_eq take_bit_nat_eq_self)
qed

lemma unat_ucast_small: "unat x < 2 ^ 32 \<Longrightarrow> unat (ucast (x :: u64) :: u32) = unat x"
  by (simp add: unsigned_ucast_eq take_bit_nat_eq_self)

end
