(* ===== verification/Gf256.thy ===== *)
theory Gf256
  imports Nkfs_Prelude
begin

text \<open>
  The arithmetic of \<open>src/crt/nk8.c\<close>: multiplication in the field with 256
  elements by shifts and reduction (\<open>gf_mult_direct\<close>), division by search
  (\<open>gf_div_brute\<close>) and the two tables \<open>gf_init\<close> fills with them.  The
  lemmas show that bytes with exclusive or and \<open>gf_mult_direct\<close> are a field:
  the product is bilinear, so associativity is checked on the basis of single
  bits, and inverses come from the Frobenius map.  The type \<open>gf\<close> of bytes is
  made an instance of the library's class of fields, and the locale
  \<open>gf_tables\<close> is the contract of the filled tables.
\<close>

section \<open>Definitions\<close>

record nk8_state =
  inited :: bool
  gf_log :: "u8 list list"
  gf_alog :: "u8 list list"

definition gf_mult_direct :: "u8 \<Rightarrow> u8 \<Rightarrow> u8" where
  "gf_mult_direct m n =
     (if m = 0 \<or> n = 0 then 0
      else let
        (k, m') = fold (\<lambda>i (k, m). if drop_bit i m \<noteq> 0
                    then (k XOR push_bit i (ucast n), m XOR push_bit i 1) else (k, m))
                  (rev [0..<8]) (0 :: u64, m);
        k = (if drop_bit 8 k \<noteq> 0
             then fold (\<lambda>i k. if drop_bit i k \<noteq> 0 then k XOR push_bit (i - 8) 283 else k)
                    (rev [8..<16]) k
             else k)
      in ucast k)"

text \<open>The macros \<open>gf_mult\<close> and \<open>gf_div\<close>: table lookups.\<close>

definition gf_mult :: "nk8_state \<Rightarrow> u8 \<Rightarrow> u8 \<Rightarrow> u8" where
  "gf_mult st a b = gf_log st ! unat a ! unat b"

definition gf_div :: "nk8_state \<Rightarrow> u8 \<Rightarrow> u8 \<Rightarrow> u8" where
  "gf_div st a b = gf_alog st ! unat a ! unat b"

definition gf_div_brute :: "nk8_state \<Rightarrow> u8 \<Rightarrow> u8 \<Rightarrow> u8" where
  "gf_div_brute st i j =
     (if i = 0 \<or> j = 0 then 0
      else (case find (\<lambda>k. gf_mult st (of_nat k) j = i) [1..<0x100] of
              Some k \<Rightarrow> of_nat k
            | None \<Rightarrow> 0))"

definition gf_init :: "nk8_state \<Rightarrow> nk8_state" where
  "gf_init st =
     (let st1 = st\<lparr>gf_log := map (\<lambda>i. map (\<lambda>j. gf_mult_direct (of_nat i) (of_nat j)) [0..<0x100]) [0..<0x100]\<rparr>
      in st1\<lparr>gf_alog := map (\<lambda>i. map (\<lambda>j. gf_div_brute st1 (of_nat i) (of_nat j)) [0..<0x100]) [0..<0x100]\<rparr>)"

text \<open>
  Reference forms for the proofs: the carry-less product of a byte and a word,
  and its reduction by \<open>x^8 + x^4 + x^3 + x + 1\<close>, both as bitwise recursions.
\<close>

primrec clmul :: "nat \<Rightarrow> u8 \<Rightarrow> u64 \<Rightarrow> u64" where
  "clmul 0 m n = 0"
| "clmul (Suc i) m n = (if bit m i then push_bit i n else 0) XOR clmul i m n"

primrec reduce :: "nat \<Rightarrow> u64 \<Rightarrow> u64" where
  "reduce 0 k = k"
| "reduce (Suc j) k = reduce j (if bit k (j + 8) then k XOR push_bit j 283 else k)"

definition gf_sq :: "u8 \<Rightarrow> u8" where
  "gf_sq a = gf_mult_direct a a"

section \<open>The product is bilinear\<close>

lemma drop_bit_top:
  "take_bit (Suc i) w = w \<Longrightarrow> drop_bit i w \<noteq> 0 \<longleftrightarrow> bit w i" for w :: "'a::len word"
proof -
  assume w: "take_bit (Suc i) w = w"
  have b: "\<not> bit w j" if "i < j" for j
    using w that by (metis bit_take_bit_iff less_Suc_eq_le not_less)
  have "bit w (i + j) \<longleftrightarrow> j = 0 \<and> bit w i" for j
    using b [of "i + j"] by (cases j) auto
  then show ?thesis
    by (auto simp: bit_eq_iff bit_drop_bit_eq)
qed

lemma take_bit_step:
  fixes w :: "'a::len word" 
  assumes "take_bit (Suc i) w = w"
  shows "bit w i \<Longrightarrow> i < LENGTH('a) \<Longrightarrow> w XOR push_bit i 1 = take_bit i w"
    and "\<not> bit w i \<Longrightarrow> take_bit i w = w"
proof -
  have b: "\<not> bit w j" if "i < j" for j
    using assms that by (metis bit_take_bit_iff less_Suc_eq_le not_less)
  show "bit w i \<Longrightarrow> i < LENGTH('a) \<Longrightarrow> w XOR push_bit i 1 = take_bit i w"
    using b
    by (intro bit_word_eqI) (auto simp: bit_simps not_le not_less, (metis nat_neq_iff)+)
  show "\<not> bit w i \<Longrightarrow> take_bit i w = w"
    using b by (intro bit_word_eqI) (auto simp: bit_simps, (metis nat_neq_iff))
qed

lemma mult_loop:
  assumes "i \<le> 8"
  shows "fst (fold (\<lambda>i (k, m). if drop_bit i m \<noteq> 0
                    then (k XOR push_bit i n, m XOR push_bit i 1) else (k, m))
                  (rev [0..<i]) (k :: u64, take_bit i m)) = k XOR clmul i m n"
  using assms
proof (induction i arbitrary: k)
  case (Suc i)
  let ?w = "take_bit (Suc i) m"
  have b: "drop_bit i ?w \<noteq> 0 \<longleftrightarrow> bit m i"
    using drop_bit_top [of i ?w] by (simp add: bit_take_bit_iff)
  have t: "bit m i \<Longrightarrow> ?w XOR push_bit i 1 = take_bit i m" "\<not> bit m i \<Longrightarrow> ?w = take_bit i m"
    using take_bit_step [of i ?w] Suc.prems by (auto simp: bit_take_bit_iff min_def)
  show ?case
    using Suc b t by (simp add: xor.assoc)
qed simp

lemma take_bit_selfI: "(\<And>j. n \<le> j \<Longrightarrow> \<not> bit w j) \<Longrightarrow> take_bit n w = w" for w :: "'a::len word"
  by (rule bit_word_eqI) (auto simp: bit_take_bit_iff not_less[symmetric])

lemma bit_283: "bit (283 :: u64) j \<longleftrightarrow> j \<in> {0, 1, 3, 4, 8}"
proof -
  have "(283 :: u64) = push_bit 8 1 XOR push_bit 4 1 XOR push_bit 3 1 XOR push_bit 1 1 XOR push_bit 0 1"
    by simp
  then show ?thesis
    by (simp only: bit_simps) auto
qed

lemma reduce_loop:
  assumes "i \<le> 8" "\<And>j. i + 8 \<le> j \<Longrightarrow> \<not> bit k j"
  shows "fold (\<lambda>i k. if drop_bit i k \<noteq> 0 then k XOR push_bit (i - 8) 283 else k)
                    (rev [8..<i + 8]) k = reduce i k"
  using assms
proof (induction i arbitrary: k)
  case (Suc i)
  let ?k = "if bit k (i + 8) then k XOR push_bit i 283 else k"
  have b: "drop_bit (i + 8) k \<noteq> 0 \<longleftrightarrow> bit k (i + 8)"
    using drop_bit_top [of "i + 8" k] take_bit_selfI [of "Suc i + 8" k] Suc.prems by simp
  have r: "rev [8..<Suc i + 8] = (i + 8) # rev [8..<i + 8]"
    by (simp only: add_Suc upt_Suc) simp
  have "\<not> bit ?k j" if "i + 8 \<le> j" for j
  proof (cases "j = i + 8")
    case True
    then show ?thesis
      using Suc.prems(1) bit_283 [of 8] by (auto simp: bit_xor_iff bit_push_bit_iff)
  next
    case False
    then have "\<not> bit k j" "\<not> bit (283 :: u64) (j - i)"
      using that Suc.prems(2) [of j] by (auto simp only: bit_283)
    then show ?thesis
      by (simp add: bit_xor_iff bit_push_bit_iff)
  qed
  then show ?case
    unfolding r using Suc.IH [of ?k] Suc.prems b by (cases "bit k (i + 8)") simp_all
qed simp

lemma clmul_bits: "i \<le> 8 \<Longrightarrow> i + 7 \<le> j \<Longrightarrow> \<not> bit (clmul i m (ucast (n :: u8))) j"
proof (induction i)
  case (Suc i)
  have "\<not> bit (push_bit i (ucast n) :: u64) j"
    using Suc.prems by (auto simp: bit_simps dest: bit_imp_le_length)
  then show ?case
    using Suc by (auto simp: bit_simps)
qed simp

lemma clmul_0: "clmul i 0 n = 0" "clmul i m 0 = 0"
  by (induction i) auto

lemma reduce_small: "i \<le> 8 \<Longrightarrow> drop_bit 8 k = 0 \<Longrightarrow> reduce i k = k"
proof (induction i)
  case (Suc i)
  have "bit k (i + 8) = bit (drop_bit 8 k) i" by (simp add: bit_simps add.commute)
  then show ?case using Suc by simp
qed simp

lemma gf_mult_direct_eq: "gf_mult_direct m n = ucast (reduce 8 (clmul 8 m (ucast n)))"
proof (cases "m = 0 \<or> n = 0")
  case True
  then show ?thesis
    by (auto simp: gf_mult_direct_def clmul_0 reduce_small)
next
  case False
  let ?f = "fold (\<lambda>i (k, m). if drop_bit i m \<noteq> 0
                    then (k XOR push_bit i (ucast n), m XOR push_bit i 1) else (k, m))
                  (rev [0..<8]) (0 :: u64, m)"
  have "take_bit 8 m = m" by (simp add: take_bit_word_eq_self)
  then have f: "fst ?f = clmul 8 m (ucast n)"
    using mult_loop [of 8 "ucast n" 0 m] by simp
  have "fold (\<lambda>i k. if drop_bit i k \<noteq> 0 then k XOR push_bit (i - 8) 283 else k)
                    (rev [8..<16]) (clmul 8 m (ucast n)) = reduce 8 (clmul 8 m (ucast n))"
    using reduce_loop [of 8 "clmul 8 m (ucast n)"] clmul_bits [of 8 _ m n] by simp
  then show ?thesis
    using False reduce_small [of 8 "clmul 8 m (ucast n)"]
    unfolding gf_mult_direct_def
    by (simp only: Let_def case_prod_beta f) (auto simp: Let_def)
qed

lemma reduce_xor: "reduce i (a XOR b) = reduce i a XOR reduce i b"
proof (induction i arbitrary: a b)
  case (Suc i)
  have "(if bit (a XOR b) (i + 8) then (a XOR b) XOR push_bit i 283 else a XOR b)
     = (if bit a (i + 8) then a XOR push_bit i 283 else a) XOR (if bit b (i + 8) then b XOR push_bit i 283 else b)"
    by (rule bit_word_eqI) (auto simp: bit_xor_iff)
  then show ?case
    by (simp only: reduce.simps Suc)
qed simp

lemma clmul_xor_left: "clmul i (a XOR b) n = clmul i a n XOR clmul i b n"
  by (induction i) (auto simp: bit_xor_iff ac_simps)

lemma clmul_xor_right: "clmul i m (a XOR b) = clmul i m a XOR clmul i m b"
  by (induction i) (auto simp: push_bit_xor ac_simps)

lemma ucast_xor: "ucast (a XOR b) = (ucast a XOR ucast b :: 'b::len word)" for a b :: "'a::len word"
  by (rule bit_word_eqI) (auto simp: bit_simps)

lemma gf_mult_xor_left: "gf_mult_direct (a XOR b) n = gf_mult_direct a n XOR gf_mult_direct b n"
  by (simp add: gf_mult_direct_eq clmul_xor_left reduce_xor ucast_xor)

lemma gf_mult_xor_right: "gf_mult_direct m (a XOR b) = gf_mult_direct m a XOR gf_mult_direct m b"
  by (simp add: gf_mult_direct_eq clmul_xor_right reduce_xor ucast_xor)

lemma u8_linear_induct [case_names zero basis xor]:
  assumes "P 0" "\<And>i. i < 8 \<Longrightarrow> P (push_bit i 1)" "\<And>a b. P a \<Longrightarrow> P b \<Longrightarrow> P (a XOR b)"
  shows "P (a :: u8)"
proof -
  have "P (take_bit n a)" if "n \<le> 8" for n
    using that
  proof (induction n)
    case (Suc n)
    have "take_bit (Suc n) a = take_bit n a XOR (if bit a n then push_bit n 1 else 0)"
      by (rule bit_word_eqI) (auto simp: bit_simps less_Suc_eq)
    then show ?case
      using Suc assms(2) [of n] by (auto intro: assms(3))
  qed (simp add: assms)
  from this [of 8] show ?thesis
    by (simp add: take_bit_word_eq_self)
qed

lemma clmul_basis: "i < 8 \<Longrightarrow> k \<le> 8 \<Longrightarrow> clmul k (push_bit i 1) n = (if i < k then push_bit i n else 0)"
  by (induction k) (auto simp: bit_simps less_Suc_eq)

lemma gf_mult_basis:
  assumes "i < 8" "j < 8"
  shows "gf_mult_direct (push_bit i 1) (push_bit j 1) = ucast (reduce 8 (push_bit (i + j) 1))"
proof -
  have "ucast (push_bit j 1 :: u8) = (push_bit j 1 :: u64)"
    using assms by (intro bit_word_eqI) (auto simp: bit_simps)
  then show ?thesis
    using assms by (simp add: gf_mult_direct_eq clmul_basis push_bit_push_bit del: push_bit_of_1)
qed

lemma gf_mult_direct_commute: "gf_mult_direct a b = gf_mult_direct b a"
proof (induction a arbitrary: b rule: u8_linear_induct)
  case (basis i)
  show ?case
    by (induction b rule: u8_linear_induct)
      (use basis in \<open>auto simp: gf_mult_basis gf_mult_xor_left gf_mult_xor_right add.commute
        gf_mult_direct_def [of _ 0] gf_mult_direct_def [of 0] simp del: push_bit_of_1\<close>)
qed (auto simp: gf_mult_xor_left gf_mult_xor_right gf_mult_direct_def [of _ 0] gf_mult_direct_def [of 0])


lemma reduce_numeral:
  "reduce (numeral v) k = reduce (pred_numeral v)
     (if bit k (pred_numeral v + 8) then k XOR push_bit (pred_numeral v) 283 else k)"
  by (simp add: numeral_eq_Suc)
lemma clmul_numeral:
  "clmul (numeral v) m n =
     (if bit m (pred_numeral v) then push_bit (pred_numeral v) n else 0) XOR clmul (pred_numeral v) m n"
  by (simp add: numeral_eq_Suc)

lemmas gf_eval = gf_mult_direct_eq reduce_numeral clmul_numeral

lemma less_8_cases: "i < (8::nat) \<Longrightarrow> i \<in> {0,1,2,3,4,5,6,7}"
  by (auto simp: less_Suc_eq numeral_eq_Suc)

lemma gf_mult_0 [simp]: "gf_mult_direct 0 a = 0" "gf_mult_direct a 0 = 0"
  by (simp_all add: gf_mult_direct_def)

lemma gf_mult_1: "gf_mult_direct 1 a = a"
proof -
  have "gf_mult_direct 1 a = ucast (reduce 8 (ucast a))"
    using clmul_basis [of 0 8] by (simp add: gf_mult_direct_eq)
  moreover have "drop_bit 8 (ucast a :: u64) = 0"
    by (rule bit_word_eqI) (auto simp: bit_simps dest: bit_imp_le_length)
  moreover have "ucast (ucast a :: u64) = a"
    by (rule bit_word_eqI) (auto simp: bit_simps)
  ultimately show ?thesis
    by (simp add: reduce_small)
qed

lemma gf_mult_x_basis:
  assumes "i < 8" "j < 8"
  shows "gf_mult_direct 2 (gf_mult_direct (push_bit i 1) (push_bit j 1))
       = gf_mult_direct (gf_mult_direct 2 (push_bit i 1)) (push_bit j 1)"
  using less_8_cases [OF assms(1)] less_8_cases [OF assms(2)]
  by (elim insertE emptyE; simp add: gf_eval)

lemma gf_mult_x: "gf_mult_direct 2 (gf_mult_direct a b) = gf_mult_direct (gf_mult_direct 2 a) b"
proof (induction a arbitrary: b rule: u8_linear_induct)
  case (basis i)
  show ?case
    by (induction b rule: u8_linear_induct)
      (use gf_mult_x_basis [OF basis] in \<open>simp_all add: gf_mult_xor_right\<close>)
qed (simp_all add: gf_mult_xor_left gf_mult_xor_right)

lemma push_bit_Suc_gf: "i < 7 \<Longrightarrow> push_bit (Suc i) 1 = gf_mult_direct 2 (push_bit i 1)"
proof -
  assume "i < 7"
  then have "i \<in> {0,1,2,3,4,5,6}"
    using less_8_cases [of i] by auto
  then show ?thesis
    by (elim insertE emptyE; simp add: gf_eval)
qed

lemma gf_mult_basis_assoc:
  "i < 8 \<Longrightarrow> gf_mult_direct (gf_mult_direct (push_bit i 1) a) b
     = gf_mult_direct (push_bit i 1) (gf_mult_direct a b)"
proof (induction i)
  case 0
  show ?case by (simp add: gf_mult_1)
next
  case (Suc i)
  then have "push_bit (Suc i) 1 = gf_mult_direct 2 (push_bit i 1)"
    by (intro push_bit_Suc_gf) simp
  then show ?case
    using Suc by (simp only: gf_mult_x [symmetric])
qed

lemma gf_mult_direct_assoc:
  "gf_mult_direct (gf_mult_direct a b) c = gf_mult_direct a (gf_mult_direct b c)"
  by (induction a rule: u8_linear_induct)
    (simp_all only: gf_mult_xor_left gf_mult_0 gf_mult_basis_assoc)

section \<open>The field\<close>

typedef gf = "UNIV :: u8 set" morphisms u8_of gf_of
  by simp

setup_lifting type_definition_gf

instantiation gf :: comm_ring_1
begin

lift_definition zero_gf :: gf is 0 .
lift_definition one_gf :: gf is 1 .
lift_definition plus_gf :: "gf \<Rightarrow> gf \<Rightarrow> gf" is "\<lambda>a b. a XOR b" .
lift_definition minus_gf :: "gf \<Rightarrow> gf \<Rightarrow> gf" is "\<lambda>a b. a XOR b" .
lift_definition uminus_gf :: "gf \<Rightarrow> gf" is "\<lambda>a. a" .
lift_definition times_gf :: "gf \<Rightarrow> gf \<Rightarrow> gf" is gf_mult_direct .

instance
proof
  fix a b c :: gf
  show "a * b * c = a * (b * c)"
    by transfer (rule gf_mult_direct_assoc)
  show "a * b = b * a"
    by transfer (rule gf_mult_direct_commute)
  show "1 * a = a"
    by transfer (rule gf_mult_1)
  show "(a + b) * c = a * c + b * c"
    by transfer (rule gf_mult_xor_left)
  show "a + b + c = a + (b + c)" "a + b = b + a" "0 + a = a" "- a + a = 0" "a - b = a + - b"
    by (transfer; simp add: ac_simps)+
  show "(0 :: gf) \<noteq> 1"
    by transfer simp
qed

end

lemma gf_double: "a + a = (0 :: gf)"
  by transfer simp

lemma gf_minus_eq_plus: "a - b = a + (b :: gf)"
  by transfer simp

lemma gf_square_add: "(a + b) * (a + b) = a * a + b * (b :: gf)"
proof -
  have "(a + b) * (a + b) = a * a + (a * b + a * b) + b * b"
    by (simp add: algebra_simps)
  then show ?thesis
    by (simp only: gf_double add_0_right)
qed

lemma gf_of_mult: "gf_of a * gf_of b = gf_of (gf_mult_direct a b)"
  by transfer simp

lemma gf_of_plus: "gf_of a + gf_of b = gf_of (a XOR b)"
  by transfer simp

lemma gf_frobenius_add: "(a + b) ^ (2 ^ n) = a ^ (2 ^ n) + (b :: gf) ^ (2 ^ n)"
proof (induction n)
  case (Suc n)
  have "c ^ (2 ^ Suc n) = c ^ (2 ^ n) * c ^ (2 ^ n)" for c :: gf
    by (simp add: power_add [symmetric] mult_2)
  then show ?case
    by (simp only: Suc gf_square_add)
qed simp

lemma gf_x_power_256: "gf_of 2 ^ 256 = gf_of 2"
proof -
  have sq: "gf_of 2 ^ (2 * n) = gf_of 2 ^ n * gf_of 2 ^ n" for n
    by (simp add: mult_2 power_add)
  have "gf_of 2 ^ 2 = gf_of 4"
    by (simp add: power2_eq_square gf_of_mult gf_eval)
  from sq [of 2] this have "gf_of 2 ^ 4 = gf_of 16"
    by (simp add: gf_of_mult gf_eval)
  from sq [of 4] this have "gf_of 2 ^ 8 = gf_of 27"
    by (simp add: gf_of_mult gf_eval)
  from sq [of 8] this have "gf_of 2 ^ 16 = gf_of 94"
    by (simp add: gf_of_mult gf_eval)
  from sq [of 16] this have "gf_of 2 ^ 32 = gf_of 228"
    by (simp add: gf_of_mult gf_eval)
  from sq [of 32] this have "gf_of 2 ^ 64 = gf_of 77"
    by (simp add: gf_of_mult gf_eval)
  from sq [of 64] this have "gf_of 2 ^ 128 = gf_of 250"
    by (simp add: gf_of_mult gf_eval)
  from sq [of 128] this show ?thesis
    by (simp add: gf_of_mult gf_eval)
qed

lemma gf_of_basis: "i < 8 \<Longrightarrow> gf_of (push_bit i 1) = gf_of 2 ^ i"
proof (induction i)
  case 0
  show ?case by (simp add: one_gf_def)
next
  case (Suc i)
  then have "push_bit (Suc i) 1 = gf_mult_direct 2 (push_bit i 1)"
    by (intro push_bit_Suc_gf) simp
  then show ?case
    using Suc by (simp only: gf_of_mult [symmetric] power_Suc)
qed

lemma gf_power_256: "a ^ 256 = (a :: gf)"
proof (cases a)
  case (gf_of w)
  have "gf_of w ^ 256 = gf_of w" for w
  proof (induction w rule: u8_linear_induct)
    case zero
    show ?case by (simp add: zero_gf_def [symmetric])
  next
    case (basis i)
    have "(gf_of 2 ^ i) ^ 256 = (gf_of 2 ^ 256) ^ i"
      by (simp only: power_mult [symmetric] mult.commute)
    then show ?case
      by (simp only: gf_of_basis [OF basis] gf_x_power_256)
  next
    case (xor a b)
    then show ?case
      using gf_frobenius_add [of "gf_of a" "gf_of b" 8] by (simp add: gf_of_plus)
  qed
  then show ?thesis
    using gf_of by simp
qed

lemma u8_expand:
  "(a :: u8) = (if bit a 0 then 1 else 0) XOR (if bit a 1 then 2 else 0)
     XOR (if bit a 2 then 4 else 0) XOR (if bit a 3 then 8 else 0)
     XOR (if bit a 4 then 16 else 0) XOR (if bit a 5 then 32 else 0)
     XOR (if bit a 6 then 64 else 0) XOR (if bit a 7 then 128 else 0)"
proof (rule bit_word_eqI)
  fix n assume "n < LENGTH(8)"
  then have "n \<in> {0,1,2,3,4,5,6,7}" by (intro less_8_cases) simp
  then show "bit a n = bit ((if bit a 0 then 1 else 0) XOR (if bit a 1 then 2 else 0)
     XOR (if bit a 2 then 4 else 0) XOR (if bit a 3 then 8 else 0)
     XOR (if bit a 4 then 16 else 0) XOR (if bit a 5 then 32 else 0)
     XOR (if bit a 6 then 64 else 0) XOR (if bit a 7 then 128 else (0 :: u8))) n"
    by (elim insertE emptyE; simp add: bit_xor_iff)
qed

lemma gf_sq_xor: "gf_sq (a XOR b) = gf_sq a XOR gf_sq b"
proof -
  have "gf_of (gf_sq (a XOR b)) = gf_of (gf_sq a XOR gf_sq b)"
    using gf_square_add [of "gf_of a" "gf_of b"]
    by (simp only: gf_of_plus gf_of_mult gf_sq_def)
  then show ?thesis
    by (simp add: gf_of_inject)
qed

lemma gf_sq_basis: "gf_sq 0 = 0" "gf_sq 1 = 1" "gf_sq 2 = 4" "gf_sq 4 = 16" "gf_sq 8 = 64" "gf_sq 16 = 27"
  "gf_sq 32 = 108" "gf_sq 64 = 171" "gf_sq 128 = 154"
  by (simp_all add: gf_sq_def gf_eval)

lemma gf_sq_expand:
  "gf_sq a = (if bit a 0 then 1 else 0) XOR (if bit a 1 then 4 else 0)
     XOR (if bit a 2 then 16 else 0) XOR (if bit a 3 then 64 else 0)
     XOR (if bit a 4 then 27 else 0) XOR (if bit a 5 then 108 else 0)
     XOR (if bit a 6 then 171 else 0) XOR (if bit a 7 then 154 else 0)"
  by (subst u8_expand [of a]) (simp only: gf_sq_xor if_distrib [of gf_sq] gf_sq_basis)

lemma gf_sq_fixed:
  assumes "gf_sq w = w"
  shows "w = 0 \<or> w = 1"
proof -
  have b: "bit (gf_sq w) n = bit w n" for n
    by (simp add: assms)
  have "\<not> bit w 1 \<and> \<not> bit w 2 \<and> \<not> bit w 3 \<and> \<not> bit w 4 \<and> \<not> bit w 5 \<and> \<not> bit w 6 \<and> \<not> bit w 7"
    using b [of 0] b [of 1] b [of 2] b [of 3] b [of 4] b [of 5] b [of 6] b [of 7]
    unfolding gf_sq_expand by (simp add: bit_xor_iff if_distrib [of "\<lambda>v. bit v _"] cong: if_cong) argo
  then show ?thesis
    by (subst (1 2) u8_expand [of w]) auto
qed

lemma gf_idempotent:
  assumes "a * a = (a :: gf)"
  shows "a = 0 \<or> a = 1"
proof (cases a)
  case (gf_of w)
  then have "gf_sq w = w"
    using assms by (simp add: gf_of_mult gf_sq_def gf_of_inject)
  then have "w = 0 \<or> w = 1"
    by (rule gf_sq_fixed)
  then show ?thesis
    using gf_of by (auto simp: zero_gf_def one_gf_def)
qed

lemma gf_power_255:
  assumes "a \<noteq> (0 :: gf)"
  shows "a ^ 254 * a = 1"
proof -
  let ?e = "a ^ 255"
  have "?e * ?e = a ^ 254 * a ^ 256"
    by (simp add: power_add [symmetric])
  also have "\<dots> = a ^ 254 * a"
    by (simp only: gf_power_256)
  also have "\<dots> = ?e"
    by (simp add: power_Suc2 [symmetric])
  finally have "?e = 0 \<or> ?e = 1"
    by (rule gf_idempotent)
  moreover have "?e \<noteq> 0"
  proof
    assume "?e = 0"
    then have "a ^ 256 = 0"
      using power_Suc [of a 255] by simp
    then show False
      using assms by (simp add: gf_power_256)
  qed
  ultimately show ?thesis
    by (simp add: power_Suc2 [symmetric])
qed

instantiation gf :: field
begin

definition inverse_gf :: "gf \<Rightarrow> gf" where "inverse_gf a = a ^ 254"
definition divide_gf :: "gf \<Rightarrow> gf \<Rightarrow> gf" where "divide_gf a b = a * inverse b"

instance
  by standard (simp_all add: inverse_gf_def divide_gf_def gf_power_255)

end

section \<open>Polynomials\<close>

text \<open>A polynomial with more roots than its degree is zero.\<close>

lemma horner_step:
  "q = (x - a) * d + s \<Longrightarrow> (c + x * q) - (c + a * s) = (x - a) * (s + x * d)" for x :: "'a::field"
  by (erule ssubst) (simp add: algebra_simps)

lemma poly_divide_root:
  fixes c :: "nat \<Rightarrow> 'a::field"
  shows "\<exists>d. \<forall>x. (\<Sum>i\<le>Suc n. c i * x ^ i) - (\<Sum>i\<le>Suc n. c i * a ^ i) = (x - a) * (\<Sum>i\<le>n. d i * x ^ i)
     \<and> d n = c (Suc n)"
proof (induction n arbitrary: c)
  case 0
  show ?case by (rule exI [of _ "\<lambda>i. c 1"]) (simp add: algebra_simps)
next
  case (Suc n)
  obtain d where d: "\<forall>x. (\<Sum>i\<le>Suc n. c (Suc i) * x ^ i) - (\<Sum>i\<le>Suc n. c (Suc i) * a ^ i)
        = (x - a) * (\<Sum>i\<le>n. d i * x ^ i) \<and> d n = c (Suc (Suc n))"
    using Suc [of "\<lambda>i. c (Suc i)"] by blast
  let ?s = "\<Sum>i\<le>Suc n. c (Suc i) * a ^ i"
  let ?d = "\<lambda>i. case i of 0 \<Rightarrow> ?s | Suc j \<Rightarrow> d j"
  have shift: "(\<Sum>i\<le>Suc (Suc n). c i * x ^ i) = c 0 + x * (\<Sum>i\<le>Suc n. c (Suc i) * x ^ i)" for x
    by (subst sum.atMost_Suc_shift) (simp add: sum_distrib_left mult.left_commute del: sum.atMost_Suc)
  have dshift: "(\<Sum>i\<le>Suc n. ?d i * x ^ i) = ?s + x * (\<Sum>i\<le>n. d i * x ^ i)" for x
    by (subst sum.atMost_Suc_shift) (simp add: sum_distrib_left mult.left_commute del: sum.atMost_Suc)
  have "(\<Sum>i\<le>Suc (Suc n). c i * x ^ i) - (\<Sum>i\<le>Suc (Suc n). c i * a ^ i)
      = (x - a) * (\<Sum>i\<le>Suc n. ?d i * x ^ i)" for x
  proof -
    have "(\<Sum>i\<le>Suc n. c (Suc i) * x ^ i) = (x - a) * (\<Sum>i\<le>n. d i * x ^ i) + ?s"
      using d [rule_format, of x, THEN conjunct1] by (simp only: diff_eq_eq)
    then show ?thesis
      unfolding shift dshift by (rule horner_step)
  qed
  moreover have "?d (Suc n) = c (Suc (Suc n))"
    using d by simp
  ultimately show ?case
    by (intro exI [of _ ?d]) blast
qed

lemma poly_roots_zero:
  fixes c :: "nat \<Rightarrow> 'a::field"
  assumes "finite R" "n < card R" "\<And>x. x \<in> R \<Longrightarrow> (\<Sum>i\<le>n. c i * x ^ i) = 0" "i \<le> n"
  shows "c i = 0"
  using assms
proof (induction n arbitrary: c R i)
  case 0
  then obtain x where "x \<in> R" by fastforce
  then show ?case using 0 by simp
next
  case (Suc n)
  obtain a where a: "a \<in> R" using Suc.prems by (metis card.empty ex_in_conv not_less_zero)
  obtain d where d: "\<And>x. (\<Sum>i\<le>Suc n. c i * x ^ i) - (\<Sum>i\<le>Suc n. c i * a ^ i) = (x - a) * (\<Sum>i\<le>n. d i * x ^ i)"
    "d n = c (Suc n)"
    using poly_divide_root [where n = n and c = c and a = a] by blast
  have root: "(\<Sum>i\<le>n. d i * x ^ i) = 0" if "x \<in> R - {a}" for x
    using that d(1) [of x] Suc.prems(3) a by auto
  have dz: "d i = 0" if "i \<le> n" for i
    using Suc.IH [of "R - {a}" d i] Suc.prems a root that by simp
  then have top: "c (Suc n) = 0" using d(2) by simp
  show ?case
  proof (cases "i = Suc n")
    case False
    have "(\<Sum>i\<le>n. c i * x ^ i) = 0" if "x \<in> R" for x
      using Suc.prems(3) [OF that] top by simp
    then show ?thesis
      using Suc.IH [of R c i] Suc.prems False by simp
  qed (simp add: top)
qed

section \<open>The tables\<close>

lemma gf_of_u8_of [simp]: "gf_of (u8_of a) = a"
  by (rule u8_of_inverse)

lemma u8_of_gf_of [simp]: "u8_of (gf_of a) = a"
  by (rule gf_of_inverse) simp

lemma gf_of_0 [simp]: "gf_of 0 = 0"
  by (simp add: zero_gf_def)

lemma gf_of_1 [simp]: "gf_of 1 = 1"
  by (simp add: one_gf_def)

lemma gf_of_eq_iff [simp]: "gf_of a = gf_of b \<longleftrightarrow> a = b"
  by (simp add: gf_of_inject)

lemma gf_of_eq_0_iff [simp]: "gf_of a = 0 \<longleftrightarrow> a = 0"
  using gf_of_eq_iff [of a 0] by (simp del: gf_of_eq_iff)

locale gf_tables =
  fixes st :: nk8_state
  assumes mult_law: "gf_of (gf_mult st a b) = gf_of a * gf_of b"
    and div_law: "gf_of (gf_div st a b) = gf_of a / gf_of b"
begin

lemma dot_product:
  "gf_of (fold (\<lambda>m curr. curr XOR gf_mult st (f m) (g m)) [0..<k] c)
     = gf_of c + (\<Sum>m<k. gf_of (f m) * gf_of (g m))"
  by (induction k) (simp_all add: gf_of_plus [symmetric] mult_law add.assoc)

lemma power_vector:
  "gf_of (foldl (\<lambda>v j. gf_mult st v a) 1 [0..<k]) = gf_of a ^ k"
  by (induction k) (simp_all add: mult_law)

end

lemma unat_u8: "unat (a :: u8) < 256"
  using unsigned_less [of a] by simp

lemma gf_mult_table:
  "gf_log st = map (\<lambda>i. map (\<lambda>j. gf_mult_direct (of_nat i) (of_nat j)) [0..<0x100]) [0..<0x100] \<Longrightarrow>
   gf_mult st a b = gf_mult_direct a b"
  using unat_u8 [of a] unat_u8 [of b] by (simp add: gf_mult_def del: upt_rec_numeral)

lemma find_unique:
  assumes "k \<in> set xs" "P k" "\<And>x. x \<in> set xs \<Longrightarrow> P x \<Longrightarrow> x = k"
  shows "find P xs = Some k"
  using assms
proof (induction xs)
  case (Cons x xs)
  show ?case
  proof (cases "P x")
    case True
    then show ?thesis
      using Cons.prems(3) [of x] by simp
  next
    case False
    then have "x \<noteq> k"
      using Cons.prems(2) by blast
    then have "k \<in> set xs"
      using Cons.prems(1) by simp
    then have "find P xs = Some k"
      by (rule Cons.IH [OF _ Cons.prems(2)]) (rule Cons.prems(3), rule list.set_intros(2))
    then show ?thesis
      using False by simp
  qed
qed simp

lemma gf_div_brute_correct:
  assumes "\<And>a b. gf_mult st a b = gf_mult_direct a b"
  shows "gf_of (gf_div_brute st i j) = gf_of i / gf_of j"
proof (cases "i = 0 \<or> j = 0")
  case True
  then show ?thesis
    by (elim disjE) (simp_all only: gf_div_brute_def simp_thms if_True gf_of_0 div_0 div_by_0)
next
  case False
  let ?q = "u8_of (gf_of i / gf_of j)"
  have nz: "gf_of i \<noteq> 0" "gf_of j \<noteq> 0"
    using False by simp_all
  have iff: "gf_mult st k j = i \<longleftrightarrow> k = ?q" for k
  proof -
    have "gf_mult st k j = i \<longleftrightarrow> gf_of k * gf_of j = gf_of i"
      by (simp add: assms gf_of_mult)
    also have "\<dots> \<longleftrightarrow> gf_of k = gf_of i / gf_of j"
      using nz by (simp add: eq_divide_eq)
    also have "\<dots> \<longleftrightarrow> k = ?q"
      by (metis gf_of_u8_of u8_of_gf_of)
    finally show ?thesis .
  qed
  have "gf_of ?q \<noteq> gf_of 0"
    unfolding gf_of_u8_of gf_of_0 using nz by (simp only: divide_eq_0_iff simp_thms)
  then have "0 < unat ?q"
    unfolding gf_of_eq_iff by (simp add: unat_gt_0)
  then have "unat ?q \<in> set [1..<0x100]"
    unfolding set_upt atLeastLessThan_iff using unat_u8 [of ?q] by simp
  then have "find (\<lambda>k. gf_mult st (of_nat k) j = i) [1..<0x100] = Some (unat ?q)"
  proof (rule find_unique)
    fix k assume "k \<in> set [1..<0x100]" "gf_mult st (of_nat k) j = i"
    then have "of_nat k = ?q" "k < 256"
      by (simp_all only: iff set_upt atLeastLessThan_iff)
    moreover have "unat (of_nat k :: u8) = k" if "k < 256"
      using that by (simp add: unat_of_nat)
    ultimately show "k = unat ?q"
      by (simp only:)
  qed (simp add: iff)
  then have "gf_div_brute st i j = of_nat (unat ?q)"
    unfolding gf_div_brute_def using False by (simp only: simp_thms if_False option.case)
  then show ?thesis
    by simp
qed

interpretation nk8_tables: gf_tables "gf_init st" for st
proof
  fix a b
  let ?st1 = "st\<lparr>gf_log := map (\<lambda>i. map (\<lambda>j. gf_mult_direct (of_nat i) (of_nat j)) [0..<0x100]) [0..<0x100]\<rparr>"
  have m: "gf_mult ?st1 a b = gf_mult_direct a b" for a b
    by (rule gf_mult_table) (simp del: upt_rec_numeral)
  have "gf_mult (gf_init st) a b = gf_mult_direct a b"
    by (rule gf_mult_table) (simp add: gf_init_def Let_def del: upt_rec_numeral)
  then show "gf_of (gf_mult (gf_init st) a b) = gf_of a * gf_of b"
    by (simp add: gf_of_mult)
  have "gf_div (gf_init st) a b = gf_div_brute ?st1 a b"
    using unat_u8 [of a] unat_u8 [of b] by (simp add: gf_div_def gf_init_def Let_def del: upt_rec_numeral)
  then show "gf_of (gf_div (gf_init st) a b) = gf_of a / gf_of b"
    by (simp only: gf_div_brute_correct [OF m])
qed

section \<open>Properties\<close>



end
