(* ===== verification/Crt_Util.thy ===== *)
theory Crt_Util
  imports Nkfs_Prelude
begin

text \<open>
  The small utilities of the common runtime: the 64-bit division helpers
  (\<open>src/core/helpers.h\<close>), the error texts (\<open>src/crt/error.c\<close>), bounded
  random numbers (\<open>src/crt/random.c\<close>), hexadecimal conversion
  (\<open>src/crt/char2hex.c\<close>) and 128-bit object identifiers
  (\<open>src/crt/obj_id.c\<close>).
\<close>

section \<open>Division helpers\<close>

text \<open>
  The kernel's \<open>do_div(n, base)\<close> on a 64-bit machine: the base is read as a
  32-bit unsigned, the quotient replaces \<open>n\<close>, the remainder is returned.
\<close>

definition do_div :: "u64 \<Rightarrow> u64 \<Rightarrow> u64 \<times> u32" where
  "do_div n base =
     (let b = ucast (ucast base :: u32) in (n div b, ucast (n mod b)))"

definition nkfs_div_round_up :: "u64 \<Rightarrow> u64 \<Rightarrow> u64" where
  "nkfs_div_round_up x y = fst (do_div (x + y - 1) y)"

definition nkfs_div :: "u64 \<Rightarrow> u64 \<Rightarrow> u64" where
  "nkfs_div x y = fst (do_div x y)"

definition nkfs_mod :: "u64 \<Rightarrow> u64 \<Rightarrow> u32" where
  "nkfs_mod x y = snd (do_div x y)"

section \<open>Error texts\<close>

abbreviation (input) NKFS_E_BASE :: int where
  "NKFS_E_BASE \<equiv> -536809472"

abbreviation (input) NKFS_E_NO_MEM :: int where "NKFS_E_NO_MEM \<equiv> NKFS_E_BASE + 1"
abbreviation (input) NKFS_E_UNK_IOCTL :: int where "NKFS_E_UNK_IOCTL \<equiv> NKFS_E_BASE + 2"
abbreviation (input) NKFS_E_BUF_SMALL :: int where "NKFS_E_BUF_SMALL \<equiv> NKFS_E_BASE + 3"
abbreviation (input) NKFS_E_OBJ_PUT :: int where "NKFS_E_OBJ_PUT \<equiv> NKFS_E_BASE + 4"
abbreviation (input) NKFS_E_OBJ_CREATE :: int where "NKFS_E_OBJ_CREATE \<equiv> NKFS_E_BASE + 5"
abbreviation (input) NKFS_E_OBJ_DELETE :: int where "NKFS_E_OBJ_DELETE \<equiv> NKFS_E_BASE + 6"
abbreviation (input) NKFS_E_CON_INIT_FAILED :: int where "NKFS_E_CON_INIT_FAILED \<equiv> NKFS_E_BASE + 7"
abbreviation (input) NKFS_E_OBJ_GET :: int where "NKFS_E_OBJ_GET \<equiv> NKFS_E_BASE + 8"
abbreviation (input) NKFS_E_INVAL :: int where "NKFS_E_INVAL \<equiv> NKFS_E_BASE + 9"
abbreviation (input) NKFS_E_LIMIT :: int where "NKFS_E_LIMIT \<equiv> NKFS_E_BASE + 10"

definition nkfs_get_error_msg :: "int \<Rightarrow> string" where
  "nkfs_get_error_msg err =
     (if err = NKFS_E_NO_MEM then ''no memory''
      else if err = NKFS_E_UNK_IOCTL then ''unknown ioctl''
      else if err = NKFS_E_BUF_SMALL then ''buffer too small''
      else if err = NKFS_E_OBJ_PUT then ''send obj failed''
      else if err = NKFS_E_OBJ_CREATE then ''create obj on server failed''
      else if err = NKFS_E_OBJ_DELETE then ''delete obj on server failed''
      else if err = NKFS_E_CON_INIT_FAILED then ''connection initialization failed''
      else if err = NKFS_E_OBJ_GET then ''failed to get object''
      else if err = NKFS_E_INVAL then ''invalid value''
      else if err = NKFS_E_LIMIT then ''limit reached''
      else ''unknown err code'')"

section \<open>Random numbers\<close>

text \<open>
  The random device is a list of the outcomes of the successive calls to
  \<open>crt_random_buf\<close>: None when the call fails, in which case the source
  returns -1.  A result None of the functions below means that the given
  outcomes are used up and the rejection loop still runs, or that the shift
  \<open>1 << log\<close> is undefined.
\<close>

type_synonym rnd = "u64 option"

definition rand_u64 :: "rnd \<Rightarrow> u64" where
  "rand_u64 r = (case r of None \<Rightarrow> -1 | Some cand \<Rightarrow> cand)"

function log2_u32_loop :: "u32 \<Rightarrow> nat" where
  "log2_u32_loop val = (if val > 0 then Suc (log2_u32_loop (drop_bit 1 val)) else 0)"
  by auto
termination
proof (relation "measure unat", goal_cases)
  case (2 val)
  then have "0 < unat val"
    by (simp add: word_gt_0 unat_gt_0)
  then show ?case
    by (simp add: drop_bit_eq_div unat_div)
qed simp

declare log2_u32_loop.simps [simp del]

definition log2_u32 :: "u32 \<Rightarrow> u32" where
  "log2_u32 val = of_nat (log2_u32_loop val)"

primrec rand_u32_up_loop :: "u32 \<Rightarrow> u64 \<Rightarrow> rnd list \<Rightarrow> (u32 \<times> rnd list) option" where
  "rand_u32_up_loop up msk [] = None"
| "rand_u32_up_loop up msk (r # rs) =
     (let v = ucast (rand_u64 r AND msk) :: u32 in
      if v < up then Some (v, rs) else rand_u32_up_loop up msk rs)"

definition rand_u32_up :: "u32 \<Rightarrow> rnd list \<Rightarrow> (u32 \<times> rnd list) option" where
  "rand_u32_up up rs =
     (if up = 0 then Some (0, rs)
      else if up AND (up - 1) = 0 then
        (case rs of [] \<Rightarrow> None
         | r # rs' \<Rightarrow> Some (ucast (rand_u64 r AND ucast (up - 1)), rs'))
      else let log = log2_u32 up in
        if log \<ge> 32 then None
        else rand_u32_up_loop up (scast (push_bit (unat log) (1 :: u32) - 1)) rs)"

definition rand_u32_min_max :: "u32 \<Rightarrow> u32 \<Rightarrow> rnd list \<Rightarrow> (u32 \<times> rnd list) option" where
  "rand_u32_min_max mn mx rs =
     (if mn > mx then Some (-1, rs)
      else if mn = mx then Some (mn, rs)
      else (case rand_u32_up (mx - mn + 1) rs of None \<Rightarrow> None
            | Some (v, rs') \<Rightarrow> Some (mn + v, rs')))"

section \<open>Hexadecimal conversion\<close>

text \<open>A C \<open>char\<close> is a signed byte: comparisons read it with \<^const>\<open>sint\<close>.\<close>

definition char_to_hex :: "u8 \<Rightarrow> u8" where
  "char_to_hex c = (if sint c < 10 then word_of_int (48 + sint c)
                    else word_of_int (97 + sint c - 10))"

definition hex_to_char :: "u8 \<Rightarrow> int" where
  "hex_to_char c =
     (if sint c \<ge> 48 \<and> sint c \<le> 57 then sint c - 48
      else if sint c \<ge> 97 \<and> sint c \<le> 102 then sint c - 97 + 10
      else -1)"

text \<open>The loop of \<open>hex_bytes\<close>: the bytes stored at \<open>dst\<close>, or an error.\<close>

fun hex_bytes_loop :: "u8 list \<Rightarrow> int + u8 list" where
  "hex_bytes_loop (h # l # hs) =
     (let high = hex_to_char h; low = hex_to_char l in
      if high = -1 \<or> low = -1 then Inl (- EINVAL)
      else (case hex_bytes_loop hs of Inl e \<Rightarrow> Inl e
            | Inr bs \<Rightarrow> Inr (word_of_int (push_bit 4 high + low) # bs)))"
| "hex_bytes_loop _ = Inr []"

definition hex_bytes :: "u8 list \<Rightarrow> nat \<Rightarrow> int + u8 list" where
  "hex_bytes hex dst_len =
     (if length hex = 0 \<or> dst_len = 0 then Inl (- EINVAL)
      else if odd (length hex) then Inl (- EINVAL)
      else if dst_len \<noteq> length hex div 2 then Inl (- EINVAL)
      else hex_bytes_loop hex)"

definition bytes_buf_hex :: "u8 list \<Rightarrow> nat \<Rightarrow> int + u8 list" where
  "bytes_buf_hex src hex_count =
     (if hex_count < 2 * length src then Inl NKFS_E_BUF_SMALL
      else Inr (concat (map (\<lambda>c. [char_to_hex (signed_drop_bit 4 c AND 15),
                                  char_to_hex (c AND 15)]) src)))"

text \<open>\<open>mem\<close> is the outcome of the allocation; None is a NULL result.\<close>

definition bytes_hex :: "bool \<Rightarrow> u8 list \<Rightarrow> u8 list option" where
  "bytes_hex mem src =
     (if src = [] then None
      else let hex_count = 2 * length src + 1 in
        if \<not> mem then None
        else (case bytes_buf_hex src hex_count of
                Inl e \<Rightarrow> None
              | Inr hex \<Rightarrow> Some (hex @ [0])))"

section \<open>Object identifiers\<close>

record nkfs_obj_id =
  id_high :: u64
  id_low :: u64

definition nkfs_obj_id_bytes :: "nkfs_obj_id \<Rightarrow> u8 list" where
  "nkfs_obj_id_bytes oid = le_bytes 8 (id_high oid) @ le_bytes 8 (id_low oid)"

definition nkfs_obj_id_of_bytes :: "u8 list \<Rightarrow> nkfs_obj_id" where
  "nkfs_obj_id_of_bytes bs =
     \<lparr>id_high = le_word (take 8 bs), id_low = le_word (take 8 (drop 8 bs))\<rparr>"

definition nkfs_obj_id_str :: "bool \<Rightarrow> nkfs_obj_id \<Rightarrow> u8 list option" where
  "nkfs_obj_id_str mem oid = bytes_hex mem (nkfs_obj_id_bytes oid)"

definition nkfs_obj_id_cmp :: "nkfs_obj_id \<Rightarrow> nkfs_obj_id \<Rightarrow> int" where
  "nkfs_obj_id_cmp id1 id2 =
     (if id_high id1 > id_high id2 then 1
      else if id_high id1 < id_high id2 then -1
      else if id_low id1 > id_low id2 then 1
      else if id_low id1 < id_low id2 then -1
      else 0)"

abbreviation U64_MAX :: u64 where "U64_MAX \<equiv> - 1"

text \<open>None is the \<open>CRT_BUG\<close> of the source.\<close>

definition nkfs_obj_id_minus :: "nkfs_obj_id \<Rightarrow> nkfs_obj_id \<Rightarrow> nkfs_obj_id option" where
  "nkfs_obj_id_minus id1 id2 =
     (if id_high id1 > id_high id2 then
        if id_low id1 \<ge> id_low id2 then
          Some \<lparr>id_high = id_high id1 - id_high id2, id_low = id_low id1 - id_low id2\<rparr>
        else
          Some \<lparr>id_high = id_high id1 - id_high id2 - 1,
                id_low = (U64_MAX - id_low id2) + id_low id1 + 1\<rparr>
      else if id_high id1 = id_high id2 then do {
        assert_that (\<not> id_low id1 < id_low id2);
        Some \<lparr>id_high = 0, id_low = id_low id1 - id_low id2\<rparr>
      }
      else None)"

definition nkfs_obj_id_dist :: "nkfs_obj_id \<Rightarrow> nkfs_obj_id \<Rightarrow> nkfs_obj_id option" where
  "nkfs_obj_id_dist id1 id2 =
     (if nkfs_obj_id_cmp id1 id2 \<ge> 0 then nkfs_obj_id_minus id1 id2
      else nkfs_obj_id_minus id2 id1)"

definition nkfs_obj_id_zero :: nkfs_obj_id where
  "nkfs_obj_id_zero = \<lparr>id_high = 0, id_low = 0\<rparr>"

text \<open>\<open>s\<close> is a C string: its characters up to and including the first NUL.\<close>

definition crt_strlen :: "u8 list \<Rightarrow> nat" where
  "crt_strlen s = length (takeWhile (\<lambda>c. c \<noteq> 0) s)"

definition nkfs_obj_id_by_str :: "bool \<Rightarrow> u8 list \<Rightarrow> nkfs_obj_id option" where
  "nkfs_obj_id_by_str mem s =
     (if \<not> mem then None
      else (case hex_bytes (take (crt_strlen s) s) 16 of
              Inl e \<Rightarrow> None
            | Inr bs \<Rightarrow> Some (nkfs_obj_id_of_bytes bs)))"

text \<open>\<open>buf\<close> is what \<open>crt_random_buf\<close> gives: its error or the sixteen bytes it read.\<close>

definition nkfs_obj_id_gen :: "int + u8 list \<Rightarrow> int + nkfs_obj_id" where
  "nkfs_obj_id_gen buf =
     (case buf of Inl e \<Rightarrow> Inl e | Inr bs \<Rightarrow> Inr (nkfs_obj_id_of_bytes bs))"

text \<open>
  The number an object identifier stands for: \<open>high\<close> is the more significant
  half, as \<^const>\<open>nkfs_obj_id_cmp\<close> compares it first.
\<close>

definition oid_nat :: "nkfs_obj_id \<Rightarrow> nat" where
  "oid_nat oid = unat (id_high oid) * 2 ^ 64 + unat (id_low oid)"

text \<open>The characters \<open>bytes_buf_hex\<close> writes for a byte list.\<close>

abbreviation hex_of :: "u8 list \<Rightarrow> u8 list" where
  "hex_of src \<equiv> concat (map (\<lambda>c. [char_to_hex (signed_drop_bit 4 c AND 15), char_to_hex (c AND 15)]) src)"

section \<open>Lemmas: random numbers\<close>

lemma log2_u32_loop_eq_0: "log2_u32_loop v = 0 \<longleftrightarrow> v = 0"
  by (subst log2_u32_loop.simps) (simp add: word_gt_0)

lemma log2_u32_loop_bounds:
  "unat v < 2 ^ log2_u32_loop v \<and> (0 < v \<longrightarrow> 2 ^ (log2_u32_loop v - 1) \<le> unat v)"
proof (induction v rule: log2_u32_loop.induct)
  case (1 v)
  show ?case
  proof (cases "v = 0")
    case False
    then have pos: "0 < v" by (simp add: word_gt_0)
    have u: "unat (drop_bit 1 v) = unat v div 2"
      by (simp add: drop_bit_eq_div unat_div)
    show ?thesis
    proof (cases "drop_bit 1 v = 0")
      case True
      then have "unat v div 2 = 0" using u by simp
      moreover have "unat v \<noteq> 0" using False by (simp add: unat_eq_zero)
      ultimately have "unat v = 1" by auto
      then show ?thesis using pos True
        by (subst (1 2) log2_u32_loop.simps) (simp add: log2_u32_loop.simps [of 0])
    next
      case F: False
      then obtain m where m: "log2_u32_loop (drop_bit 1 v) = Suc m"
        using log2_u32_loop_eq_0 [of "drop_bit 1 v"] not0_implies_Suc by blast
      then have l: "log2_u32_loop v = Suc (Suc m)"
        using pos by (subst log2_u32_loop.simps) simp
      have "unat v div 2 < 2 ^ Suc m" "2 ^ m \<le> unat v div 2"
        using 1 pos F u m by (auto simp: word_gt_0)
      then show ?thesis
        unfolding l by auto
    qed
  qed (simp add: log2_u32_loop.simps [of 0])
qed

lemma log2_u32_loop_le: "log2_u32_loop v \<le> n" if "unat v < 2 ^ n"
proof (rule ccontr)
  assume "\<not> ?thesis"
  then have "n \<le> log2_u32_loop v - 1" "0 < v"
    using log2_u32_loop_eq_0 [of v] by (auto simp: word_gt_0)
  then have "2 ^ n \<le> (2 :: nat) ^ (log2_u32_loop v - 1)"
    by (intro power_increasing) auto
  also have "\<dots> \<le> unat v"
    using log2_u32_loop_bounds [of v] \<open>0 < v\<close> by blast
  finally have "2 ^ n \<le> unat v" .
  then show False using that by simp
qed

lemma rand_mask:
  assumes "n < 32"
  shows "scast (2 ^ n - 1 :: u32) = (mask n :: u64)"
proof -
  have "scast (mask n :: u32) = (mask n :: u64)"
    using assms by (intro bit_word_eqI) (auto simp: bit_simps)
  then show ?thesis
    by (simp add: mask_eq_exp_minus_1)
qed

lemma rand_u32_up_loop_bound: "rand_u32_up_loop up m rs = Some (v, rs') \<Longrightarrow> v < up"
  by (induction rs) (auto simp: Let_def split: if_splits)

lemma rand_u32_up_loop_returns:
  "r \<in> set rs \<Longrightarrow> ucast (rand_u64 r AND m) < up \<Longrightarrow> \<exists>v rs'. rand_u32_up_loop up m rs = Some (v, rs')"
  by (induction rs) (auto simp: Let_def)

lemma and_pred_less: assumes "up \<noteq> (0::u32)"
  shows "ucast ((w::u64) AND ucast (up - 1)) < up"
proof -
  have "ucast (w AND ucast (up - 1)) = ucast w AND (up - 1)"
    by (rule bit_word_eqI) (auto simp: bit_simps)
  also have "\<dots> \<le> up - 1" by (simp add: word_and_le1)
  also have "up - 1 < up" using assms by (simp add: word_gt_0 word_less_nat_alt unat_minus_one unat_gt_0)
  finally show ?thesis .
qed

section \<open>Lemmas: hexadecimal conversion\<close>

lemma u8_15_mask: "(15::u8) = mask 4" by (simp add: mask_eq_exp_minus_1)

lemma and_15_u8: "c AND 15 = take_bit 4 (c::u8)"
  by (simp add: u8_15_mask take_bit_eq_mask)

lemma nibble_cases:
  assumes "uint (c::u8) < 16"
  shows "c \<in> {0,1,2,3,4,5,6,7,8,9,10,11,12,13,14,15}"
proof -
  have "i \<in> {0,1,2,3,4,5,6,7,8,9,10,11,12,13,14,15}" if "0 \<le> i" "i < 16" for i :: int
    using that unfolding insert_iff empty_iff by presburger
  then have "uint c \<in> {0,1,2,3,4,5,6,7,8,9,10,11,12,13,14,15}"
    using assms by blast
  then have "(word_of_int :: int \<Rightarrow> u8) (uint c)
      \<in> word_of_int ` {0,1,2,3,4,5,6,7,8,9,10,11,12,13,14,15}"
    by (rule imageI)
  then show ?thesis
    by simp
qed

lemma sint_small_u8: "-128 \<le> x \<Longrightarrow> x < 128 \<Longrightarrow> sint (word_of_int x :: u8) = x"
  by (simp add: sint_sbintrunc' signed_take_bit_int_eq_self)

lemma word_of_int_sint: "word_of_int (sint c) = (c :: u8)"
  by (simp add: scast_eq [symmetric])

lemma hex_to_char_range:
  assumes "hex_to_char c \<noteq> -1"
  shows "0 \<le> hex_to_char c \<and> hex_to_char c < 16 \<and> char_to_hex (word_of_int (hex_to_char c)) = c"
  using assms
  by (auto simp: hex_to_char_def char_to_hex_def sint_small_u8 word_of_int_sint split: if_splits)

lemma signed_drop_bit_nibble: "signed_drop_bit 4 c AND 15 = drop_bit 4 (c::u8)"
  unfolding and_15_u8
  by (rule bit_word_eqI) (auto simp: bit_simps dest: bit_imp_le_length)

lemma uint_high_nibble: "uint (drop_bit 4 (c::u8)) = uint c div 16"
  by (simp add: drop_bit_eq_div uint_div)

lemma uint_low_nibble: "uint (c AND 15) = uint (c::u8) mod 16"
  by (simp add: and_15_u8 take_bit_eq_mod uint_mod)

lemma nibbles:
  assumes "0 \<le> h" "h < 16" "0 \<le> l" "l < 16"
  shows "signed_drop_bit 4 (word_of_int (push_bit 4 h + l)) AND 15 = (word_of_int h :: u8)"
   "word_of_int (push_bit 4 h + l) AND 15 = (word_of_int l :: u8)"
proof -
  have w: "uint (word_of_int (push_bit 4 h + l) :: u8) = h * 16 + l"
    using assms by (subst uint_word_of_int) (simp add: push_bit_eq_mult)
  have h: "uint (word_of_int h :: u8) = h" and l: "uint (word_of_int l :: u8) = l"
    using assms by (simp_all add: uint_word_of_int)
  show "signed_drop_bit 4 (word_of_int (push_bit 4 h + l)) AND 15 = (word_of_int h :: u8)"
    unfolding signed_drop_bit_nibble using assms by (simp only: word_uint_eq_iff uint_high_nibble w h)
  show "word_of_int (push_bit 4 h + l) AND 15 = (word_of_int l :: u8)"
    using assms by (simp only: word_uint_eq_iff uint_low_nibble w l) simp
qed

lemma hex_to_char_char_to_hex:
  assumes "uint c < 16"
  shows "hex_to_char (char_to_hex c) = uint c \<and> char_to_hex c \<noteq> 0"
  using nibble_cases [OF assms]
  by (elim insertE emptyE) (simp_all add: hex_to_char_def char_to_hex_def)

lemma hex_bytes_loop_bytes:
  "hex_bytes_loop (concat (map (\<lambda>c. [char_to_hex (signed_drop_bit 4 c AND 15),
                                  char_to_hex (c AND 15)]) src)) = Inr src"
proof (induction src)
  case (Cons c src)
  have 1: "hex_to_char (char_to_hex (drop_bit 4 c)) = uint c div 16"
    by (subst hex_to_char_char_to_hex [THEN conjunct1])
      (use uint_bounded [of c] in \<open>auto simp: uint_high_nibble\<close>)
  have 2: "hex_to_char (char_to_hex (c AND 15)) = uint c mod 16"
    by (subst hex_to_char_char_to_hex [THEN conjunct1]) (auto simp: uint_low_nibble)
  have "word_of_int (uint c div 16 * 16 + uint c mod 16) = c"
    by simp
  moreover have "0 \<le> uint c div 16"
    by (simp add: pos_imp_zdiv_nonneg_iff)
  ultimately show ?case
    using Cons by (simp add: signed_drop_bit_nibble 1 2 push_bit_eq_mult Let_def del: div_mult_mod_eq)
qed simp

lemma hex_bytes_loop_canonical:
  "hex_bytes_loop hs = Inr bs \<Longrightarrow> even (length hs) \<Longrightarrow>
   concat (map (\<lambda>c. [char_to_hex (signed_drop_bit 4 c AND 15), char_to_hex (c AND 15)]) bs) = hs
   \<and> length hs = 2 * length bs"
proof (induction hs arbitrary: bs rule: hex_bytes_loop.induct)
  case (1 h l hs)
  have hl: "hex_to_char h \<noteq> -1" "hex_to_char l \<noteq> -1"
    using 1 by (auto simp: Let_def split: if_splits)
  then obtain bs' where bs': "hex_bytes_loop hs = Inr bs'"
    "bs = word_of_int (push_bit 4 (hex_to_char h) + hex_to_char l) # bs'"
    using 1 by (auto simp: Let_def split: sum.splits)
  show ?case
    using 1 hl bs' hex_to_char_range [OF hl(1)] hex_to_char_range [OF hl(2)]
    by (simp add: nibbles del: of_int_add)
qed auto

section \<open>Lemmas: object identifiers\<close>

lemma two_digit_less_iff: "a < (2::nat)^64 \<Longrightarrow> b < 2^64 \<Longrightarrow> h * 2^64 + a < h' * 2^64 + b \<longleftrightarrow> h < h' \<or> h = h' \<and> a < b"
proof -
  assume a: "a < (2::nat)^64" "b < 2^64"
  { assume "h < h'" then have "Suc h * 2^64 \<le> h' * 2^64" by (intro mult_right_mono) auto
    then have "h * 2^64 + a < h' * 2^64 + b" using a by simp }
  moreover
  { assume "h' < h" then have "Suc h' * 2^64 \<le> h * 2^64" by (intro mult_right_mono) auto
    then have "\<not> h * 2^64 + a < h' * 2^64 + b" using a by simp }
  ultimately show ?thesis by (cases h h' rule: linorder_cases) auto
qed

lemma unat_u64_less: "unat (w::u64) < 2^64"
  using unsigned_less [of w] by simp

lemma nkfs_obj_id_cmp_eq: "nkfs_obj_id_cmp a b = sgn (int (oid_nat a) - int (oid_nat b))"
proof -
  have "oid_nat x < oid_nat y \<longleftrightarrow> id_high x < id_high y \<or> id_high x = id_high y \<and> id_low x < id_low y" for x y
    unfolding oid_nat_def using two_digit_less_iff [OF unat_u64_less unat_u64_less]
    by (simp add: word_less_nat_alt word_unat_eq_iff)
  from this [of a b] this [of b a] show ?thesis
    by (auto simp: nkfs_obj_id_cmp_def sgn_if)
qed

lemma nkfs_obj_id_minus_eq:
  assumes "oid_nat b \<le> oid_nat a"
  shows "\<exists>d. nkfs_obj_id_minus a b = Some d \<and> oid_nat d = oid_nat a - oid_nat b"
proof -
  consider "id_high b < id_high a" "id_low b \<le> id_low a" | "id_high b < id_high a" "id_low a < id_low b"
   | "id_high b = id_high a" "id_low b \<le> id_low a"
   using assms two_digit_less_iff [OF unat_u64_less unat_u64_less, of "unat (id_high a)" "id_low a" "unat (id_high b)" "id_low b"]
   unfolding oid_nat_def by (fastforce simp: word_less_nat_alt word_le_nat_alt word_unat_eq_iff)
  then show ?thesis
  proof cases
    case 1
    then have "unat (id_high b) < unat (id_high a)" "unat (id_low b) \<le> unat (id_low a)"
      by (simp_all add: word_less_nat_alt word_le_nat_alt)
    then have "unat (id_high b) * 2 ^ 64 \<le> unat (id_high a) * 2 ^ 64" "unat (id_low b) \<le> unat (id_low a)"
      by simp_all
    then show ?thesis
      using 1 by (auto simp: nkfs_obj_id_minus_def oid_nat_def unat_sub less_imp_le algebra_simps)
  next
    case 2
    have l: "unat (id_low a - id_low b) = 2^64 + unat (id_low a) - unat (id_low b)"
      using 2 unat_sub_if' [of "id_low a" "id_low b"] by (simp add: word_less_nat_alt)
    have "unat (id_high a - id_high b) = unat (id_high a) - unat (id_high b)"
      using 2 by (simp add: unat_sub less_imp_le)
    then have "1 \<le> id_high a - id_high b"
      using 2 by (simp add: word_le_nat_alt word_less_nat_alt)
    then have h: "unat (id_high a - id_high b - 1) = unat (id_high a) - unat (id_high b) - 1"
      using 2 by (simp add: unat_sub less_imp_le)
    have "unat (id_high b) < unat (id_high a)" using 2 by (simp add: word_less_nat_alt)
    then show ?thesis using 2 l h unat_u64_less [of "id_low b"]
      by (auto simp: nkfs_obj_id_minus_def oid_nat_def algebra_simps not_le[symmetric])
  qed (auto simp: nkfs_obj_id_minus_def oid_nat_def unat_sub less_imp_le algebra_simps not_less)
qed

section \<open>Properties\<close>

text \<open>
  (C15) The distance of two identifiers never reaches the \<open>CRT_BUG\<close> of the
  subtraction and is the absolute difference of the 128-bit numbers they stand
  for.
\<close>

theorem nkfs_obj_id_dist_correct:
  "\<exists>d. nkfs_obj_id_dist a b = Some d \<and> int (oid_nat d) = \<bar>int (oid_nat a) - int (oid_nat b)\<bar>"
proof (cases "oid_nat b \<le> oid_nat a")
  case True
  then show ?thesis
    using nkfs_obj_id_minus_eq [OF True]
    by (auto simp: nkfs_obj_id_dist_def nkfs_obj_id_cmp_eq sgn_if)
next
  case False
  then show ?thesis
    using nkfs_obj_id_minus_eq [of a b]
    by (auto simp: nkfs_obj_id_dist_def nkfs_obj_id_cmp_eq sgn_if)
qed

lemma hex_of_length: "length (hex_of src) = 2 * length src"
  by (induction src) auto

lemma hex_of_no_nul: "0 \<notin> set (hex_of src)"
proof -
  have "char_to_hex (drop_bit 4 c) \<noteq> 0" "char_to_hex (c AND 15) \<noteq> 0" for c
    using hex_to_char_char_to_hex [of "drop_bit 4 c"] hex_to_char_char_to_hex [of "c AND 15"]
      uint_bounded [of c]
    by (auto simp: uint_high_nibble uint_low_nibble)
  then show ?thesis
    by (induction src) (force simp: signed_drop_bit_nibble)+
qed

lemma bytes_hex_eq: "src \<noteq> [] \<Longrightarrow> bytes_hex True src = Some (hex_of src @ [0])"
  by (simp add: bytes_hex_def bytes_buf_hex_def)

lemma hex_bytes_hex_of: "src \<noteq> [] \<Longrightarrow> hex_bytes (hex_of src) (length src) = Inr src"
  by (simp only: hex_bytes_def hex_of_length hex_bytes_loop_bytes) simp

lemma take_strlen: "0 \<notin> set s \<Longrightarrow> take (crt_strlen (s @ [0])) (s @ [0]) = s"
  by (simp add: crt_strlen_def takeWhile_append)

text \<open>
  (C16) Hexadecimal text is a canonical form of bytes: whatever \<open>hex_bytes\<close>
  accepts is, digit for digit, what \<open>bytes_hex\<close> prints for the bytes it
  returns, and it returns exactly the requested number of bytes.
\<close>

theorem hex_bytes_canonical:
  assumes "hex_bytes hex dst_len = Inr bs"
  shows "bytes_hex True bs = Some (hex @ [0]) \<and> length bs = dst_len"
proof -
  have h: "hex_bytes_loop hex = Inr bs" "even (length hex)" "hex \<noteq> []" "dst_len = length hex div 2"
    using assms by (auto simp: hex_bytes_def split: if_splits)
  then have "hex_of bs = hex" "length hex = 2 * length bs"
    using hex_bytes_loop_canonical [OF h(1,2)] by auto
  then show ?thesis
    using h by (cases "bs = []") (auto simp: bytes_hex_eq)
qed

theorem hex_bytes_canonical_witness:
  "hex_bytes [100, 101, 48, 102] 2 = Inr [222, 15] \<and> bytes_hex True [222, 15] = Some [100, 101, 48, 102, 0]"
proof -
  have "hex_bytes [100, 101, 48, 102] 2 = Inr [222, 15]"
    by code_simp
  from hex_bytes_canonical [OF this] this show ?thesis
    by simp
qed

text \<open>
  (C17) Printing an object identifier and parsing the text gives the
  identifier back.
\<close>

theorem nkfs_obj_id_str_roundtrip:
  "Option.bind (nkfs_obj_id_str True oid) (nkfs_obj_id_by_str True) = Some oid"
proof -
  have len: "length (nkfs_obj_id_bytes oid) = 16"
    by (simp add: nkfs_obj_id_bytes_def)
  then have ne: "nkfs_obj_id_bytes oid \<noteq> []"
    by auto
  have "nkfs_obj_id_of_bytes (nkfs_obj_id_bytes oid) = oid"
    by (simp add: nkfs_obj_id_of_bytes_def nkfs_obj_id_bytes_def)
  then show ?thesis
    using hex_bytes_hex_of [OF ne] len take_strlen [OF hex_of_no_nul, of "nkfs_obj_id_bytes oid"]
    by (simp add: nkfs_obj_id_str_def nkfs_obj_id_by_str_def bytes_hex_eq [OF ne])
qed

text \<open>
  (C18) Bounded random numbers: for a bound up to \<open>2^31\<close> the rejection loop
  returns as soon as one random word has low bits below the bound, and what it
  returns is below the bound.
\<close>

theorem rand_u32_up_returns_below:
  assumes "up \<noteq> 0" "up \<le> 2 ^ 31"
    and "r \<in> set rs" "ucast (rand_u64 r AND mask (log2_u32_loop up)) < up"
  shows "\<exists>v rs'. rand_u32_up up rs = Some (v, rs') \<and> v < up"
proof (cases "up AND (up - 1) = 0")
  case True
  then show ?thesis
    using assms by (cases rs) (auto simp: rand_u32_up_def and_pred_less)
next
  case False
  have le: "unat up \<le> 2 ^ 31"
    using assms(2) by (simp add: word_le_nat_alt)
  have "unat up \<noteq> 2 ^ 31"
  proof
    assume "unat up = 2 ^ 31"
    then have "up = 2 ^ 31"
      by (simp add: word_unat_eq_iff)
    then show False
      using False by simp
  qed
  then have l: "log2_u32_loop up < 32"
    using le log2_u32_loop_le [of up 31] by linarith
  then have u: "unat (log2_u32 up) = log2_u32_loop up"
    by (simp add: log2_u32_def unat_of_nat)
  then have lt: "\<not> 32 \<le> log2_u32 up"
    using l by (simp add: word_le_nat_alt)
  obtain v rs' where "rand_u32_up_loop up (mask (log2_u32_loop up)) rs = Some (v, rs')"
    using rand_u32_up_loop_returns [OF assms(3,4)] by blast
  then show ?thesis
    using assms(1) False lt u l rand_u32_up_loop_bound
    by (auto simp: rand_u32_up_def Let_def rand_mask)
qed

theorem rand_u32_up_returns_below_witness:
  "\<exists>v rs'. rand_u32_up 255 [Some 255, Some 7] = Some (v, rs') \<and> v < 255"
proof (rule rand_u32_up_returns_below)
  show "ucast (rand_u64 (Some 7) AND mask (log2_u32_loop 255)) < (255 :: u32)"
    by code_simp
qed (simp_all add: word_le_nat_alt)

end
