(* ===== verification/Nk8.thy ===== *)
theory Nk8
  imports Gf256 Crt_Util
begin

text \<open>
  The erasure code of \<open>src/crt/nk8.c\<close>: a block is split into \<open>n\<close>
  parts such that any \<open>k\<close> different ones give it back.  Part \<open>i\<close> holds
  the values of polynomials, whose coefficients are \<open>k\<close> consecutive bytes
  of the block, at the part's identifier; assembling inverts the Vandermonde
  matrix of the identifiers by Gauss elimination.  The lemmas follow the
  elimination column by column (\<open>fwd_inv\<close>, \<open>back_inv\<close>) and show that
  its missing row exchange (\<open>gf_swap\<close> has no effect) never matters here:
  a zero pivot would be a polynomial with more roots than its degree.
\<close>

section \<open>Definitions\<close>

type_synonym matrix = "u8 list list"

definition gf_mult_matrix :: "nk8_state \<Rightarrow> matrix \<Rightarrow> matrix \<Rightarrow> nat \<Rightarrow> matrix" where
  "gf_mult_matrix st m1 m2 sz =
     map (\<lambda>i. map (\<lambda>j. fold (\<lambda>k r. gf_mult st (m1 ! i ! k) (m2 ! k ! j) XOR r) [0..<sz] 0)
                [0..<sz]) [0..<sz]"

text \<open>\<open>gf_swap\<close> takes its arguments by value: the caller's state is what it was.\<close>

definition gf_swap :: "u8 \<Rightarrow> u8 \<Rightarrow> 's \<Rightarrow> 's" where
  "gf_swap a b s = s"

definition gf_identity :: "nat \<Rightarrow> matrix" where
  "gf_identity sz = map (\<lambda>i. map (\<lambda>j. if i \<noteq> j then 0 else 1) [0..<sz]) [0..<sz]"

definition gf_swap_rows :: "nat \<Rightarrow> nat \<Rightarrow> nat \<Rightarrow> matrix \<times> matrix \<Rightarrow> matrix \<times> matrix" where
  "gf_swap_rows sz i j s =
     fold (\<lambda>k (A, B). gf_swap (B ! i ! k) (B ! j ! k) (gf_swap (A ! i ! k) (A ! j ! k) (A, B))) [0..<sz] s"

definition gf_eliminate_row ::
  "nk8_state \<Rightarrow> nat \<Rightarrow> nat \<Rightarrow> nat \<Rightarrow> matrix \<times> matrix \<Rightarrow> matrix \<times> matrix" where
  "gf_eliminate_row st sz i k s =
     (let tmp = gf_div st (fst s ! k ! i) (fst s ! i ! i) in
      fold (\<lambda>m (A, B).
              (if m \<ge> i then A[k := (A ! k)[m := A ! k ! m XOR gf_mult st (A ! i ! m) tmp]] else A,
               B[k := (B ! k)[m := B ! k ! m XOR gf_mult st (B ! i ! m) tmp]]))
        [0..<sz] s)"

definition gf_forward_step ::
  "nk8_state \<Rightarrow> nat \<Rightarrow> nat \<Rightarrow> matrix \<times> matrix \<Rightarrow> int + matrix \<times> matrix" where
  "gf_forward_step st sz i s =
     (case find (\<lambda>j. fst s ! i ! j > 0) [i..<sz] of
        None \<Rightarrow> Inl (- EFAULT)
      | Some j \<Rightarrow>
          (let s = (if i \<noteq> j then gf_swap_rows sz i j s else s) in
           Inr (fold (gf_eliminate_row st sz i) [i + 1..<sz] s)))"

primrec gf_forward ::
  "nk8_state \<Rightarrow> nat \<Rightarrow> nat list \<Rightarrow> matrix \<times> matrix \<Rightarrow> int + matrix \<times> matrix" where
  "gf_forward st sz [] s = Inr s"
| "gf_forward st sz (i # is) s =
     (case gf_forward_step st sz i s of
        Inl e \<Rightarrow> Inl e
      | Inr s' \<Rightarrow> gf_forward st sz is s')"

definition gf_scale_row :: "nk8_state \<Rightarrow> nat \<Rightarrow> nat \<Rightarrow> matrix \<Rightarrow> matrix \<Rightarrow> matrix" where
  "gf_scale_row st sz i A B =
     fold (\<lambda>k B. B[i := (B ! i)[k := gf_div st (B ! i ! k) (A ! i ! i)]]) [0..<sz] B"

definition gf_back_row ::
  "nk8_state \<Rightarrow> nat \<Rightarrow> nat \<Rightarrow> nat \<Rightarrow> matrix \<times> matrix \<Rightarrow> matrix \<times> matrix" where
  "gf_back_row st sz i j s =
     (let (A, B) = s; tmp = gf_div st (A ! j ! i) (A ! i ! i) in
      (A[j := (A ! j)[i := 0]],
       fold (\<lambda>k B. B[j := (B ! j)[k := B ! j ! k XOR gf_mult st tmp (B ! i ! k)]]) [0..<sz] B))"

definition gf_back_step ::
  "nk8_state \<Rightarrow> nat \<Rightarrow> nat \<Rightarrow> matrix \<times> matrix \<Rightarrow> matrix \<times> matrix" where
  "gf_back_step st sz i s =
     (let (A, B) = fold (gf_back_row st sz i) (rev [0..<i]) s in (A, gf_scale_row st sz i A B))"

definition gf_inverse_matrix :: "nk8_state \<Rightarrow> matrix \<Rightarrow> nat \<Rightarrow> int + matrix" where
  "gf_inverse_matrix st mat sz =
     (case gf_forward st sz [0..<sz] (mat, gf_identity sz) of
        Inl e \<Rightarrow> Inl e
      | Inr s \<Rightarrow>
          (let (A, B) = fold (gf_back_step st sz) (rev [1..<sz]) s in
           Inr (gf_scale_row st sz 0 A B)))"

definition nk8_part_size :: "u32 \<Rightarrow> u32 \<Rightarrow> u32" where
  "nk8_part_size block_size k =
     block_size div k + (if block_size mod k \<noteq> 0 then 1 else 0)"

text \<open>The candidates are the values of the successive calls \<open>rand_u32_up(255)\<close>.\<close>

fun nk8_gen_part_ids :: "nat \<Rightarrow> u8 list \<Rightarrow> u32 list \<Rightarrow> u8 list option" where
  "nk8_gen_part_ids 0 ids rnd = Some ids"
| "nk8_gen_part_ids (Suc n) ids [] = None"
| "nk8_gen_part_ids (Suc n) ids (r # rnd) =
     (let cand = ucast (1 + r) in
      if cand \<in> set ids then nk8_gen_part_ids (Suc n) ids rnd
      else nk8_gen_part_ids n (ids @ [cand]) rnd)"

abbreviation (input) MAX_K :: nat where "MAX_K \<equiv> 254"
abbreviation (input) MAX_N :: nat where "MAX_N \<equiv> 255"
abbreviation (input) MIN_N :: nat where "MIN_N \<equiv> 2"
abbreviation (input) MIN_K :: nat where "MIN_K \<equiv> 2"


text \<open>The sizes \<open>part_size\<close> and \<open>tail_size\<close> as both directions compute them.\<close>

definition nk8_sizes :: "u32 \<Rightarrow> u32 \<Rightarrow> u32 \<times> u32" where
  "nk8_sizes block_size k =
     (let part_size = nk8_part_size block_size k in
      if part_size * k > block_size
      then (part_size - 1, block_size - (part_size - 1) * k)
      else (part_size, 0))"

definition nk8_inv_params :: "u32 \<Rightarrow> nat \<Rightarrow> nat \<Rightarrow> bool" where
  "nk8_inv_params block_size n k \<longleftrightarrow>
     n < MIN_N \<or> k < MIN_K \<or> block_size = 0 \<or> n < k \<or> n > MAX_N \<or> k > MAX_K"

definition nk8_svector :: "nk8_state \<Rightarrow> u8 \<Rightarrow> nat \<Rightarrow> u8 list" where
  "nk8_svector st i k = fold (\<lambda>j sv. sv @ [gf_mult st (sv ! (j - 1)) i]) [1..<k] [1]"

definition nk8_split_part ::
  "nk8_state \<Rightarrow> u8 list \<Rightarrow> nat \<Rightarrow> nat \<Rightarrow> nat \<Rightarrow> u8 list \<Rightarrow> u8 \<Rightarrow> u8 list" where
  "nk8_split_part st block k part_size tail_size tail i =
     (let svector = nk8_svector st i k in
      map (\<lambda>j. fold (\<lambda>m curr. curr XOR gf_mult st (svector ! m) (block ! (j * k + m))) [0..<k] 0)
        [0..<part_size]
      @ (if tail_size \<noteq> 0
         then [fold (\<lambda>m curr. curr XOR gf_mult st (svector ! m) (tail ! m)) [0..<k] 0]
         else []))"

definition nk8_split_block ::
  "nk8_state \<Rightarrow> bool \<Rightarrow> u32 list \<Rightarrow> u8 list \<Rightarrow> nat \<Rightarrow> nat \<Rightarrow> (int + u8 list list \<times> u8 list) option" where
  "nk8_split_block st mem rnd block n k =
     (let block_size = of_nat (length block) :: u32 in
      if nk8_inv_params block_size n k then Some (Inl (- EINVAL))
      else if \<not> inited st then Some (Inl (- EAGAIN))
      else if \<not> mem then Some (Inl (- ENOMEM))
      else let (part_size, tail_size) = nk8_sizes block_size (of_nat k);
               tail = drop (length block - unat tail_size) block @ replicate (k - unat tail_size) 0
           in do {
             ids \<leftarrow> nk8_gen_part_ids n [] rnd;
             Some (Inr (map (nk8_split_part st block k (unat part_size) (unat tail_size) tail) ids, ids))
           })"

fun nk8_select :: "u8 list \<Rightarrow> nat \<Rightarrow> nat list \<Rightarrow> nat list \<Rightarrow> nat list" where
  "nk8_select ids k [] sel = sel"
| "nk8_select ids k (i # is) sel =
     (let sel' = (if ids ! i \<in> set (take i ids) then sel else sel @ [i]) in
      if length sel' = k then sel' else nk8_select ids k is sel')"

definition nk8_ormatrix :: "nk8_state \<Rightarrow> u8 list \<Rightarrow> matrix" where
  "nk8_ormatrix st sids =
     (let k = length sids;
          M = replicate k 1 # sids # replicate (k - 2) (replicate k 0) in
      fold (\<lambda>i M. fold (\<lambda>m M. M[m := (M ! m)[i := gf_mult st (M ! (m - 1) ! i) (M ! 1 ! i)]]) [2..<k] M)
        [0..<k] M)"

definition nk8_decode_row :: "nk8_state \<Rightarrow> nat \<Rightarrow> matrix \<Rightarrow> u8 list \<Rightarrow> u8 list" where
  "nk8_decode_row st k inmatrix svector =
     map (\<lambda>m. fold (\<lambda>i curr. curr XOR gf_mult st (svector ! i) (inmatrix ! i ! m)) [0..<k] 0) [0..<k]"

definition nk8_assemble_block ::
  "nk8_state \<Rightarrow> bool \<Rightarrow> u8 list list \<Rightarrow> u8 list \<Rightarrow> nat \<Rightarrow> nat \<Rightarrow> u8 list \<Rightarrow> int + u8 list" where
  "nk8_assemble_block st mem parts ids n k block =
     (let block_size = of_nat (length block) :: u32 in
      if nk8_inv_params block_size n k then Inl (- EINVAL)
      else if \<not> inited st then Inl (- EAGAIN)
      else let (part_size, tail_size) = nk8_sizes block_size (of_nat k) in
      if \<not> mem then Inl (- ENOMEM)
      else let sel = nk8_select ids k [0..<n] [] in
      if length sel < k then Inl (- EINVAL)
      else let sparts = map (\<lambda>i. parts ! i) sel;
               ormatrix = nk8_ormatrix st (map (\<lambda>i. ids ! i) sel) in
      (case gf_inverse_matrix st ormatrix k of
         Inl e \<Rightarrow> Inl e
       | Inr inmatrix \<Rightarrow>
           let row = (\<lambda>j. nk8_decode_row st k inmatrix (map (\<lambda>p. p ! j) sparts));
               sblock = concat (map row [0..<unat part_size]);
               block1 = sblock @ drop (length sblock) block in
           if tail_size \<noteq> 0
           then Inr (take (length block - unat tail_size) block1
                     @ take (unat tail_size) (row (unat part_size)))
           else Inr block1))"

definition nk8_ready :: "nk8_state \<Rightarrow> nk8_state" where
  "nk8_ready st = (gf_init st)\<lparr>inited := True\<rparr>"

text \<open>Square matrices and the invariants of the elimination.\<close>

definition mat_wf :: "nat \<Rightarrow> matrix \<Rightarrow> bool" where
  "mat_wf n A \<longleftrightarrow> length A = n \<and> (\<forall>r<n. length (A ! r) = n)"

abbreviation ent :: "matrix \<Rightarrow> nat \<Rightarrow> nat \<Rightarrow> gf" where
  "ent A r c \<equiv> gf_of (A ! r ! c)"

definition fwd_inv :: "nat \<Rightarrow> (nat \<Rightarrow> gf) \<Rightarrow> nat \<Rightarrow> matrix \<times> matrix \<Rightarrow> bool" where
  "fwd_inv n x i s \<longleftrightarrow> (case s of (A, B) \<Rightarrow> mat_wf n A \<and> mat_wf n B
     \<and> (\<forall>r<n. \<forall>c<n. ent A r c = (\<Sum>l<n. ent B r l * x c ^ l))
     \<and> (\<forall>r<n. ent B r r = 1 \<and> (\<forall>l<n. r < l \<longrightarrow> ent B r l = 0))
     \<and> (\<forall>r<n. \<forall>c<r. c < i \<longrightarrow> ent A r c = 0))"

definition back_inv :: "nat \<Rightarrow> (nat \<Rightarrow> gf) \<Rightarrow> nat \<Rightarrow> matrix \<times> matrix \<Rightarrow> bool" where
  "back_inv n x i s \<longleftrightarrow> (case s of (A, B) \<Rightarrow> mat_wf n A \<and> mat_wf n B
     \<and> (\<forall>r<n. \<forall>c<n. (\<Sum>l<n. ent B r l * x c ^ l)
          = (if r < i then ent A r c else if r = c then 1 else 0))
     \<and> (\<forall>r<n. r < i \<longrightarrow> ent A r r \<noteq> 0 \<and> (\<forall>c<n. i \<le> c \<or> c < r \<longrightarrow> ent A r c = 0)))"

section \<open>Gauss elimination\<close>

lemma mat_wf_upd [simp]: "mat_wf n A \<Longrightarrow> mat_wf n (A[k := (A ! k)[m := v]])"
  by (cases "k < length A") (auto simp: mat_wf_def nth_list_update list_update_beyond)

lemma mat_upd_nth:
  "mat_wf n A \<Longrightarrow> k < n \<Longrightarrow> m < n \<Longrightarrow> A[k := (A ! k)[m := v]] ! r ! c = (if r = k \<and> c = m then v else A ! r ! c)"
  by (auto simp: mat_wf_def nth_list_update)

context gf_tables begin

lemma eliminate_row:
  assumes wf: "mat_wf n A" "mat_wf n B" and ik: "i < n" "k < n" "i \<noteq> k"
    and res: "gf_eliminate_row st n i k (A, B) = (A', B')"
  shows "mat_wf n A' \<and> mat_wf n B'
    \<and> (\<forall>r c. c < n \<longrightarrow> ent A' r c = (if r = k \<and> c \<ge> i then ent A k c + ent A i c * (ent A k i / ent A i i) else ent A r c))
    \<and> (\<forall>r c. c < n \<longrightarrow> ent B' r c = (if r = k then ent B k c + ent B i c * (ent A k i / ent A i i) else ent B r c))"
proof -
  let ?t = "gf_div st (A ! k ! i) (A ! i ! i)"
  let ?f = "\<lambda>m (A, B).
              (if m \<ge> i then A[k := (A ! k)[m := A ! k ! m XOR gf_mult st (A ! i ! m) ?t]] else A,
               B[k := (B ! k)[m := B ! k ! m XOR gf_mult st (B ! i ! m) ?t]])"
  let ?P = "\<lambda>m (A', B'). mat_wf n A' \<and> mat_wf n B'
    \<and> (\<forall>r c. A' ! r ! c = (if r = k \<and> c \<ge> i \<and> c < m then A ! k ! c XOR gf_mult st (A ! i ! c) ?t else A ! r ! c))
    \<and> (\<forall>r c. B' ! r ! c = (if r = k \<and> c < m then B ! k ! c XOR gf_mult st (B ! i ! c) ?t else B ! r ! c))"
  have "?P n (fold ?f [0..<n] (A, B))"
  proof (rule fold_upt_inv [where P = ?P])
    fix m s assume m: "0 \<le> m" "m < n" "?P m s"
    obtain A1 B1 where s: "s = (A1, B1)" by (cases s)
    show "?P (Suc m) (?f m s)"
      using m ik unfolding s by (auto simp: mat_upd_nth less_Suc_eq)
  qed (use wf in auto)
  then show ?thesis
    using res ik by (auto simp: gf_eliminate_row_def gf_of_plus [symmetric] mult_law div_law)
qed

lemma scale_row:
  assumes wf: "mat_wf n B" and i: "i < n"
  shows "mat_wf n (gf_scale_row st n i A B)
    \<and> (\<forall>r c. c < n \<longrightarrow> ent (gf_scale_row st n i A B) r c = (if r = i then ent B i c / ent A i i else ent B r c))"
proof -
  let ?P = "\<lambda>m B'. mat_wf n B'
    \<and> (\<forall>r c. B' ! r ! c = (if r = i \<and> c < m then gf_div st (B ! i ! c) (A ! i ! i) else B ! r ! c))"
  have "?P n (gf_scale_row st n i A B)"
    unfolding gf_scale_row_def
    by (rule fold_upt_inv [where P = ?P]) (use wf i in \<open>auto simp: mat_upd_nth less_Suc_eq\<close>)
  then show ?thesis
    by (auto simp: div_law)
qed

lemma back_row:
  assumes wf: "mat_wf n A" "mat_wf n B" and ij: "i < n" "j < n" "i \<noteq> j"
    and res: "gf_back_row st n i j (A, B) = (A', B')"
  shows "mat_wf n A' \<and> mat_wf n B'
    \<and> (\<forall>r c. c < n \<longrightarrow> ent A' r c = (if r = j \<and> c = i then 0 else ent A r c))
    \<and> (\<forall>r c. c < n \<longrightarrow> ent B' r c = (if r = j then ent B j c + (ent A j i / ent A i i) * ent B i c else ent B r c))"
proof -
  let ?t = "gf_div st (A ! j ! i) (A ! i ! i)"
  let ?P = "\<lambda>m B'. mat_wf n B'
    \<and> (\<forall>r c. B' ! r ! c = (if r = j \<and> c < m then B ! j ! c XOR gf_mult st ?t (B ! i ! c) else B ! r ! c))"
  have "?P n (fold (\<lambda>k B. B[j := (B ! j)[k := B ! j ! k XOR gf_mult st ?t (B ! i ! k)]]) [0..<n] B)"
    by (rule fold_upt_inv [where P = ?P]) (use wf ij in \<open>auto simp: mat_upd_nth less_Suc_eq\<close>)
  moreover have "A' = A[j := (A ! j)[i := 0]]"
    using res by (auto simp: gf_back_row_def Let_def)
  ultimately show ?thesis
    using res wf ij by (auto simp: gf_back_row_def Let_def mat_upd_nth gf_of_plus [symmetric] mult_law div_law)
qed

text \<open>One column of the forward elimination, for all the rows below it.\<close>

lemma eliminate_rows:
  assumes wf: "mat_wf n A" "mat_wf n B" and i: "i < n"
    and res: "fold (gf_eliminate_row st n i) [i + 1..<n] (A, B) = (A', B')"
  shows "mat_wf n A' \<and> mat_wf n B'
    \<and> (\<forall>r c. r < n \<longrightarrow> c < n \<longrightarrow> ent A' r c
         = (if i < r \<and> c \<ge> i then ent A r c + ent A i c * (ent A r i / ent A i i) else ent A r c))
    \<and> (\<forall>r c. r < n \<longrightarrow> c < n \<longrightarrow> ent B' r c
         = (if i < r then ent B r c + ent B i c * (ent A r i / ent A i i) else ent B r c))"
proof -
  let ?P = "\<lambda>k (A', B'). mat_wf n A' \<and> mat_wf n B'
    \<and> (\<forall>r c. c < n \<longrightarrow> ent A' r c
         = (if i < r \<and> r < k \<and> c \<ge> i then ent A r c + ent A i c * (ent A r i / ent A i i) else ent A r c))
    \<and> (\<forall>r c. c < n \<longrightarrow> ent B' r c
         = (if i < r \<and> r < k then ent B r c + ent B i c * (ent A r i / ent A i i) else ent B r c))"
  have "?P n (fold (gf_eliminate_row st n i) [i + 1..<n] (A, B))"
  proof (rule fold_upt_inv [where P = ?P])
    fix k s assume k: "i + 1 \<le> k" "k < n" "?P k s"
    obtain A1 B1 where s: "s = (A1, B1)" by (cases s)
    obtain A2 B2 where e: "gf_eliminate_row st n i k (A1, B1) = (A2, B2)"
      by (cases "gf_eliminate_row st n i k (A1, B1)")
    have "mat_wf n A1" "mat_wf n B1" "i \<noteq> k"
      using k by (auto simp: s)
    from eliminate_row [OF this(1,2) i k(2) this(3) e] k i
    show "?P (Suc k) (gf_eliminate_row st n i k s)"
      unfolding s e by (auto simp: less_Suc_eq)
  qed (use wf i in auto)
  then show ?thesis
    unfolding res by auto
qed

lemma back_rows:
  assumes wf: "mat_wf n A" "mat_wf n B" and i: "i < n"
    and res: "fold (gf_back_row st n i) (rev [0..<i]) (A, B) = (A', B')"
  shows "mat_wf n A' \<and> mat_wf n B'
    \<and> (\<forall>r c. c < n \<longrightarrow> ent A' r c = (if r < i \<and> c = i then 0 else ent A r c))
    \<and> (\<forall>r c. c < n \<longrightarrow> ent B' r c
         = (if r < i then ent B r c + (ent A r i / ent A i i) * ent B i c else ent B r c))"
proof -
  let ?P = "\<lambda>k (A', B'). mat_wf n A' \<and> mat_wf n B'
    \<and> (\<forall>r c. c < n \<longrightarrow> ent A' r c = (if k \<le> r \<and> r < i \<and> c = i then 0 else ent A r c))
    \<and> (\<forall>r c. c < n \<longrightarrow> ent B' r c
         = (if k \<le> r \<and> r < i then ent B r c + (ent A r i / ent A i i) * ent B i c else ent B r c))"
  have "?P 0 (fold (gf_back_row st n i) (rev [0..<i]) (A, B))"
  proof (rule fold_upt_rev_inv [where P = ?P])
    fix k s assume k: "0 \<le> k" "k < i" "?P (Suc k) s"
    obtain A1 B1 where s: "s = (A1, B1)" by (cases s)
    obtain A2 B2 where e: "gf_back_row st n i k (A1, B1) = (A2, B2)"
      by (cases "gf_back_row st n i k (A1, B1)")
    have "mat_wf n A1" "mat_wf n B1" "k < n" "i \<noteq> k"
      using k i by (auto simp: s)
    from back_row [OF this(1,2) i this(3,4) e] k i
    show "?P k (gf_back_row st n i k s)"
      unfolding s e by (auto simp: Suc_le_eq le_less)
  qed (use wf in auto)
  then show ?thesis
    unfolding res by auto
qed

end

text \<open>
  The state of the elimination on the Vandermonde matrix of the points
  \<open>x\<close>: \<open>A\<close> is \<open>B\<close> times that matrix, \<open>B\<close> is lower triangular
  with ones on the diagonal, and the first \<open>i\<close> columns of \<open>A\<close> are zero
  below the diagonal.
\<close>

lemma fwd_invI:
  assumes "mat_wf n A" "mat_wf n B"
    and "\<And>r c. r < n \<Longrightarrow> c < n \<Longrightarrow> ent A r c = (\<Sum>l<n. ent B r l * x c ^ l)"
    and "\<And>r. r < n \<Longrightarrow> ent B r r = 1 \<and> (\<forall>l<n. r < l \<longrightarrow> ent B r l = 0)"
    and "\<And>r c. r < n \<Longrightarrow> c < r \<Longrightarrow> c < i \<Longrightarrow> ent A r c = 0"
  shows "fwd_inv n x i (A, B)"
  using assms unfolding fwd_inv_def prod.case by blast

lemma fwd_inv_pivot:
  assumes inv: "fwd_inv n x i (A, B)" and i: "r \<le> i" "r < n" and inj: "inj_on x {..<n}"
  shows "ent A r r \<noteq> 0"
proof
  assume z: "ent A r r = 0"
  have sum: "(\<Sum>l\<le>r. ent B r l * x c ^ l) = ent A r c" if "c < n" for c
  proof -
    have "(\<Sum>l<n. ent B r l * x c ^ l) = (\<Sum>l\<le>r. ent B r l * x c ^ l)"
      by (rule sum.mono_neutral_right) (use i inv in \<open>auto simp: fwd_inv_def\<close>)
    then show ?thesis
      using inv i that by (simp add: fwd_inv_def)
  qed
  have "(\<Sum>l\<le>r. ent B r l * y ^ l) = 0" if "y \<in> x ` {..r}" for y
  proof -
    obtain c where c: "c \<le> r" "y = x c" using \<open>y \<in> x ` {..r}\<close> by auto
    then have "ent A r c = 0"
      using z inv i by (cases "c = r") (auto simp: fwd_inv_def)
    then show ?thesis
      using sum [of c] c i by simp
  qed
  moreover have "r < card (x ` {..r})"
    using inj_on_subset [OF inj, of "{..r}"] i by (subst card_image) (auto simp: subset_iff)
  ultimately have "ent B r r = 0"
    using poly_roots_zero [of "x ` {..r}" r "ent B r" r] by blast
  moreover have "ent B r r = 1"
    using inv i by (simp add: fwd_inv_def)
  ultimately show False
    using zero_neq_one [where 'a = gf] by metis
qed

context gf_tables begin

lemma forward_step:
  assumes inv: "fwd_inv n x i s" and i: "i < n" and inj: "inj_on x {..<n}"
  shows "\<exists>s'. gf_forward_step st n i s = Inr s' \<and> fwd_inv n x (Suc i) s'"
proof -
  obtain A B where s: "s = (A, B)" by (cases s)
  have piv: "ent A i i \<noteq> 0"
    using fwd_inv_pivot [OF inv [unfolded s] order_refl i inj] .
  then have f: "find (\<lambda>j. A ! i ! j > 0) [i..<n] = Some i"
    using i by (simp add: upt_conv_Cons word_gt_0)
  obtain A' B' where e: "fold (gf_eliminate_row st n i) [i + 1..<n] (A, B) = (A', B')"
    by (cases "fold (gf_eliminate_row st n i) [i + 1..<n] (A, B)")
  have wf: "mat_wf n A" "mat_wf n B"
    and prod: "\<And>r c. r < n \<Longrightarrow> c < n \<Longrightarrow> ent A r c = (\<Sum>l<n. ent B r l * x c ^ l)"
    and tri: "\<And>r. r < n \<Longrightarrow> ent B r r = 1" "\<And>r l. r < n \<Longrightarrow> l < n \<Longrightarrow> r < l \<Longrightarrow> ent B r l = 0"
    and zero: "\<And>r c. r < n \<Longrightarrow> c < r \<Longrightarrow> c < i \<Longrightarrow> ent A r c = 0"
    using inv by (auto simp: s fwd_inv_def)
  note r = eliminate_rows [OF wf i e]
  have A': "ent A' r c = (if i < r then ent A r c + ent A i c * (ent A r i / ent A i i) else ent A r c)"
    if "r < n" "c < n" for r c
    using r that zero [OF i, of c] by auto
  have B': "ent B' r c = (if i < r then ent B r c + ent B i c * (ent A r i / ent A i i) else ent B r c)"
    if "r < n" "c < n" for r c
    using r that by auto
  have P: "ent A' r c = (\<Sum>l<n. ent B' r l * x c ^ l)" if rc: "r < n" "c < n" for r c
  proof (cases "i < r")
    case True
    let ?t = "ent A r i / ent A i i"
    have "(\<Sum>l<n. ent B' r l * x c ^ l) = (\<Sum>l<n. ent B r l * x c ^ l + (ent B i l * x c ^ l) * ?t)"
      by (rule sum.cong) (use B' rc True in \<open>auto simp: algebra_simps\<close>)
    also have "\<dots> = (\<Sum>l<n. ent B r l * x c ^ l) + (\<Sum>l<n. ent B i l * x c ^ l) * ?t"
      by (simp only: sum.distrib sum_distrib_right)
    also have "\<dots> = ent A r c + ent A i c * ?t"
      by (simp only: prod [OF rc, symmetric] prod [OF i rc(2), symmetric])
    finally show ?thesis
      using A' rc True by simp
  next
    case False
    then show ?thesis
      using A' B' rc prod by simp
  qed
  have T: "ent B' r r = 1 \<and> (\<forall>l<n. r < l \<longrightarrow> ent B' r l = 0)" if "r < n" for r
    using that B' tri i by auto
  have Z: "ent A' r c = 0" if "r < n" "c < r" "c < Suc i" for r c
  proof (cases "c = i")
    case True
    then show ?thesis
      using A' that piv by (simp add: gf_double)
  next
    case False
    then show ?thesis
      using A' that zero [of r c] zero [of i c] i by simp
  qed
  have "mat_wf n A'" "mat_wf n B'"
    using r by blast+
  then have "fwd_inv n x (Suc i) (A', B')"
    using P T Z by (rule fwd_invI)
  then show ?thesis
    using f e by (simp add: gf_forward_step_def s)
qed

lemma forward:
  assumes "fwd_inv n x i s" "i \<le> n" "inj_on x {..<n}"
  shows "\<exists>s'. gf_forward st n [i..<n] s = Inr s' \<and> fwd_inv n x n s'"
  using assms
proof (induction "n - i" arbitrary: i s)
  case (Suc d)
  then have i: "i < n" by simp
  obtain s1 where "gf_forward_step st n i s = Inr s1" "fwd_inv n x (Suc i) s1"
    using forward_step [OF Suc.prems(1) i Suc.prems(3)] by blast
  then show ?case
    using Suc.hyps(1) [of "Suc i" s1] Suc.hyps(2) Suc.prems i by (simp add: upt_conv_Cons)
qed auto

end

text \<open>
  The back substitution: rows from \<open>i\<close> on of \<open>B\<close> are rows of the inverse,
  the rows above still multiply to the rows of \<open>A\<close>, which is triangular and
  has been cleared from column \<open>i\<close> on.
\<close>

lemma back_invI:
  assumes "mat_wf n A" "mat_wf n B"
    and "\<And>r c. r < n \<Longrightarrow> c < n \<Longrightarrow> (\<Sum>l<n. ent B r l * x c ^ l)
          = (if r < i then ent A r c else if r = c then 1 else 0)"
    and "\<And>r. r < n \<Longrightarrow> r < i \<Longrightarrow> ent A r r \<noteq> 0"
    and "\<And>r c. r < n \<Longrightarrow> r < i \<Longrightarrow> c < n \<Longrightarrow> i \<le> c \<or> c < r \<Longrightarrow> ent A r c = 0"
  shows "back_inv n x i (A, B)"
  using assms unfolding back_inv_def prod.case by blast

lemma back_invD:
  assumes "back_inv n x i (A, B)"
  shows "mat_wf n A" "mat_wf n B"
    and "\<And>r c. r < n \<Longrightarrow> c < n \<Longrightarrow> (\<Sum>l<n. ent B r l * x c ^ l)
          = (if r < i then ent A r c else if r = c then 1 else 0)"
    and "\<And>r. r < n \<Longrightarrow> r < i \<Longrightarrow> ent A r r \<noteq> 0"
    and "\<And>r c. r < n \<Longrightarrow> r < i \<Longrightarrow> c < n \<Longrightarrow> i \<le> c \<or> c < r \<Longrightarrow> ent A r c = 0"
  using assms unfolding back_inv_def prod.case by blast+

lemma fwd_inv_back_inv:
  assumes inv: "fwd_inv n x n s" and inj: "inj_on x {..<n}"
  shows "back_inv n x n s"
proof -
  obtain A B where s: "s = (A, B)" by (cases s)
  have "ent A r r \<noteq> 0" if "r < n" for r
    using fwd_inv_pivot [OF inv [unfolded s] _ that inj] that by simp
  moreover have "(\<Sum>l<n. ent B r l * x c ^ l) = ent A r c" if "r < n" "c < n" for r c
    using inv that by (simp add: s fwd_inv_def)
  moreover have "ent A r c = 0" if "r < n" "c < r" for r c
    using inv that by (simp add: s fwd_inv_def)
  moreover have "mat_wf n A" "mat_wf n B"
    using inv by (simp_all add: s fwd_inv_def)
  ultimately show ?thesis
    by (simp add: back_inv_def s)
qed

lemma back_inv_off:
  assumes "back_inv n x (Suc i) (A, B)" "i < n" "c < n" "c \<noteq> i"
  shows "ent A i c = 0"
  using assms by (cases c i rule: linorder_cases) (auto simp: back_inv_def)

context gf_tables begin

lemma scale_row_inv:
  assumes inv: "back_inv n x (Suc i) (A, B)" and i: "i < n"
    and clear: "\<And>r. r < i \<Longrightarrow> ent A r i = 0"
  shows "back_inv n x i (A, gf_scale_row st n i A B)"
proof (rule back_invI)
  let ?B = "gf_scale_row st n i A B"
  note D = back_invD [OF inv]
  note s = scale_row [OF D(2) i, of A]
  show "mat_wf n A" "mat_wf n ?B"
    using D(1) s by blast+
  show "(\<Sum>l<n. ent ?B r l * x c ^ l) = (if r < i then ent A r c else if r = c then 1 else 0)"
    if rc: "r < n" "c < n" for r c
  proof (cases "r = i")
    case True
    have "(\<Sum>l<n. ent ?B i l * x c ^ l) = (\<Sum>l<n. (ent B i l * x c ^ l) / ent A i i)"
      by (rule sum.cong) (use s in auto)
    also have "\<dots> = ent A i c / ent A i i"
      using D(3) [OF i rc(2)] by (simp only: sum_divide_distrib [symmetric]) simp
    also have "\<dots> = (if i = c then 1 else 0)"
      using D(4) [OF i] back_inv_off [OF inv i rc(2)] by auto
    finally show ?thesis
      using True by simp
  next
    case False
    have "(\<Sum>l<n. ent ?B r l * x c ^ l) = (\<Sum>l<n. ent B r l * x c ^ l)"
      by (rule sum.cong) (use s False in auto)
    then show ?thesis
      using D(3) [OF rc] False by simp
  qed
  show "ent A r r \<noteq> 0" if "r < n" "r < i" for r
    using D(4) that by simp
  show "ent A r c = 0" if "r < n" "r < i" "c < n" "i \<le> c \<or> c < r" for r c
    using that D(5) [of r c] clear [of r] by (cases "c = i") auto
qed

lemma back_rows_inv:
  assumes inv: "back_inv n x (Suc i) (A, B)" and i: "i < n"
    and e: "fold (gf_back_row st n i) (rev [0..<i]) (A, B) = (A', B')"
  shows "back_inv n x (Suc i) (A', B')"
proof (rule back_invI)
  note D = back_invD [OF inv]
  note b = back_rows [OF D(1,2) i e]
  show "mat_wf n A'" "mat_wf n B'"
    using b by blast+
  have A': "ent A' r c = (if r < i \<and> c = i then 0 else ent A r c)" if "c < n" for r c
    using b that by blast
  have B': "ent B' r c = (if r < i then ent B r c + (ent A r i / ent A i i) * ent B i c else ent B r c)"
    if "c < n" for r c
    using b that by blast
  show "(\<Sum>l<n. ent B' r l * x c ^ l) = (if r < Suc i then ent A' r c else if r = c then 1 else 0)"
    if rc: "r < n" "c < n" for r c
  proof (cases "r < i")
    case True
    let ?t = "ent A r i / ent A i i"
    have "(\<Sum>l<n. ent B' r l * x c ^ l) = (\<Sum>l<n. ent B r l * x c ^ l + ?t * (ent B i l * x c ^ l))"
      by (rule sum.cong) (use B' True in \<open>auto simp: algebra_simps\<close>)
    also have "\<dots> = ent A r c + ?t * ent A i c"
      using D(3) [OF rc] D(3) [OF i rc(2)] True
      by (simp only: sum.distrib sum_distrib_left [symmetric]) simp
    also have "\<dots> = ent A' r c"
      using A' [OF rc(2)] True D(4) [OF i] back_inv_off [OF inv i rc(2)] by (auto simp: gf_double)
    finally show ?thesis
      using True by simp
  next
    case False
    have "(\<Sum>l<n. ent B' r l * x c ^ l) = (\<Sum>l<n. ent B r l * x c ^ l)"
      by (rule sum.cong) (use B' False in auto)
    then show ?thesis
      using D(3) [OF rc] A' [OF rc(2)] False by simp
  qed
  show "ent A' r r \<noteq> 0" if "r < n" "r < Suc i" for r
    using D(4) [OF that] A' [OF that(1)] by auto
  show "ent A' r c = 0" if "r < n" "r < Suc i" "c < n" "Suc i \<le> c \<or> c < r" for r c
    using D(5) [OF that] A' [OF that(3)] by auto
qed

lemma back_step:
  assumes inv: "back_inv n x (Suc i) s" and i: "i < n"
  shows "back_inv n x i (gf_back_step st n i s)"
proof -
  obtain A B where s: "s = (A, B)" by (cases s)
  obtain A' B' where e: "fold (gf_back_row st n i) (rev [0..<i]) (A, B) = (A', B')"
    by (cases "fold (gf_back_row st n i) (rev [0..<i]) (A, B)")
  have "ent A' r i = 0" if "r < i" for r
    using back_rows [OF back_invD(1,2) [OF inv [unfolded s]] i e] that i by auto
  then have "back_inv n x i (A', gf_scale_row st n i A' B')"
    using back_rows_inv [OF inv [unfolded s] i e] i by (intro scale_row_inv)
  then show ?thesis
    by (simp add: gf_back_step_def s e)
qed

lemma inverse_matrix:
  assumes n: "0 < n" and wf: "mat_wf n M" and inj: "inj_on x {..<n}"
    and M: "\<And>r c. r < n \<Longrightarrow> c < n \<Longrightarrow> ent M r c = x c ^ r"
  shows "\<exists>B. gf_inverse_matrix st M n = Inr B \<and> mat_wf n B
    \<and> (\<forall>r<n. \<forall>c<n. (\<Sum>l<n. ent B r l * x c ^ l) = (if r = c then 1 else 0))"
proof -
  have id: "gf_identity n ! r ! c = (if r \<noteq> c then 0 else 1)" if "r < n" "c < n" for r c
    using that by (simp add: gf_identity_def)
  have "mat_wf n (gf_identity n)"
    by (simp add: mat_wf_def gf_identity_def)
  moreover have "(\<Sum>l<n. ent (gf_identity n) r l * x c ^ l) = x c ^ r" if "r < n" "c < n" for r c
  proof -
    have "(\<Sum>l<n. ent (gf_identity n) r l * x c ^ l) = (\<Sum>l<n. if l = r then x c ^ l else 0)"
      by (rule sum.cong) (use id that in auto)
    then show ?thesis
      using that by simp
  qed
  ultimately have "fwd_inv n x 0 (M, gf_identity n)"
    using wf M id by (auto simp: fwd_inv_def)
  then obtain s where f: "gf_forward st n [0..<n] (M, gf_identity n) = Inr s" "fwd_inv n x n s"
    using forward [OF _ _ inj] by blast
  let ?s = "fold (gf_back_step st n) (rev [1..<n]) s"
  have "back_inv n x 1 ?s"
    by (rule fold_upt_rev_inv [where P = "back_inv n x"])
      (use n f fwd_inv_back_inv [OF _ inj] back_step in auto)
  then have "back_inv n x 0 (fst ?s, gf_scale_row st n 0 (fst ?s) (snd ?s))"
    using n by (intro scale_row_inv) auto
  from back_invD [OF this] f show ?thesis
    by (simp add: gf_inverse_matrix_def case_prod_beta)
qed

end

section \<open>Splitting and assembling\<close>

lemma nk8_sizes_cases:
  assumes k: "2 \<le> k" "k \<le> 254" and L: "0 < L" "L + 256 \<le> 2 ^ 31"
    and s: "nk8_sizes (of_nat L) (of_nat k) = (ps, ts)"
  shows "(unat ts = 0 \<and> unat ps * k = L) \<or> (0 < unat ts \<and> unat ts < k \<and> unat ps * k + unat ts = L)"
proof -
  have uL: "unat (of_nat L :: u32) = L" and uk: "unat (of_nat k :: u32) = k"
    using k L by (simp_all add: unat_of_nat)
  have lk: "L div k * k + L mod k = L" "L mod k < k" "L div k * k \<le> L"
    using k by simp_all
  have ld: "L div k < 2 ^ 31"
    using L div_le_dividend [of L k] by linarith
  have ldk: "L div k * k < 2 ^ 32"
    by (rule order_le_less_trans [OF lk(3)]) (use L in simp)
  have uq: "unat (of_nat L div of_nat k :: u32) = L div k"
    and ur: "unat (of_nat L mod of_nat k :: u32) = L mod k"
    by (simp_all add: unat_div unat_mod uL uk)
  show ?thesis
  proof (cases "L mod k = 0")
    case True
    then have p: "nk8_part_size (of_nat L) (of_nat k) = of_nat L div of_nat k"
      using ur by (auto simp: nk8_part_size_def unat_eq_0)
    have "unat (of_nat L div of_nat k * of_nat k :: u32) = L"
      using True lk L by (subst unat_mult_lem [THEN iffD1]) (simp_all add: uq uk)
    then show ?thesis
      using s p True lk uL uq by (auto simp: nk8_sizes_def Let_def word_less_nat_alt)
  next
    case False
    then have r: "(of_nat L mod of_nat k :: u32) \<noteq> 0"
      using ur by (metis unat_0)
    have p: "nk8_part_size (of_nat L) (of_nat k) = of_nat L div of_nat k + 1"
      using r by (simp add: nk8_part_size_def)
    have le: "(L div k + 1) * k \<le> L + 254"
      using lk k by (simp only: distrib_right)
    have up: "unat (of_nat L div of_nat k + 1 :: u32) = L div k + 1"
      using ld by (subst unat_add_lem [THEN iffD1]) (simp_all add: uq)
    have upk: "unat ((of_nat L div of_nat k + 1) * of_nat k :: u32) = (L div k + 1) * k"
      using le L by (subst unat_mult_lem [THEN iffD1]) (simp_all add: up uk)
    have g: "L < (L div k + 1) * k"
      using lk unfolding distrib_right mult_1_left by linarith
    have t: "unat (of_nat L - of_nat L div of_nat k * of_nat k :: u32) = L mod k"
    proof -
      have m: "unat (of_nat L div of_nat k * of_nat k :: u32) = L div k * k"
        using ldk by (subst unat_mult_lem [THEN iffD1]) (simp_all add: uq uk)
      have "unat (of_nat L - of_nat L div of_nat k * of_nat k :: u32) = L - L div k * k"
        using lk by (subst unat_sub) (simp_all add: word_le_nat_alt m uL)
      then show ?thesis by (simp only: minus_div_mult_eq_mod)
    qed
    show ?thesis
      using s p g False lk uL uq upk t by (auto simp: nk8_sizes_def Let_def word_less_nat_alt)
  qed
qed

lemma gen_part_ids:
  assumes "nk8_gen_part_ids n ids0 rnd = Some ids" "distinct ids0"
  shows "distinct ids \<and> length ids = length ids0 + n"
  using assms
  by (induction n ids0 rnd rule: nk8_gen_part_ids.induct) (auto simp: Let_def split: if_splits)

text \<open>The first occurrences of the identifiers, up to \<open>k\<close> of them.\<close>

lemma select_aux:
  assumes "i \<le> n" "n \<le> length ids" "length sel < k" "\<forall>j\<in>set sel. j < i"
    and "distinct (map ((!) ids) sel)" "set (map ((!) ids) sel) = set (take i ids)"
    and "k \<le> card (set (take n ids))"
  shows "length (nk8_select ids k [i..<n] sel) = k
    \<and> (\<forall>j\<in>set (nk8_select ids k [i..<n] sel). j < n)
    \<and> distinct (map ((!) ids) (nk8_select ids k [i..<n] sel))"
  using assms
proof (induction "n - i" arbitrary: i sel)
  case 0
  then have "length sel = card (set (take n ids))"
    using distinct_card [of "map ((!) ids) sel"] by simp
  then show ?case using 0 by simp
next
  case (Suc d)
  then have i: "i < n" by simp
  let ?sel = "if ids ! i \<in> set (take i ids) then sel else sel @ [i]"
  have tk: "set (take (Suc i) ids) = insert (ids ! i) (set (take i ids))"
    using i Suc.prems by (simp add: take_Suc_conv_app_nth)
  have inv: "\<forall>j\<in>set ?sel. j < Suc i" "distinct (map ((!) ids) ?sel)"
    "set (map ((!) ids) ?sel) = set (take (Suc i) ids)"
    using Suc.prems tk by (auto simp: less_Suc_eq)
  have len: "length ?sel \<le> k"
    using Suc.prems by simp
  show ?case
  proof (cases "length ?sel = k")
    case True
    then have "nk8_select ids k [i..<n] sel = ?sel"
      using i by (simp add: upt_conv_Cons Let_def)
    moreover have "\<forall>j\<in>set ?sel. j < n"
      using inv(1) i by (meson Suc_leI less_le_trans)
    ultimately show ?thesis
      using True inv(2) by simp
  next
    case False
    then have "nk8_select ids k [i..<n] sel = nk8_select ids k [Suc i..<n] ?sel"
      using i by (simp add: upt_conv_Cons Let_def)
    moreover have "d = n - Suc i" "Suc i \<le> n" "length ?sel < k"
      using Suc.hyps(2) i False len by simp_all
    ultimately show ?thesis
      using Suc.hyps(1) [of "Suc i" ?sel] Suc.prems inv by simp
  qed
qed

lemma select_few:
  assumes "card (set (take n ids)) < k" "n \<le> length ids" "i \<le> n"
    and "distinct (map ((!) ids) sel)" "set (map ((!) ids) sel) = set (take i ids)"
  shows "length (nk8_select ids k [i..<n] sel) < k"
  using assms
proof (induction "n - i" arbitrary: i sel)
  case 0
  then have "length sel = card (set (take n ids))"
    using distinct_card [of "map ((!) ids) sel"] by simp
  then show ?case using 0 by simp
next
  case (Suc d)
  then have i: "i < n" by simp
  let ?sel = "if ids ! i \<in> set (take i ids) then sel else sel @ [i]"
  have tk: "set (take (Suc i) ids) = insert (ids ! i) (set (take i ids))"
    using i Suc.prems by (simp add: take_Suc_conv_app_nth)
  have inv: "distinct (map ((!) ids) ?sel)" "set (map ((!) ids) ?sel) = set (take (Suc i) ids)"
    using Suc.prems tk by auto
  have "length ?sel = card (set (take (Suc i) ids))"
    using distinct_card [OF inv(1)] inv(2) by (metis length_map)
  also have "\<dots> \<le> card (set (take n ids))"
    using i by (intro card_mono set_take_subset_set_take) auto
  finally have "length ?sel < k"
    using Suc.prems(1) by simp
  then have "nk8_select ids k [i..<n] sel = nk8_select ids k [Suc i..<n] ?sel"
    using i by (simp add: upt_conv_Cons Let_def)
  then show ?case
    using Suc.hyps(1) [of "Suc i" ?sel] Suc.hyps(2) Suc.prems i inv by simp
qed

context gf_tables begin

lemma svector:
  assumes "0 < k"
  shows "length (nk8_svector st i k) = k \<and> (\<forall>m<k. gf_of (nk8_svector st i k ! m) = gf_of i ^ m)"
proof -
  let ?P = "\<lambda>j sv. length sv = j \<and> (\<forall>m<j. gf_of (sv ! m) = gf_of i ^ m)"
  have "?P k (nk8_svector st i k)"
    unfolding nk8_svector_def
  proof (rule fold_upt_inv [where P = ?P])
    fix j sv assume j: "1 \<le> j" "j < k" "?P j sv"
    then obtain j' where "j = Suc j'" by (cases j) auto
    then show "?P (Suc j) (sv @ [gf_mult st (sv ! (j - 1)) i])"
      using j by (auto simp: nth_append less_Suc_eq mult_law mult.commute)
  qed (use assms in auto)
  then show ?thesis by blast
qed

lemma ormatrix:
  assumes k: "2 \<le> length sids"
  shows "mat_wf (length sids) (nk8_ormatrix st sids)
    \<and> (\<forall>r<length sids. \<forall>c<length sids. ent (nk8_ormatrix st sids) r c = gf_of (sids ! c) ^ r)"
proof -
  let ?k = "length sids"
  let ?M = "replicate ?k 1 # sids # replicate (?k - 2) (replicate ?k 0)"
  let ?P = "\<lambda>i M. mat_wf ?k M \<and> M ! 0 = replicate ?k 1 \<and> M ! 1 = sids
    \<and> (\<forall>r<?k. \<forall>c<i. ent M r c = gf_of (sids ! c) ^ r)"
  have k1: "?k = Suc (Suc (?k - 2))" using k by simp
  have wf: "mat_wf ?k ?M"
    using k by (auto simp: mat_wf_def nth_Cons split: nat.splits)
  have "?P ?k (nk8_ormatrix st sids)"
    unfolding nk8_ormatrix_def Let_def
  proof (rule fold_upt_inv [where P = ?P])
    fix i M assume i: "0 \<le> i" "i < ?k" "?P i M"
    let ?Q = "\<lambda>m M'. mat_wf ?k M' \<and> M' ! 0 = replicate ?k 1 \<and> M' ! 1 = sids
      \<and> (\<forall>r<?k. \<forall>c<i. ent M' r c = gf_of (sids ! c) ^ r)
      \<and> (\<forall>r<m. ent M' r i = gf_of (sids ! i) ^ r)"
    have "?Q ?k (fold (\<lambda>m M. M[m := (M ! m)[i := gf_mult st (M ! (m - 1) ! i) (M ! 1 ! i)]]) [2..<?k] M)"
    proof (rule fold_upt_inv [where P = ?Q])
      show "?Q 2 M"
        using i by (auto simp: numeral_2_eq_2 less_Suc_eq)
      fix m M' assume m: "2 \<le> m" "m < ?k" "?Q m M'"
      then obtain m' where m': "m = Suc m'" by (cases m) auto
      let ?v = "gf_mult st (M' ! (m - 1) ! i) (M' ! 1 ! i)"
      let ?N = "M'[m := (M' ! m)[i := ?v]]"
      have wf': "mat_wf ?k M'" and M1: "M' ! 1 = sids"
        and pw: "\<And>r. r < m \<Longrightarrow> ent M' r i = gf_of (sids ! i) ^ r"
        and old: "\<And>r c. r < ?k \<Longrightarrow> c < i \<Longrightarrow> ent M' r c = gf_of (sids ! c) ^ r"
        using m(3) by blast+
      have N: "?N ! r ! c = (if r = m \<and> c = i then ?v else M' ! r ! c)" for r c
        using mat_upd_nth [OF wf' m(2) i(2)] by blast
      have v: "gf_of ?v = gf_of (sids ! i) ^ m"
        using pw [of m'] m' by (simp add: mult_law M1 [unfolded One_nat_def] mult.commute)
      have "ent ?N r c = gf_of (sids ! c) ^ r" if "r < ?k" "c < i" for r c
        using old [OF that] that N by simp
      moreover have "ent ?N r i = gf_of (sids ! i) ^ r" if "r < Suc m" for r
        using pw [of r] that v unfolding N by (auto simp: less_Suc_eq)
      moreover have "mat_wf ?k ?N"
        using wf' by (rule mat_wf_upd)
      moreover have "?N ! 0 = replicate ?k 1" "?N ! 1 = sids"
        using m(1,3) by simp_all
      ultimately show "?Q (Suc m) ?N"
        by blast
    qed (use k in simp)
    then show "?P (Suc i) (fold (\<lambda>m M. M[m := (M ! m)[i := gf_mult st (M ! (m - 1) ! i) (M ! 1 ! i)]]) [2..<?k] M)"
      by (auto simp: less_Suc_eq)
  qed (use k wf in auto)
  then show ?thesis by blast
qed

end

context gf_tables begin

lemma decode_row:
  assumes k: "length sids = k" "2 \<le> k" "distinct sids"
    and inv: "gf_inverse_matrix st (nk8_ormatrix st sids) k = Inr B"
    and d: "length d = k"
    and sv: "\<And>i. i < k \<Longrightarrow> gf_of (sv ! i) = (\<Sum>m<k. gf_of (sids ! i) ^ m * gf_of (d ! m))"
  shows "nk8_decode_row st k B sv = d"
proof -
  let ?x = "\<lambda>c. gf_of (sids ! c)"
  let ?out = "\<lambda>m. gf_of (nk8_decode_row st k B sv ! m)"
  have inj: "inj_on ?x {..<k}"
    using k by (auto simp: inj_on_def nth_eq_iff_index_eq)
  obtain B' where "gf_inverse_matrix st (nk8_ormatrix st sids) k = Inr B'"
    "\<forall>r<k. \<forall>c<k. (\<Sum>l<k. ent B' r l * ?x c ^ l) = (if r = c then 1 else 0)"
    using inverse_matrix [of k "nk8_ormatrix st sids" ?x] ormatrix [of sids] k inj by auto
  then have B: "(\<Sum>l<k. ent B r l * ?x c ^ l) = (if r = c then 1 else 0)" if "r < k" "c < k" for r c
    using inv that by simp
  have out: "?out m = (\<Sum>i<k. gf_of (sv ! i) * ent B i m)" if "m < k" for m
    using that by (simp add: nk8_decode_row_def dot_product)
  have eq: "(\<Sum>m<k. ?out m * ?x c ^ m) = (\<Sum>m<k. gf_of (d ! m) * ?x c ^ m)" if c: "c < k" for c
  proof -
    have "(\<Sum>m<k. ?out m * ?x c ^ m) = (\<Sum>m<k. \<Sum>i<k. gf_of (sv ! i) * (ent B i m * ?x c ^ m))"
      by (rule sum.cong) (auto simp: out sum_distrib_right mult.assoc)
    also have "\<dots> = (\<Sum>i<k. gf_of (sv ! i) * (\<Sum>m<k. ent B i m * ?x c ^ m))"
      by (subst sum.swap) (simp only: sum_distrib_left)
    also have "\<dots> = (\<Sum>i<k. if i = c then gf_of (sv ! i) else 0)"
      by (rule sum.cong) (use B c in auto)
    also have "\<dots> = gf_of (sv ! c)"
      using c by simp
    finally show ?thesis
      using sv [OF c] by (simp add: mult.commute)
  qed
  obtain k' where k': "k = Suc k'" using k by (cases k) auto
  have "?out m - gf_of (d ! m) = 0" if "m < k" for m
  proof (rule poly_roots_zero [where R = "?x ` {..<k}" and n = k' and c = "\<lambda>m. ?out m - gf_of (d ! m)"])
    show "k' < card (?x ` {..<k})"
      using card_image [OF inj] k' by simp
    show "(\<Sum>i\<le>k'. (?out i - gf_of (d ! i)) * y ^ i) = 0" if "y \<in> ?x ` {..<k}" for y
      using that eq
      by (auto simp: k' lessThan_Suc_atMost [symmetric] left_diff_distrib sum_subtractf
          simp del: sum.lessThan_Suc)
  qed (use that k' in auto)
  then show ?thesis
    using d by (intro nth_equalityI) (auto simp: nk8_decode_row_def)
qed

lemma split_part_nth:
  assumes "0 < k" "j < P"
  shows "gf_of (nk8_split_part st block k P T tail i ! j)
       = (\<Sum>m<k. gf_of i ^ m * gf_of (block ! (j * k + m)))"
  using assms svector [of k i] by (simp add: nk8_split_part_def nth_append dot_product Let_def)

lemma split_part_tail:
  assumes "0 < k" "T \<noteq> 0"
  shows "gf_of (nk8_split_part st block k P T tail i ! P) = (\<Sum>m<k. gf_of i ^ m * gf_of (tail ! m))"
  using assms svector [of k i] by (simp add: nk8_split_part_def nth_append dot_product Let_def)

lemma assemble_split:
  assumes ini: "inited st" and L: "length block + 256 \<le> 2 ^ 31"
    and split: "nk8_split_block st True rnd block n k = Some (Inr (parts, ids))"
    and sel: "set sel \<subseteq> {..<n}" "k \<le> card (set sel)" "length sel \<le> 255"
    and buf: "length buf = length block"
  shows "nk8_assemble_block st True (map ((!) parts) sel) (map ((!) ids) sel) (length sel) k buf = Inr block"
proof -
  let ?bs = "of_nat (length block) :: u32"
  have inv: "\<not> nk8_inv_params ?bs n k"
    using split by (auto simp: nk8_split_block_def Let_def split: if_splits)
  then have k: "2 \<le> k" "k \<le> 254" "n \<le> 255" and bs: "?bs \<noteq> 0"
    by (auto simp: nk8_inv_params_def)
  have ne: "0 < length block"
    using bs by (cases block) auto
  obtain ps ts where sz: "nk8_sizes ?bs (of_nat k) = (ps, ts)"
    by (cases "nk8_sizes ?bs (of_nat k)")
  let ?P = "unat ps" and ?T = "unat ts" and ?L = "length block"
  let ?tail = "drop (?L - ?T) block @ replicate (k - ?T) 0"
  let ?part = "nk8_split_part st block k ?P ?T ?tail"
  have parts: "parts = map ?part ids" and gen: "nk8_gen_part_ids n [] rnd = Some ids"
    using split inv ini sz by (auto simp: nk8_split_block_def Let_def split: bind_splits)
  have ids: "distinct ids" "length ids = n"
    using gen_part_ids [OF gen] by auto
  have "k \<le> card (set (map ((!) ids) sel))"
  proof -
    have "card (set (map ((!) ids) sel)) = card (set sel)"
      unfolding set_map
      by (rule card_image) (use sel ids in \<open>auto simp: inj_on_def subset_iff nth_eq_iff_index_eq\<close>)
    then show ?thesis using sel by simp
  qed
  then have s: "length (nk8_select (map ((!) ids) sel) k [0..<length sel] []) = k
    \<and> (\<forall>j\<in>set (nk8_select (map ((!) ids) sel) k [0..<length sel] []). j < length sel)
    \<and> distinct (map ((!) (map ((!) ids) sel)) (nk8_select (map ((!) ids) sel) k [0..<length sel] []))"
    using k by (intro select_aux) auto
  define q where "q = nk8_select (map ((!) ids) sel) k [0..<length sel] []"
  define sids where "sids = map ((!) (map ((!) ids) sel)) q"
  have q: "length q = k" "\<forall>j\<in>set q. j < length sel" and sd: "distinct sids" "length sids = k"
    using s by (auto simp: q_def sids_def)
  have sp: "map ((!) (map ((!) parts) sel)) q = map ?part sids"
    unfolding sids_def parts using q sel ids by (auto simp: subset_iff)
  have "k \<le> length sel"
    using sel card_length [of sel] by linarith
  then have inv': "\<not> nk8_inv_params ?bs (length sel) k"
    using k bs sel by (auto simp: nk8_inv_params_def)
  have M: "mat_wf k (nk8_ormatrix st sids)"
    "\<And>r c. r < k \<Longrightarrow> c < k \<Longrightarrow> ent (nk8_ormatrix st sids) r c = gf_of (sids ! c) ^ r"
    using ormatrix [of sids] sd k by auto
  have "inj_on (\<lambda>c. gf_of (sids ! c)) {..<k}"
    using sd by (auto simp: inj_on_def nth_eq_iff_index_eq)
  then obtain B where B: "gf_inverse_matrix st (nk8_ormatrix st sids) k = Inr B"
    using inverse_matrix [OF _ M(1) _ M(2)] k by auto
  let ?row = "\<lambda>j. nk8_decode_row st k B (map (\<lambda>p. p ! j) (map ?part sids))"
  note dec = decode_row [OF sd(2) k(1) sd(1) B]
  note sizes = nk8_sizes_cases [OF k(1,2) ne L sz]
  have pk: "?P * k \<le> ?L"
    using sizes by auto
  have row: "?row j = take k (drop (j * k) block)" if "j < ?P" for j
  proof (rule dec)
    have "j * k + k \<le> ?P * k"
      using that mult_le_mono1 [of "Suc j" ?P k] by simp
    then have jk: "j * k + k \<le> ?L"
      using pk by simp
    then show "length (take k (drop (j * k) block)) = k"
      by simp
    show "gf_of (map (\<lambda>p. p ! j) (map ?part sids) ! i)
        = (\<Sum>m<k. gf_of (sids ! i) ^ m * gf_of (take k (drop (j * k) block) ! m))" if "i < k" for i
      using that sd k \<open>j < ?P\<close> jk by (simp add: split_part_nth)
  qed
  then have "map ?row [0..<?P] = map (\<lambda>j. take k (drop (j * k) block)) [0..<?P]"
    by simp
  then have sblock: "concat (map ?row [0..<?P]) = take (?P * k) block"
    using concat_chunks [OF pk] by (simp only:)
  have trow: "?row ?P = ?tail" if "?T \<noteq> 0"
  proof (rule dec)
    show "length ?tail = k"
      using sizes that by auto
    show "gf_of (map (\<lambda>p. p ! ?P) (map ?part sids) ! i)
        = (\<Sum>m<k. gf_of (sids ! i) ^ m * gf_of (?tail ! m))" if "i < k" for i
      using that sd k \<open>?T \<noteq> 0\<close> by (simp add: split_part_tail)
  qed
  show ?thesis
    unfolding nk8_assemble_block_def
    using inv' ini sz q sp B sblock trow sizes buf
    by (auto simp: Let_def q_def [symmetric] sids_def [symmetric] unat_eq_0)
qed

end

interpretation nk8_ready: gf_tables "nk8_ready st" for st
proof
  fix a b
  show "gf_of (gf_mult (nk8_ready st) a b) = gf_of a * gf_of b"
    using nk8_tables.mult_law [of st a b] by (simp add: nk8_ready_def gf_mult_def)
  show "gf_of (gf_div (nk8_ready st) a b) = gf_of a / gf_of b"
    using nk8_tables.div_law [of st a b] by (simp add: nk8_ready_def gf_div_def)
qed

lemma gen_part_ids_returns:
  assumes "n \<le> card ((\<lambda>r. ucast (1 + r) :: u8) ` set rnd - set ids)"
  shows "\<exists>ids'. nk8_gen_part_ids n ids rnd = Some ids'"
  using assms
proof (induction n ids rnd rule: nk8_gen_part_ids.induct)
  case (3 n ids r rnd)
  let ?c = "ucast (1 + r) :: u8" and ?S = "(\<lambda>r. ucast (1 + r) :: u8) ` set rnd"
  show ?case
  proof (cases "?c \<in> set ids")
    case True
    then have "(\<lambda>r. ucast (1 + r) :: u8) ` set (r # rnd) - set ids = ?S - set ids"
      by auto
    then show ?thesis
      using 3 True by (simp add: Let_def)
  next
    case False
    then have "(\<lambda>r. ucast (1 + r) :: u8) ` set (r # rnd) - set ids = insert ?c (?S - set (ids @ [?c]))"
      by auto
    moreover have "card (insert ?c (?S - set (ids @ [?c]))) = Suc (card (?S - set (ids @ [?c])))"
      by (rule card_insert_disjoint) auto
    ultimately have "n \<le> card (?S - set (ids @ [?c]))"
      using 3(3) by simp
    then show ?thesis
      using 3(2) [OF refl False] False by (simp add: Let_def)
  qed
qed auto

section \<open>Properties\<close>

text \<open>
  (C4) The erasure code works: for admissible \<open>n\<close> and \<open>k\<close> every
  non-empty block of less than two gigabytes is split, and assembling any
  selection of the parts, in any order and with repetitions, that has at least
  \<open>k\<close> different ones returns the block, whatever the output buffer held.
\<close>

theorem nk8_assemble_split:
  assumes "2 \<le> k" "k \<le> n" "k \<le> 254" "n \<le> 255"
    and "0 < length block" "length block + 256 \<le> 2 ^ 31"
    and "nk8_gen_part_ids n [] rnd = Some ids"
    and "set sel \<subseteq> {..<n}" "k \<le> card (set sel)" "length sel \<le> 255"
    and "length buf = length block"
  shows "\<exists>parts. nk8_split_block (nk8_ready st) True rnd block n k = Some (Inr (parts, ids))
    \<and> nk8_assemble_block (nk8_ready st) True (map ((!) parts) sel) (map ((!) ids) sel) (length sel) k buf
      = Inr block"
proof -
  have ini: "inited (nk8_ready st)"
    by (simp add: nk8_ready_def)
  have "(of_nat (length block) :: u32) \<noteq> 0"
    using assms(5,6) by (simp add: unat_eq_0 [symmetric] unat_of_nat del: unat_eq_0)
  then have "\<not> nk8_inv_params (of_nat (length block)) n k"
    using assms by (simp add: nk8_inv_params_def)
  then obtain parts where p: "nk8_split_block (nk8_ready st) True rnd block n k = Some (Inr (parts, ids))"
    using assms(7) ini by (auto simp: nk8_split_block_def Let_def case_prod_beta)
  then show ?thesis
    using nk8_ready.assemble_split [OF ini assms(6) p assms(8-11)] by blast
qed

theorem nk8_assemble_split_witness:
  "\<exists>parts. nk8_split_block (nk8_ready \<lparr>inited = False, gf_log = [], gf_alog = []\<rparr>) True [4, 4, 0, 9]
       [10, 20, 30] 3 2 = Some (Inr (parts, [5, 1, 10]))
    \<and> nk8_assemble_block (nk8_ready \<lparr>inited = False, gf_log = [], gf_alog = []\<rparr>) True
       (map ((!) parts) [2, 2, 0]) (map ((!) [5, 1, 10]) [2, 2, 0]) (length [2 :: nat, 2, 0]) 2 [0, 0, 0]
      = Inr [10, 20, 30]"
proof (rule nk8_assemble_split)
  show "nk8_gen_part_ids 3 [] [4, 4, 0, 9] = Some [5, 1, 10]"
    by (simp add: numeral_3_eq_3)
qed simp_all

text \<open>
  (C13) Assembling refuses too few parts: when the identifiers given have fewer
  than \<open>k\<close> different values the result is \<open>-EINVAL\<close>, so no block is
  ever made up from a repeated part.
\<close>

theorem nk8_assemble_too_few:
  assumes "inited st" "card (set ids) < k" "n = length ids"
  shows "nk8_assemble_block st True parts ids n k buf = Inl (- EINVAL)"
proof -
  have "length (nk8_select ids k [0..<n] []) < k"
    by (rule select_few) (use assms in auto)
  then show ?thesis
    using assms(1) by (simp add: nk8_assemble_block_def Let_def case_prod_beta)
qed

theorem nk8_assemble_too_few_witness:
  "nk8_assemble_block (nk8_ready \<lparr>inited = False, gf_log = [], gf_alog = []\<rparr>) True
     [[1], [1], [2]] [7, 7, 9] 3 3 [0, 0] = Inl (- EINVAL)"
  by (rule nk8_assemble_too_few) (simp_all add: nk8_ready_def card_insert_if)

text \<open>
  (C14) Identifiers: the generation loop returns as soon as the random
  candidates have \<open>n\<close> different values, and gives \<open>n\<close> different
  identifiers.
\<close>

theorem nk8_gen_part_ids_correct:
  assumes "n \<le> card ((\<lambda>r. ucast (1 + r) :: u8) ` set rnd)"
  shows "\<exists>ids. nk8_gen_part_ids n [] rnd = Some ids \<and> distinct ids \<and> length ids = n"
  using gen_part_ids_returns [of n rnd "[]"] gen_part_ids [of n "[]" rnd] assms by auto

theorem nk8_gen_part_ids_correct_witness:
  "\<exists>ids. nk8_gen_part_ids 2 [] [4, 4, 0] = Some ids \<and> distinct ids \<and> length ids = 2"
  by (rule nk8_gen_part_ids_correct) (simp add: card_insert_if)

end
