(* ===== verification/Block_Hash.thy ===== *)
theory Block_Hash
  imports Nkfs_Prelude
begin

text \<open>
  The buffering that all the hash functions of the runtime share: input is
  consumed in blocks of a fixed size by a compression function, and what is
  left over waits for more.  The locale \<open>block_hash\<close> states what is needed of
  the loop that consumes whole blocks; its lemmas say that feeding the input in
  pieces is the same as feeding it at once.  It is interpreted for the two
  xxHash variants and for SHA-256.
\<close>

text \<open>\<open>memcpy\<close> into an array at an offset.\<close>

definition memcpy_at :: "'a list \<Rightarrow> nat \<Rightarrow> 'a list \<Rightarrow> 'a list" where
  "memcpy_at dst off src = take off dst @ src @ drop (off + length src) dst"

lemma length_memcpy_at [simp]:
  "off + length src \<le> length dst \<Longrightarrow> length (memcpy_at dst off src) = length dst"
  by (simp add: memcpy_at_def)

lemma take_memcpy_at:
  "off \<le> length dst \<Longrightarrow> take (off + length src) (memcpy_at dst off src) = take off dst @ src"
  by (simp add: memcpy_at_def)

lemma take_memcpy_at_take:
  "off \<le> length dst \<Longrightarrow> n = off + length src \<Longrightarrow> take n (memcpy_at dst off src) = take off dst @ src"
  by (simp add: take_memcpy_at)

lemma nth_memcpy_at:
  "off + length src \<le> length dst \<Longrightarrow> i < length dst \<Longrightarrow>
   memcpy_at dst off src ! i = (if off \<le> i \<and> i < off + length src then src ! (i - off) else dst ! i)"
  by (auto simp: memcpy_at_def nth_append)

locale block_hash =
  fixes blk :: nat
    and compress :: "'v \<Rightarrow> 'b list \<Rightarrow> 'v"
    and run :: "'v \<Rightarrow> 'b list \<Rightarrow> 'v \<times> 'b list"
  assumes blk_pos: "0 < blk"
    and run_law: "run v xs = (if blk \<le> length xs then run (compress v (take blk xs)) (drop blk xs) else (v, xs))"
begin

lemma run_short: "length xs < blk \<Longrightarrow> run v xs = (v, xs)"
  by (simp add: run_law)

lemma run_block: "blk \<le> length xs \<Longrightarrow> run v xs = run (compress v (take blk xs)) (drop blk xs)"
  by (subst run_law) simp

lemma run_rest: "length (snd (run v xs)) < blk"
proof (induction "length xs" arbitrary: v xs rule: less_induct)
  case less
  show ?case
  proof (cases "blk \<le> length xs")
    case True
    then show ?thesis
      using less [of "drop blk xs"] blk_pos by (simp add: run_block)
  qed (simp add: run_short)
qed

lemma run_append: "run v (xs @ ys) = run (fst (run v xs)) (snd (run v xs) @ ys)"
proof (induction "length xs" arbitrary: v xs rule: less_induct)
  case less
  show ?case
  proof (cases "blk \<le> length xs")
    case True
    then show ?thesis
      using less [of "drop blk xs" "compress v (take blk xs)"] blk_pos
      by (simp add: run_block)
  qed (simp add: run_short)
qed

text \<open>A pending remainder completed by the first bytes of the next piece.\<close>

lemma run_fill:
  assumes "length r < blk" "blk \<le> length r + length ys"
  shows "run v (r @ ys) = run (compress v (r @ take (blk - length r) ys)) (drop (blk - length r) ys)"
  using assms by (simp add: run_block)

lemma run_rest_suffix: "\<exists>zs. xs = zs @ snd (run v xs) \<and> blk dvd length zs"
proof (induction "length xs" arbitrary: v xs rule: less_induct)
  case less
  show ?case
  proof (cases "blk \<le> length xs")
    case True
    then have "length (drop blk xs) < length xs"
      using blk_pos by simp
    from less [OF this, of "compress v (take blk xs)"] True
    obtain zs where "drop blk xs = zs @ snd (run v xs)" "blk dvd length zs"
      by (auto simp: run_block)
    then show ?thesis
      using True by (intro exI [of _ "take blk xs @ zs"]) (metis append.assoc append_take_drop_id
          dvd_add dvd_refl length_append length_take min.absorb2)
  qed (simp add: run_short)
qed

lemma run_rest_length: "length (snd (run v xs)) = length xs mod blk"
proof -
  obtain zs where z: "xs = zs @ snd (run v xs)" "blk dvd length zs"
    using run_rest_suffix by blast
  then have "length xs = length zs + length (snd (run v xs))"
    by (metis length_append)
  then show ?thesis
    using z(2) run_rest [of v xs] by (auto simp: mod_add_left_eq [symmetric] dvd_eq_mod_eq_0)
qed

end

end
