(* ===== verification/Sha256.thy ===== *)
theory Sha256
  imports Block_Hash
begin

text \<open>
  The SHA-256 and SHA-224 implementation of \<open>src/crt/sha256.c\<close>: the
  compression function, the streaming interface with its 64-bit length counter
  kept in two words, and the final padding.  The reference is the padded message
  of FIPS 180-4 compressed block by block.
\<close>

section \<open>The compression function\<close>

definition GET_UINT32_BE :: "u8 list \<Rightarrow> nat \<Rightarrow> u32" where
  "GET_UINT32_BE b i =
     push_bit 24 (ucast (b ! i)) OR push_bit 16 (ucast (b ! (i + 1)))
     OR push_bit 8 (ucast (b ! (i + 2))) OR ucast (b ! (i + 3))"

definition PUT_UINT32_BE :: "u32 \<Rightarrow> u8 list" where
  "PUT_UINT32_BE n = [ucast (drop_bit 24 n), ucast (drop_bit 16 n), ucast (drop_bit 8 n), ucast n]"

definition SHR :: "u32 \<Rightarrow> nat \<Rightarrow> u32" where
  "SHR x n = drop_bit n (x AND 0xFFFFFFFF)"

definition ROTR :: "u32 \<Rightarrow> nat \<Rightarrow> u32" where
  "ROTR x n = SHR x n OR push_bit (32 - n) x"

definition S0 :: "u32 \<Rightarrow> u32" where "S0 x = ROTR x 7 XOR ROTR x 18 XOR SHR x 3"
definition S1 :: "u32 \<Rightarrow> u32" where "S1 x = ROTR x 17 XOR ROTR x 19 XOR SHR x 10"
definition S2 :: "u32 \<Rightarrow> u32" where "S2 x = ROTR x 2 XOR ROTR x 13 XOR ROTR x 22"
definition S3 :: "u32 \<Rightarrow> u32" where "S3 x = ROTR x 6 XOR ROTR x 11 XOR ROTR x 25"

definition F0 :: "u32 \<Rightarrow> u32 \<Rightarrow> u32 \<Rightarrow> u32" where
  "F0 x y z = (x AND y) OR (z AND (x OR y))"

definition F1 :: "u32 \<Rightarrow> u32 \<Rightarrow> u32 \<Rightarrow> u32" where
  "F1 x y z = z XOR (x AND (y XOR z))"

type_synonym regs = "u32 \<times> u32 \<times> u32 \<times> u32 \<times> u32 \<times> u32 \<times> u32 \<times> u32"

text \<open>
  The macro \<open>P\<close>.  Each of its 64 uses names the registers shifted by one
  place; the result is the registers in the order of the next use.
\<close>

definition sha256_P :: "regs \<Rightarrow> u32 \<Rightarrow> u32 \<Rightarrow> regs" where
  "sha256_P r x k = (case r of (a, b, c, d, e, f, g, h) \<Rightarrow>
     let temp1 = h + S3 e + F1 e f g + k + x;
         temp2 = S2 a + F0 a b c
     in (temp1 + temp2, a, b, c, d + temp1, e, f, g))"

text \<open>The macro \<open>R(t)\<close> extends the message schedule by \<open>W[t]\<close>.\<close>

definition sha256_R :: "u32 list \<Rightarrow> nat \<Rightarrow> u32 list" where
  "sha256_R W t = W @ [S1 (W ! (t - 2)) + W ! (t - 7) + S0 (W ! (t - 15)) + W ! (t - 16)]"

definition sha256_K :: "u32 list" where
  "sha256_K = [
      0x428A2F98, 0x71374491, 0xB5C0FBCF, 0xE9B5DBA5, 0x3956C25B, 0x59F111F1,
      0x923F82A4, 0xAB1C5ED5, 0xD807AA98, 0x12835B01, 0x243185BE, 0x550C7DC3,
      0x72BE5D74, 0x80DEB1FE, 0x9BDC06A7, 0xC19BF174, 0xE49B69C1, 0xEFBE4786,
      0x0FC19DC6, 0x240CA1CC, 0x2DE92C6F, 0x4A7484AA, 0x5CB0A9DC, 0x76F988DA,
      0x983E5152, 0xA831C66D, 0xB00327C8, 0xBF597FC7, 0xC6E00BF3, 0xD5A79147,
      0x06CA6351, 0x14292967, 0x27B70A85, 0x2E1B2138, 0x4D2C6DFC, 0x53380D13,
      0x650A7354, 0x766A0ABB, 0x81C2C92E, 0x92722C85, 0xA2BFE8A1, 0xA81A664B,
      0xC24B8B70, 0xC76C51A3, 0xD192E819, 0xD6990624, 0xF40E3585, 0x106AA070,
      0x19A4C116, 0x1E376C08, 0x2748774C, 0x34B0BCB5, 0x391C0CB3, 0x4ED8AA4A,
      0x5B9CCA4F, 0x682E6FF3, 0x748F82EE, 0x78A5636F, 0x84C87814, 0x8CC70208,
      0x90BEFFFA, 0xA4506CEB, 0xBEF9A3F7, 0xC67178F2]"

definition sha256_schedule :: "u8 list \<Rightarrow> u32 list" where
  "sha256_schedule data = fold (\<lambda>t W. sha256_R W t) [16..<64] (map (\<lambda>i. GET_UINT32_BE data (4 * i)) [0..<16])"

definition sha256_process :: "regs \<Rightarrow> u8 list \<Rightarrow> regs" where
  "sha256_process s data =
     (let (A, B, C, D, E, F, G, H) =
        fold (\<lambda>(x, k) r. sha256_P r x k) (zip (sha256_schedule data) sha256_K) s
      in case s of (s0, s1, s2, s3, s4, s5, s6, s7) \<Rightarrow>
        (s0 + A, s1 + B, s2 + C, s3 + D, s4 + E, s5 + F, s6 + G, s7 + H))"

section \<open>The streaming interface\<close>

record sha256_context =
  total0 :: u32
  total1 :: u32
  sha_state :: regs
  sha_buffer :: "u8 list"
  is224 :: bool

definition sha256_init :: sha256_context where
  "sha256_init = \<lparr>total0 = 0, total1 = 0, sha_state = (0, 0, 0, 0, 0, 0, 0, 0),
     sha_buffer = replicate 64 0, is224 = False\<rparr>"

definition sha256_iv :: "bool \<Rightarrow> regs" where
  "sha256_iv b =
     (if \<not> b
      then (0x6A09E667, 0xBB67AE85, 0x3C6EF372, 0xA54FF53A, 0x510E527F, 0x9B05688C, 0x1F83D9AB, 0x5BE0CD19)
      else (0xC1059ED8, 0x367CD507, 0x3070DD17, 0xF70E5939, 0xFFC00B31, 0x68581511, 0x64F98FA7, 0xBEFA4FA4))"

definition sha256_starts :: "sha256_context \<Rightarrow> bool \<Rightarrow> sha256_context" where
  "sha256_starts ctx b = ctx\<lparr>total0 := 0, total1 := 0, sha_state := sha256_iv b, is224 := b\<rparr>"

text \<open>The loop \<open>while (ilen >= 64)\<close>: the state and the unread input.\<close>

function sha256_blocks :: "regs \<Rightarrow> u8 list \<Rightarrow> regs \<times> u8 list" where
  "sha256_blocks s input =
     (if 64 \<le> length input then sha256_blocks (sha256_process s (take 64 input)) (drop 64 input) else (s, input))"
  by auto
termination
  by (relation "measure (\<lambda>(s, p). length p)") auto

declare sha256_blocks.simps [simp del]

definition sha256_update :: "sha256_context \<Rightarrow> u8 list \<Rightarrow> sha256_context" where
  "sha256_update ctx input =
     (let ilen = length input in
      if ilen = 0 then ctx
      else let
        left = unat (total0 ctx AND 0x3F);
        fill = 64 - left;
        t0 = (total0 ctx + of_nat ilen) AND 0xFFFFFFFF;
        t1 = (if t0 < of_nat ilen then total1 ctx + 1 else total1 ctx);
        ctx = ctx\<lparr>total0 := t0, total1 := t1\<rparr>;
        (ctx, left, input) =
          (if left \<noteq> 0 \<and> ilen \<ge> fill
           then let buf = memcpy_at (sha_buffer ctx) left (take fill input) in
                (ctx\<lparr>sha_buffer := buf, sha_state := sha256_process (sha_state ctx) buf\<rparr>, 0, drop fill input)
           else (ctx, left, input));
        (s, input) = sha256_blocks (sha_state ctx) input;
        ctx = ctx\<lparr>sha_state := s\<rparr>
      in if length input > 0
         then ctx\<lparr>sha_buffer := memcpy_at (sha_buffer ctx) left input\<rparr>
         else ctx)"

definition sha256_padding :: "u8 list" where
  "sha256_padding = 0x80 # replicate 63 0"

definition sha256_output :: "bool \<Rightarrow> regs \<Rightarrow> u8 list" where
  "sha256_output b s = (case s of (s0, s1, s2, s3, s4, s5, s6, s7) \<Rightarrow>
     PUT_UINT32_BE s0 @ PUT_UINT32_BE s1 @ PUT_UINT32_BE s2 @ PUT_UINT32_BE s3
     @ PUT_UINT32_BE s4 @ PUT_UINT32_BE s5 @ PUT_UINT32_BE s6
     @ (if \<not> b then PUT_UINT32_BE s7 else []))"

definition sha256_msglen :: "sha256_context \<Rightarrow> u8 list" where
  "sha256_msglen ctx =
     (let high = drop_bit 29 (total0 ctx) OR push_bit 3 (total1 ctx);
          low = push_bit 3 (total0 ctx)
      in PUT_UINT32_BE high @ PUT_UINT32_BE low)"

definition sha256_finish :: "sha256_context \<Rightarrow> u8 list" where
  "sha256_finish ctx =
     (let msglen = sha256_msglen ctx;
          last = unat (total0 ctx AND 0x3F);
          padn = (if last < 56 then 56 - last else 120 - last);
          ctx = sha256_update (sha256_update ctx (take padn sha256_padding)) msglen
      in sha256_output (is224 ctx) (sha_state ctx))"

definition sha256 :: "u8 list \<Rightarrow> bool \<Rightarrow> u8 list" where
  "sha256 input b = sha256_finish (sha256_update (sha256_starts sha256_init b) input)"

section \<open>The standard\<close>

text \<open>
  The reference: the message, a one bit, zeros up to eight bytes before a block
  boundary and the length in bits as a big-endian 64-bit number; the standard's
  names for the functions of the rounds.
\<close>

definition fips_pad :: "u8 list \<Rightarrow> u8 list" where
  "fips_pad xs = xs @ 0x80 # replicate ((119 - length xs mod 64) mod 64) 0 @ be_bytes 8 (of_nat (8 * length xs) :: u64)"

definition fips_sha :: "bool \<Rightarrow> u8 list \<Rightarrow> u8 list" where
  "fips_sha b xs = sha256_output b (fst (sha256_blocks (sha256_iv b) (fips_pad xs)))"

definition fips_Ch :: "u32 \<Rightarrow> u32 \<Rightarrow> u32 \<Rightarrow> u32" where
  "fips_Ch x y z = (x AND y) XOR (NOT x AND z)"

definition fips_Maj :: "u32 \<Rightarrow> u32 \<Rightarrow> u32 \<Rightarrow> u32" where
  "fips_Maj x y z = (x AND y) XOR (x AND z) XOR (y AND z)"

text \<open>The context after the bytes \<open>xs\<close>.\<close>

definition sha256_inv :: "bool \<Rightarrow> u8 list \<Rightarrow> sha256_context \<Rightarrow> bool" where
  "sha256_inv b xs ctx \<longleftrightarrow>
     is224 ctx = b \<and> length (sha_buffer ctx) = 64
     \<and> unat (total0 ctx) = length xs mod 2 ^ 32 \<and> unat (total1 ctx) = length xs div 2 ^ 32
     \<and> sha_state ctx = fst (sha256_blocks (sha256_iv b) xs)
     \<and> take (length xs mod 64) (sha_buffer ctx) = snd (sha256_blocks (sha256_iv b) xs)"

section \<open>Lemmas\<close>

lemma F1_is_Ch: "F1 x y z = fips_Ch x y z"
  by (rule bit_word_eqI) (auto simp: F1_def fips_Ch_def bit_simps)

lemma F0_is_Maj: "F0 x y z = fips_Maj x y z"
  by (rule bit_word_eqI) (auto simp: F0_def fips_Maj_def bit_simps)

lemma and_ones_u32: "(x :: u32) AND 0xFFFFFFFF = x"
proof -
  have "(0xFFFFFFFF :: u32) = mask 32"
    by (simp add: mask_eq_exp_minus_1)
  then have "x AND 0xFFFFFFFF = take_bit 32 x"
    by (simp only: take_bit_eq_mask)
  then show ?thesis
    by (simp add: take_bit_word_eq_self)
qed

lemma and_3F: "unat ((x :: u32) AND 0x3F) = unat x mod 64"
proof -
  have "(0x3F :: u32) = mask 6"
    by (simp add: mask_eq_exp_minus_1)
  then have "x AND 0x3F = take_bit 6 x"
    by (simp add: take_bit_eq_mask)
  then show ?thesis
    by (simp add: take_bit_eq_mod unat_mod)
qed

interpretation sha: block_hash 64 sha256_process sha256_blocks
  by unfold_locales (simp, rule sha256_blocks.simps)

lemma rest_length: "length (snd (sha256_blocks s xs)) = length xs mod 64"
  by (rule sha.run_rest_length)

lemma two_digit_add:
  fixes L n B :: nat
  assumes "n < B"
  shows "(L + n) mod B = (if L mod B + n < B then L mod B + n else L mod B + n - B)"
    and "(L + n) div B = (if L mod B + n < B then L div B else L div B + 1)"
proof -
  have a: "L mod B < B"
    using assms by simp
  have "L + n = (if L mod B + n < B then L div B * B + (L mod B + n)
      else (L div B + 1) * B + (L mod B + n - B))"
    by auto
  moreover have "L mod B + n - B < B"
    using a assms by linarith
  ultimately show "(L + n) mod B = (if L mod B + n < B then L mod B + n else L mod B + n - B)"
    and "(L + n) div B = (if L mod B + n < B then L div B else L div B + 1)"
    by (simp_all only: mod_mult_self3 div_mult_self3 split: if_splits) auto
qed

lemma carry_add:
  assumes "n < 2 ^ 32" "L + n < 2 ^ 64" "unat (t0 :: u32) = L mod 2 ^ 32" "unat (t1 :: u32) = L div 2 ^ 32"
  shows "unat (t0 + of_nat n) = (L + n) mod 2 ^ 32"
    and "unat (if t0 + of_nat n < of_nat n then t1 + 1 else t1) = (L + n) div 2 ^ 32"
proof -
  have un: "unat (of_nat n :: u32) = n"
    using assms(1) by (simp add: unat_of_nat)
  show s: "unat (t0 + of_nat n) = (L + n) mod 2 ^ 32"
    by (simp add: unat_word_ariths un assms(3) mod_add_left_eq)
  have less: "t0 + of_nat n < of_nat n \<longleftrightarrow> \<not> L mod 2 ^ 32 + n < 2 ^ 32"
    using mod_less_divisor [of "2 ^ 32" L] assms(1)
    by (simp only: word_less_nat_alt s un two_digit_add(1) [OF assms(1)]) auto
  have "L div 2 ^ 32 + 1 < 2 ^ 32" if "\<not> L mod 2 ^ 32 + n < 2 ^ 32"
  proof -
    have "(L + n) div 2 ^ 32 < 2 ^ 32"
      using assms(2) by (simp add: less_mult_imp_div_less)
    then show ?thesis
      using that two_digit_add(2) [OF assms(1), of L] by simp
  qed
  then have "unat (t1 + 1) = L div 2 ^ 32 + 1" if "\<not> L mod 2 ^ 32 + n < 2 ^ 32"
    using that assms(4) by (simp add: unat_word_ariths)
  then show "unat (if t0 + of_nat n < of_nat n then t1 + 1 else t1) = (L + n) div 2 ^ 32"
    using less assms(4) two_digit_add(2) [OF assms(1), of L] by simp
qed

lemma sha256_starts_inv: "length (sha_buffer ctx) = 64 \<Longrightarrow> sha256_inv b [] (sha256_starts ctx b)"
  by (simp add: sha256_inv_def sha256_starts_def sha.run_short)

lemma sha256_update_inv:
  assumes inv: "sha256_inv b xs ctx" and n: "length ys < 2 ^ 32" "length xs + length ys < 2 ^ 64"
  shows "sha256_inv b (xs @ ys) (sha256_update ctx ys)"
proof (cases "ys = []")
  case True
  then show ?thesis
    using inv by (simp add: sha256_update_def)
next
  case ne: False
  obtain s r where run: "sha256_blocks (sha256_iv b) xs = (s, r)"
    by (cases "sha256_blocks (sha256_iv b) xs")
  have lr: "length r = length xs mod 64" "length r < 64"
    using rest_length [of "sha256_iv b" xs] run by simp_all
  have c: "is224 ctx = b" "length (sha_buffer ctx) = 64" "sha_state ctx = s" "take (length r) (sha_buffer ctx) = r"
    "unat (total0 ctx) = length xs mod 2 ^ 32" "unat (total1 ctx) = length xs div 2 ^ 32"
    using inv lr by (auto simp: sha256_inv_def run)
  have left: "unat (total0 ctx AND 0x3F) = length r"
    by (simp add: and_3F c lr mod_mod_cancel)
  have app: "sha256_blocks (sha256_iv b) (xs @ ys) = sha256_blocks s (r @ ys)"
    by (subst sha.run_append) (simp add: run)
  note t = carry_add [OF n c(5,6)]
  obtain s' r' where run': "sha256_blocks s (r @ ys) = (s', r')"
    by (cases "sha256_blocks s (r @ ys)")
  have lr': "length r' = (length xs + length ys) mod 64" "length r' < 64"
    using rest_length [of "sha256_iv b" "xs @ ys"] app run' by simp_all
  let ?res = "sha256_update ctx ys"
  have tot: "unat (total0 ?res) = length (xs @ ys) mod 2 ^ 32" "unat (total1 ?res) = length (xs @ ys) div 2 ^ 32"
    "is224 ?res = b"
    using ne t c by (auto simp: sha256_update_def Let_def and_ones_u32 case_prod_beta)
  have "length (sha_buffer ?res) = 64 \<and> sha_state ?res = s' \<and> take (length r') (sha_buffer ?res) = r'"
  proof -
    consider "r = []" | "r \<noteq> []" "length r + length ys < 64" | "r \<noteq> []" "64 \<le> length r + length ys"
      by linarith
    then show ?thesis
    proof cases
      case 1
      then have left_0: "unat (total0 ctx AND 0x3F) = 0"
        using left by simp
      show ?thesis
        using 1 ne c run' lr'(2) left_0
        by (simp add: sha256_update_def Let_def memcpy_at_def)
    next
      case 2
      have "sha256_blocks s ys = (s, ys)" "s' = s" "r' = r @ ys"
        using 2 run' sha.run_short [of ys s] sha.run_short [of "r @ ys" s] by simp_all
      moreover have "\<not> 64 - length r \<le> length ys"
        using 2 by simp
      ultimately show ?thesis
        using 2 ne c left by (simp add: sha256_update_def Let_def take_memcpy_at)
    next
      case 3
      let ?n = "64 - length r"
      let ?m = "memcpy_at (sha_buffer ctx) (length r) (take ?n ys)"
      have m: "?m = r @ take ?n ys"
        using c lr 3 take_memcpy_at_take [of "length r" "sha_buffer ctx" 64 "take ?n ys"] by simp
      have "sha256_blocks (sha256_process s ?m) (drop ?n ys) = (s', r')"
        using sha.run_fill [OF lr(2) 3(2), of s] m run' by simp
      moreover have "length ?m = 64" "64 - length r \<le> length ys"
        using 3 c lr by simp_all
      ultimately show ?thesis
        using 3 ne c left lr'(2) by (simp add: sha256_update_def Let_def memcpy_at_def [of ?m])
    qed
  qed
  then show ?thesis
    using tot lr' by (simp add: sha256_inv_def app run')
qed

lemma sha256_updates_inv:
  assumes "sha256_inv b xs ctx" "\<forall>c\<in>set cs. length c < 2 ^ 32" "length xs + length (concat cs) < 2 ^ 64"
  shows "sha256_inv b (xs @ concat cs) (fold (\<lambda>c ctx. sha256_update ctx c) cs ctx)"
  using assms
proof (induction cs arbitrary: xs ctx)
  case (Cons c cs)
  have "sha256_inv b (xs @ c) (sha256_update ctx c)"
    using Cons.prems by (intro sha256_update_inv) simp_all
  then show ?case
    using Cons.IH [of "xs @ c"] Cons.prems by simp
qed simp

lemma PUT_be_bytes: "PUT_UINT32_BE n = be_bytes 4 n"
  by (simp add: PUT_UINT32_BE_def be_bytes_def numeral_eq_Suc drop_bit_drop_bit)

lemma be_bytes_8: "be_bytes 8 (w :: u64) = be_bytes 4 (ucast (drop_bit 32 w) :: u32) @ be_bytes 4 (ucast w :: u32)"
  using le_bytes_append [of 4 4 w] by (simp add: be_bytes_def le_bytes_ucast)

lemma msglen_bytes:
  assumes "L < 2 ^ 61" "unat (total0 ctx) = L mod 2 ^ 32" "unat (total1 ctx) = L div 2 ^ 32"
  shows "sha256_msglen ctx = be_bytes 8 (of_nat (8 * L) :: u64)"
proof -
  let ?t = "of_nat L :: u64"
  have u: "unat ?t = L"
    using assms(1) by (simp add: unat_of_nat)
  have t0: "total0 ctx = ucast ?t"
    by (rule word_unat_eq_iff [THEN iffD2]) (simp add: assms(2) unsigned_ucast_eq take_bit_eq_mod u)
  have "L div 2 ^ 32 < 2 ^ 32"
    using assms(1) by (simp add: less_mult_imp_div_less)
  then have t1: "total1 ctx = ucast (drop_bit 32 ?t)"
    by (intro word_unat_eq_iff [THEN iffD2])
      (simp add: assms(3) unsigned_ucast_eq take_bit_eq_mod drop_bit_eq_div unat_div u)
  have w: "(of_nat (8 * L) :: u64) = push_bit 3 ?t"
    by (simp add: push_bit_eq_mult mult.commute)
  have "drop_bit 29 (ucast ?t :: u32) OR push_bit 3 (ucast (drop_bit 32 ?t)) = ucast (drop_bit 32 (push_bit 3 ?t))"
    by (intro bit_word_eqI) (auto simp: bit_simps)
  moreover have "push_bit 3 (ucast ?t :: u32) = ucast (push_bit 3 ?t)"
    by (intro bit_word_eqI) (auto simp: bit_simps)
  ultimately show ?thesis
    unfolding sha256_msglen_def Let_def w t0 t1 by (simp add: be_bytes_8 PUT_be_bytes)
qed

lemma padn_eq:
  assumes "l < (64 :: nat)"
  shows "(if l < 56 then 56 - l else 120 - l) = Suc ((119 - l) mod 64)"
proof (cases "l < 56")
  case True
  then have "119 - l = 55 - l + 64"
    by simp
  then show ?thesis
    using True by (simp only: mod_add_self2) simp
qed (use assms in simp)

lemma sha256_finish_inv:
  assumes inv: "sha256_inv b xs ctx" and L: "length xs < 2 ^ 61"
  shows "sha256_finish ctx = fips_sha b xs"
proof -
  let ?last = "length xs mod 64"
  let ?padn = "if ?last < 56 then 56 - ?last else 120 - ?last"
  let ?pad = "take ?padn sha256_padding"
  have last: "unat (total0 ctx AND 0x3F) = ?last"
    using inv by (simp add: sha256_inv_def and_3F mod_mod_cancel)
  have msg: "sha256_msglen ctx = be_bytes 8 (of_nat (8 * length xs) :: u64)"
    using inv by (intro msglen_bytes [OF L]) (simp_all add: sha256_inv_def)
  have l64: "?last < 64"
    by simp
  have pos: "0 < ?padn" "?padn \<le> 64"
    using l64 by auto
  have "?padn = Suc ((119 - ?last) mod 64)"
    using l64 by (rule padn_eq)
  then have pad: "?pad = 0x80 # replicate ((119 - ?last) mod 64) 0"
    using pos by (simp add: sha256_padding_def min_def)
  let ?ctx1 = "sha256_update ctx ?pad"
  let ?ctx2 = "sha256_update ?ctx1 (sha256_msglen ctx)"
  have "length ?pad \<le> 64"
    by (simp add: sha256_padding_def)
  then have "sha256_inv b (xs @ ?pad) ?ctx1"
    using L by (intro sha256_update_inv [OF inv]) simp_all
  then have "sha256_inv b ((xs @ ?pad) @ sha256_msglen ctx) ?ctx2"
    by (rule sha256_update_inv) (use L \<open>length ?pad \<le> 64\<close> in \<open>simp_all only: msg length_append length_be_bytes\<close>, auto)
  moreover have "(xs @ ?pad) @ sha256_msglen ctx = fips_pad xs"
    by (simp only: fips_pad_def pad msg append.assoc append.simps)
  ultimately have "sha256_inv b (fips_pad xs) ?ctx2"
    by (simp only:)
  then show ?thesis
    by (simp add: sha256_finish_def Let_def last fips_sha_def sha256_inv_def)
qed

section \<open>Properties\<close>



end
