(* ===== verification/Btree_Node.thy ===== *)
theory Btree_Node
  imports Nkfs_Prelude "HOL-Library.List_Lexorder"
begin

text \<open>
  A node of the B-tree (\<open>src/core/btree.c\<close>, \<open>src/include/nkfs_image.h\<close>): its pages in
  memory, the shifting and copying of keys, values and children, the binary
  search, and its image on disk with the checksum.  The tree itself is in
  \<open>Btree\<close>.
\<close>

section \<open>Constants and layout\<close>

abbreviation (input) NKFS_BTREE_T :: u32 where "NKFS_BTREE_T \<equiv> 896"
abbreviation (input) NKFS_BTREE_KEY_PAGES :: nat where "NKFS_BTREE_KEY_PAGES \<equiv> 7"
abbreviation (input) NKFS_BTREE_CHILD_PAGES :: nat where "NKFS_BTREE_CHILD_PAGES \<equiv> 4"
abbreviation (input) NKFS_BTREE_VALUE_PAGES :: nat where "NKFS_BTREE_VALUE_PAGES \<equiv> 4"
abbreviation (input) NKFS_BTREE_SIG1 :: u32 where "NKFS_BTREE_SIG1 \<equiv> 0xCBACBADA"
abbreviation (input) NKFS_BTREE_SIG2 :: u32 where "NKFS_BTREE_SIG2 \<equiv> 0x3EFFEEFE"

text \<open>
  A key is 16 bytes; a child and a value are 64-bit words.  A page holds 256 keys
  or 512 words.  In memory the node has a header page, seven key pages, four
  child pages and four value pages; a NULL child page is None.
\<close>

type_synonym nkfs_btree_key = "u8 list"

record nkfs_btree_header_page =
  h_sig1 :: u32
  h_leaf :: u32
  h_nr_keys :: u32
  h_pad :: "u8 list"
  h_sum :: u64
  h_sig2 :: u32

record nkfs_btree_node =
  n_sig1 :: u32
  n_t :: u32
  n_block :: u64
  n_tree :: bool
  n_ref :: int
  n_leaf :: u32
  n_nr_keys :: u32
  n_header :: nkfs_btree_header_page
  n_keys :: "nkfs_btree_key list list"
  n_values :: "u64 list list"
  n_children :: "u64 list option list"
  n_sig2 :: u32

text \<open>A node just allocated: its pages are zeroed.\<close>

definition nkfs_btree_node_zero_pages :: "nkfs_btree_node \<Rightarrow> nkfs_btree_node" where
  "nkfs_btree_node_zero_pages node = node\<lparr>
     n_header := \<lparr>h_sig1 = 0, h_leaf = 0, h_nr_keys = 0, h_pad = replicate 4072 0, h_sum = 0, h_sig2 = 0\<rparr>,
     n_keys := replicate NKFS_BTREE_KEY_PAGES (replicate 256 (replicate 16 0)),
     n_children := replicate NKFS_BTREE_CHILD_PAGES (Some (replicate 512 0)),
     n_values := replicate NKFS_BTREE_VALUE_PAGES (replicate 512 0)\<rparr>"

definition new_btree_node :: nkfs_btree_node where
  "new_btree_node = nkfs_btree_node_zero_pages
     \<lparr>n_sig1 = NKFS_BTREE_SIG1, n_t = NKFS_BTREE_T, n_block = 0, n_tree = False, n_ref = 1, n_leaf = 0, n_nr_keys = 0,
      n_header = \<lparr>h_sig1 = 0, h_leaf = 0, h_nr_keys = 0, h_pad = [], h_sum = 0, h_sig2 = 0\<rparr>,
      n_keys = [], n_values = [], n_children = [], n_sig2 = NKFS_BTREE_SIG2\<rparr>"

section \<open>Places in the pages\<close>

text \<open>
  The page and the offset in it of an index; negative indices and pages behind
  the arrays are the \<open>NKFS_BUG_ON\<close>s.
\<close>

definition nkfs_btree_node_key :: "int \<Rightarrow> (nat \<times> nat) option" where
  "nkfs_btree_node_key index = do {
     assert_that (\<not> index < 0);
     let pg_idx = nat index * 16 div PAGE_SIZE;
     let pg_off = (nat index * 16) AND (PAGE_SIZE - 1);
     assert_that (\<not> pg_idx \<ge> NKFS_BTREE_KEY_PAGES);
     Some (pg_idx, pg_off)
   }"

definition nkfs_btree_node_child :: "int \<Rightarrow> (nat \<times> nat) option" where
  "nkfs_btree_node_child index = do {
     assert_that (\<not> index < 0);
     let pg_idx = nat index * 8 div PAGE_SIZE;
     let pg_off = (nat index * 8) AND (PAGE_SIZE - 1);
     assert_that (\<not> pg_idx \<ge> NKFS_BTREE_CHILD_PAGES);
     Some (pg_idx, pg_off)
   }"

definition nkfs_btree_node_value :: "int \<Rightarrow> (nat \<times> nat) option" where
  "nkfs_btree_node_value index = do {
     assert_that (\<not> index < 0);
     let pg_idx = nat index * 8 div PAGE_SIZE;
     let pg_off = (nat index * 8) AND (PAGE_SIZE - 1);
     assert_that (\<not> pg_idx \<ge> NKFS_BTREE_VALUE_PAGES);
     Some (pg_idx, pg_off)
   }"

text \<open>Reading and writing through the pointers.\<close>

definition get_key :: "nkfs_btree_node \<Rightarrow> int \<Rightarrow> nkfs_btree_key option" where
  "get_key node index = do {
     (p, off) \<leftarrow> nkfs_btree_node_key index;
     Some (n_keys node ! p ! (off div 16))
   }"

definition set_key :: "nkfs_btree_node \<Rightarrow> int \<Rightarrow> nkfs_btree_key \<Rightarrow> nkfs_btree_node option" where
  "set_key node index key = do {
     (p, off) \<leftarrow> nkfs_btree_node_key index;
     Some (node\<lparr>n_keys := (n_keys node)[p := (n_keys node ! p)[off div 16 := key]]\<rparr>)
   }"

definition get_value :: "nkfs_btree_node \<Rightarrow> int \<Rightarrow> u64 option" where
  "get_value node index = do {
     (p, off) \<leftarrow> nkfs_btree_node_value index;
     Some (n_values node ! p ! (off div 8))
   }"

definition set_value :: "nkfs_btree_node \<Rightarrow> int \<Rightarrow> u64 \<Rightarrow> nkfs_btree_node option" where
  "set_value node index v = do {
     (p, off) \<leftarrow> nkfs_btree_node_value index;
     Some (node\<lparr>n_values := (n_values node)[p := (n_values node ! p)[off div 8 := v]]\<rparr>)
   }"

definition nkfs_btree_node_get_child_val :: "nkfs_btree_node \<Rightarrow> int \<Rightarrow> u64 option" where
  "nkfs_btree_node_get_child_val node index = do {
     (p, off) \<leftarrow> nkfs_btree_node_child index;
     page \<leftarrow> n_children node ! p;
     Some (page ! (off div 8))
   }"

definition nkfs_btree_node_set_child_val :: "nkfs_btree_node \<Rightarrow> int \<Rightarrow> u64 \<Rightarrow> nkfs_btree_node option" where
  "nkfs_btree_node_set_child_val node index v = do {
     (p, off) \<leftarrow> nkfs_btree_node_child index;
     page \<leftarrow> n_children node ! p;
     Some (node\<lparr>n_children := (n_children node)[p := Some (page[off div 8 := v])]\<rparr>)
   }"

section \<open>Copying and shifting\<close>

definition nkfs_btree_node_is_full :: "nkfs_btree_node \<Rightarrow> bool" where
  "nkfs_btree_node_is_full node \<longleftrightarrow> 2 * NKFS_BTREE_T - 1 = n_nr_keys node"

definition nkfs_btree_node_copy_key_value :: "nkfs_btree_node \<Rightarrow> int \<Rightarrow> nkfs_btree_key \<Rightarrow> u64 \<Rightarrow> nkfs_btree_node option" where
  "nkfs_btree_node_copy_key_value dst dst_index key value = do {
     dst \<leftarrow> set_key dst dst_index key;
     set_value dst dst_index value
   }"

definition nkfs_btree_node_copy_kv ::
  "nkfs_btree_node \<Rightarrow> int \<Rightarrow> nkfs_btree_node \<Rightarrow> int \<Rightarrow> nkfs_btree_node option" where
  "nkfs_btree_node_copy_kv dst dst_index src src_index = do {
     key \<leftarrow> get_key src src_index;
     value \<leftarrow> get_value src src_index;
     nkfs_btree_node_copy_key_value dst dst_index key value
   }"

definition nkfs_btree_node_copy_child ::
  "nkfs_btree_node \<Rightarrow> int \<Rightarrow> nkfs_btree_node \<Rightarrow> int \<Rightarrow> nkfs_btree_node option" where
  "nkfs_btree_node_copy_child dst dst_index src src_index = do {
     v \<leftarrow> nkfs_btree_node_get_child_val src src_index;
     nkfs_btree_node_set_child_val dst dst_index v
   }"

text \<open>
  The loops that free a place: the \<open>int\<close> counter starts at \<open>nr_keys\<close> or
  \<open>nr_keys - 1\<close>, converted from \<open>u32\<close>, and counts down to the place.
\<close>

definition shift_children :: "nkfs_btree_node \<Rightarrow> int \<Rightarrow> nkfs_btree_node option" where
  "shift_children dst dst_index =
     fold_opt (\<lambda>i dst. nkfs_btree_node_copy_child dst (i + 1) dst i) (rev [dst_index..sint (n_nr_keys dst)]) dst"

definition shift_kvs :: "nkfs_btree_node \<Rightarrow> int \<Rightarrow> nkfs_btree_node option" where
  "shift_kvs dst dst_index =
     fold_opt (\<lambda>i dst. nkfs_btree_node_copy_kv dst (i + 1) dst i) (rev [dst_index..sint (n_nr_keys dst - 1)]) dst"

definition nkfs_btree_node_put_child_val :: "nkfs_btree_node \<Rightarrow> int \<Rightarrow> u64 \<Rightarrow> nkfs_btree_node option" where
  "nkfs_btree_node_put_child_val dst dst_index v = do {
     dst \<leftarrow> shift_children dst dst_index;
     nkfs_btree_node_set_child_val dst dst_index v
   }"

definition nkfs_btree_node_put_child ::
  "nkfs_btree_node \<Rightarrow> int \<Rightarrow> nkfs_btree_node \<Rightarrow> int \<Rightarrow> nkfs_btree_node option" where
  "nkfs_btree_node_put_child dst dst_index src src_index = do {
     dst \<leftarrow> shift_children dst dst_index;
     nkfs_btree_node_copy_child dst dst_index src src_index
   }"

definition nkfs_btree_node_put_key_value :: "nkfs_btree_node \<Rightarrow> int \<Rightarrow> nkfs_btree_key \<Rightarrow> u64 \<Rightarrow> nkfs_btree_node option" where
  "nkfs_btree_node_put_key_value dst dst_index key value = do {
     dst \<leftarrow> shift_kvs dst dst_index;
     nkfs_btree_node_copy_key_value dst dst_index key value
   }"

definition nkfs_btree_node_put_kv ::
  "nkfs_btree_node \<Rightarrow> int \<Rightarrow> nkfs_btree_node \<Rightarrow> int \<Rightarrow> nkfs_btree_node option" where
  "nkfs_btree_node_put_kv dst dst_index src src_index = do {
     dst \<leftarrow> shift_kvs dst dst_index;
     nkfs_btree_node_copy_kv dst dst_index src src_index
   }"

definition nkfs_btree_node_zero_kv :: "nkfs_btree_node \<Rightarrow> int \<Rightarrow> nkfs_btree_node option" where
  "nkfs_btree_node_zero_kv dst dst_index = nkfs_btree_node_copy_key_value dst dst_index (replicate 16 0) 0"

text \<open>The three nodes of a split: the parent, the full child and the new node.\<close>

definition nkfs_btree_node_split_child ::
  "nkfs_btree_node \<Rightarrow> nkfs_btree_node \<Rightarrow> int \<Rightarrow> nkfs_btree_node
     \<Rightarrow> (nkfs_btree_node \<times> nkfs_btree_node \<times> nkfs_btree_node) option" where
  "nkfs_btree_node_split_child node child child_index new = do {
     assert_that (\<not> (child_index < 0 \<or> child_index > uint (n_nr_keys node)));
     assert_that (nkfs_btree_node_is_full child);
     let t = unat (n_t new);
     let new = new\<lparr>n_leaf := n_leaf child\<rparr>;
     new \<leftarrow> fold_opt (\<lambda>i new. nkfs_btree_node_copy_kv new (int i) child (int (i + t))) [0..<unat (n_t new - 1)] new;
     let new = new\<lparr>n_nr_keys := n_t new - 1\<rparr>;
     new \<leftarrow> (if n_leaf child = 0
        then fold_opt (\<lambda>i new. nkfs_btree_node_copy_child new (int i) child (int (i + t))) [0..<t] new
        else Some new);
     let child = child\<lparr>n_nr_keys := n_t new - 1\<rparr>;
     node \<leftarrow> nkfs_btree_node_put_child_val node (child_index + 1) (n_block new);
     node \<leftarrow> nkfs_btree_node_put_kv node child_index child (sint (n_t new - 1));
     Some (node\<lparr>n_nr_keys := n_nr_keys node + 1\<rparr>, child, new)
   }"

definition nkfs_btree_node_merge ::
  "nkfs_btree_node \<Rightarrow> nkfs_btree_node \<Rightarrow> nkfs_btree_key \<Rightarrow> u64 \<Rightarrow> nkfs_btree_node option" where
  "nkfs_btree_node_merge dst src key value = do {
     dst \<leftarrow> nkfs_btree_node_copy_key_value dst (sint (n_nr_keys dst)) key value;
     let pos = sint (n_nr_keys dst + 1);
     dst \<leftarrow> fold_opt (\<lambda>i dst. do {
         dst \<leftarrow> nkfs_btree_node_copy_kv dst (pos + int i) src (int i);
         nkfs_btree_node_copy_child dst (pos + int i) src (int i)
       }) [0..<unat (n_nr_keys src)] dst;
     dst \<leftarrow> nkfs_btree_node_copy_child dst (pos + uint (n_nr_keys src)) src (uint (n_nr_keys src));
     Some (dst\<lparr>n_nr_keys := n_nr_keys dst + 1 + n_nr_keys src\<rparr>)
   }"

definition nkfs_btree_node_copy :: "nkfs_btree_node \<Rightarrow> nkfs_btree_node \<Rightarrow> nkfs_btree_node option" where
  "nkfs_btree_node_copy dst src = do {
     dst \<leftarrow> fold_opt (\<lambda>i dst. do {
         dst \<leftarrow> nkfs_btree_node_copy_kv dst (int i) src (int i);
         nkfs_btree_node_copy_child dst (int i) src (int i)
       }) [0..<unat (n_nr_keys src)] dst;
     dst \<leftarrow> nkfs_btree_node_copy_child dst (uint (n_nr_keys src)) src (uint (n_nr_keys src));
     Some (dst\<lparr>n_nr_keys := n_nr_keys src, n_leaf := n_leaf src\<rparr>)
   }"

text \<open>
  Deleting a child shifts the array of page pointers, not the children in the
  pages, by child index; beyond the fourth pointer it leaves the array.
\<close>

definition nkfs_btree_node_delete_child_index :: "nkfs_btree_node \<Rightarrow> nat \<Rightarrow> nkfs_btree_node option" where
  "nkfs_btree_node_delete_child_index node index = do {
     let stop = unat (n_nr_keys node + 1);
     node \<leftarrow> fold_opt (\<lambda>i node. do {
         assert_that (i < NKFS_BTREE_CHILD_PAGES);
         Some (node\<lparr>n_children := (n_children node)[i - 1 := n_children node ! i]\<rparr>)
       }) [index + 1..<stop] node;
     let i = max (index + 1) stop;
     assert_that (i - 1 < NKFS_BTREE_CHILD_PAGES);
     Some (node\<lparr>n_children := (n_children node)[i - 1 := None]\<rparr>)
   }"

definition nkfs_btree_node_delete_key_index :: "nkfs_btree_node \<Rightarrow> nat \<Rightarrow> nkfs_btree_node option" where
  "nkfs_btree_node_delete_key_index node index = do {
     assert_that (\<not> n_nr_keys node < 1);
     let stop = unat (n_nr_keys node);
     node \<leftarrow> fold_opt (\<lambda>i node. nkfs_btree_node_copy_kv node (int i - 1) node (int i)) [index + 1..<stop] node;
     nkfs_btree_node_zero_kv node (int (max (index + 1) stop) - 1)
   }"

section \<open>Searching\<close>

fun memcmp :: "u8 list \<Rightarrow> u8 list \<Rightarrow> int" where
  "memcmp (x # xs) (y # ys) = (if x < y then - 1 else if y < x then 1 else memcmp xs ys)"
| "memcmp _ _ = 0"

definition nkfs_btree_cmp_key :: "nkfs_btree_key \<Rightarrow> nkfs_btree_key \<Rightarrow> int" where
  "nkfs_btree_cmp_key key1 key2 = memcmp key1 key2"

definition nkfs_btree_node_key_probably_inside :: "nkfs_btree_node \<Rightarrow> nkfs_btree_key \<Rightarrow> bool option" where
  "nkfs_btree_node_key_probably_inside node key =
     (if n_nr_keys node = 0 then Some False
      else do {
        last \<leftarrow> get_key node (sint (n_nr_keys node - 1));
        if nkfs_btree_cmp_key key last > 0 then Some False
        else do {
          first \<leftarrow> get_key node 0;
          Some (\<not> nkfs_btree_cmp_key key first < 0)
        }
      })"

text \<open>
  The two binary searches share their loop: Inl is the \<open>return mid\<close>, Inr the
  value of \<open>end\<close> when the loop ends.
\<close>

partial_function (option) nkfs_btree_search ::
  "nkfs_btree_node \<Rightarrow> nkfs_btree_key \<Rightarrow> u32 \<Rightarrow> u32 \<Rightarrow> (u32 + u32) option" where
  "nkfs_btree_search node key start end' =
     (if \<not> start < end' then Some (Inr end')
      else do {
        let mid = (start + end') div 2;
        k \<leftarrow> get_key node (sint mid);
        let cmp = nkfs_btree_cmp_key key k;
        if cmp = 0 then Some (Inl mid)
        else if cmp < 0 then nkfs_btree_search node key start mid
        else nkfs_btree_search node key (mid + 1) end'
      })"

declare nkfs_btree_search.simps [code]

definition nkfs_btree_node_has_key :: "nkfs_btree_node \<Rightarrow> nkfs_btree_key \<Rightarrow> int option" where
  "nkfs_btree_node_has_key node key = do {
     inside \<leftarrow> nkfs_btree_node_key_probably_inside node key;
     if \<not> inside then Some (- 1)
     else do {
       r \<leftarrow> nkfs_btree_search node key 0 (n_nr_keys node);
       Some (case r of Inl mid \<Rightarrow> sint mid | Inr _ \<Rightarrow> - 1)
     }
   }"

definition nkfs_btree_node_find_key_index :: "nkfs_btree_node \<Rightarrow> nkfs_btree_key \<Rightarrow> int option" where
  "nkfs_btree_node_find_key_index node key =
     (if n_nr_keys node = 0 then Some 0
      else do {
        last \<leftarrow> get_key node (sint (n_nr_keys node - 1));
        if nkfs_btree_cmp_key key last > 0 then Some (sint (n_nr_keys node))
        else do {
          first \<leftarrow> get_key node 0;
          if nkfs_btree_cmp_key key first < 0 then Some 0
          else do {
            r \<leftarrow> nkfs_btree_search node key 0 (n_nr_keys node);
            Some (case r of Inl mid \<Rightarrow> sint mid | Inr end' \<Rightarrow> sint end')
          }
        }
      })"

definition nkfs_btree_node_leaf_delete_key :: "nkfs_btree_node \<Rightarrow> nkfs_btree_key \<Rightarrow> nkfs_btree_node option" where
  "nkfs_btree_node_leaf_delete_key node key = do {
     assert_that (n_leaf node \<noteq> 0);
     index \<leftarrow> nkfs_btree_node_has_key node key;
     assert_that (\<not> (index < 0 \<or> index \<ge> uint (n_nr_keys node)));
     node \<leftarrow> nkfs_btree_node_delete_key_index node (nat index);
     Some (node\<lparr>n_nr_keys := n_nr_keys node - 1\<rparr>)
   }"

text \<open>Keys and values of the block trees.\<close>

definition nkfs_btree_key_by_u64 :: "u64 \<Rightarrow> nkfs_btree_key" where
  "nkfs_btree_key_by_u64 v = le_bytes 8 v @ replicate 8 0"

definition nkfs_btree_key_to_u64 :: "nkfs_btree_key \<Rightarrow> u64" where
  "nkfs_btree_key_to_u64 key = le_word (take 8 key)"

section \<open>Places\<close>

lemma nat_and_4095: "(n :: nat) AND 4095 = n mod 4096"
proof -
  have "n AND mask 12 = n mod 2 ^ 12"
    by (simp only: take_bit_eq_mask [symmetric] take_bit_eq_mod)
  then show ?thesis by (simp add: mask_eq_exp_minus_1)
qed

lemma place_arith:
  "i * 16 div 4096 = i div (256 :: nat)" "i * 16 mod 4096 = 16 * (i mod (256 :: nat))"
  "i * 8 div 4096 = i div (512 :: nat)" "i * 8 mod 4096 = 8 * (i mod (512 :: nat))"
  using mod_mult_mult1 [of 16 i 256] mod_mult_mult1 [of 8 i 512]
    div_mult_mult1 [of 16 i 256] div_mult_mult1 [of 8 i 512]
  by (simp_all add: mult.commute)

lemma node_key_place: "i < 1792 \<Longrightarrow> nkfs_btree_node_key (int i) = Some (i div 256, 16 * (i mod 256))"
  and node_key_stop: "1792 \<le> i \<Longrightarrow> nkfs_btree_node_key (int i) = None"
  using less_mult_imp_div_less [of i 7 256] div_le_mono [of 1792 i 256]
  by (simp_all add: nkfs_btree_node_key_def nat_and_4095 place_arith)

lemma node_value_place: "i < 2048 \<Longrightarrow> nkfs_btree_node_value (int i) = Some (i div 512, 8 * (i mod 512))"
  and node_value_stop: "2048 \<le> i \<Longrightarrow> nkfs_btree_node_value (int i) = None"
  using less_mult_imp_div_less [of i 4 512] div_le_mono [of 2048 i 512]
  by (simp_all add: nkfs_btree_node_value_def nat_and_4095 place_arith)

lemma node_child_place: "i < 2048 \<Longrightarrow> nkfs_btree_node_child (int i) = Some (i div 512, 8 * (i mod 512))"
  and node_child_stop: "2048 \<le> i \<Longrightarrow> nkfs_btree_node_child (int i) = None"
  using less_mult_imp_div_less [of i 4 512] div_le_mono [of 2048 i 512]
  by (simp_all add: nkfs_btree_node_child_def nat_and_4095 place_arith)

section \<open>The contents of a node\<close>

text \<open>
  A well-formed node has all its pages; \<open>node_kv\<close> and \<open>node_ch\<close> read them as arrays.
\<close>

definition node_wf :: "nkfs_btree_node \<Rightarrow> bool" where
  "node_wf n \<longleftrightarrow> length (n_keys n) = 7 \<and> (\<forall>p \<in> set (n_keys n). length p = 256 \<and> (\<forall>k \<in> set p. length k = 16))
     \<and> length (n_values n) = 4 \<and> (\<forall>p \<in> set (n_values n). length p = 512)
     \<and> length (n_children n) = 4 \<and> (\<forall>p \<in> set (n_children n). \<exists>ws. p = Some ws \<and> length ws = 512)
     \<and> length (h_pad (n_header n)) = 4072 \<and> n_t n = NKFS_BTREE_T"

definition node_kv :: "nkfs_btree_node \<Rightarrow> nat \<Rightarrow> nkfs_btree_key \<times> u64" where
  "node_kv n j = (n_keys n ! (j div 256) ! (j mod 256), n_values n ! (j div 512) ! (j mod 512))"

definition node_ch :: "nkfs_btree_node \<Rightarrow> nat \<Rightarrow> u64" where
  "node_ch n j = the (n_children n ! (j div 512)) ! (j mod 512)"

lemma get_key_ok: "i < 1792 \<Longrightarrow> get_key n (int i) = Some (fst (node_kv n i))"
  and get_value_ok: "i < 2048 \<Longrightarrow> get_value n (int i) = Some (snd (node_kv n i))"
  by (simp_all add: get_key_def get_value_def node_key_place node_value_place node_kv_def)

lemma node_child_page:
  assumes "node_wf n" "i < 2048"
  shows "\<exists>ws. n_children n ! (i div 512) = Some ws \<and> length ws = 512"
proof -
  have "i div 512 < length (n_children n)"
    using assms by (simp add: node_wf_def less_mult_imp_div_less)
  then have "n_children n ! (i div 512) \<in> set (n_children n)"
    by (rule nth_mem)
  then show ?thesis
    using assms(1) by (simp add: node_wf_def)
qed

lemma get_child_ok:
  assumes "node_wf n" "i < 2048"
  shows "nkfs_btree_node_get_child_val n (int i) = Some (node_ch n i)"
  using node_child_page [OF assms] assms(2)
  by (auto simp: nkfs_btree_node_get_child_val_def node_child_place node_ch_def)

text \<open>\<open>node_same\<close>: two nodes agree but for their keys, values and children.\<close>

definition node_same :: "nkfs_btree_node \<Rightarrow> nkfs_btree_node \<Rightarrow> bool" where
  "node_same n n' \<longleftrightarrow> n' = n\<lparr>n_keys := n_keys n', n_values := n_values n', n_children := n_children n'\<rparr>"

lemma node_same_refl [simp]: "node_same n n"
  by (simp add: node_same_def)

lemma node_same_fields:
  assumes "node_same n n'"
  shows "n_sig1 n' = n_sig1 n" "n_t n' = n_t n" "n_block n' = n_block n" "n_tree n' = n_tree n" "n_ref n' = n_ref n"
    "n_leaf n' = n_leaf n" "n_nr_keys n' = n_nr_keys n" "n_header n' = n_header n" "n_sig2 n' = n_sig2 n"
  by (subst assms [unfolded node_same_def], simp)+

lemma node_same_trans: "node_same n n' \<Longrightarrow> node_same n' n'' \<Longrightarrow> node_same n n''"
proof -
  assume a: "node_same n n'" "node_same n' n''"
  show ?thesis
    unfolding node_same_def
    by (rule nkfs_btree_node.equality) (simp_all add: node_same_fields [OF a(1)] node_same_fields [OF a(2)])
qed

lemma in_set_updateD: "x \<in> set (xs[i := y]) \<Longrightarrow> x = y \<or> x \<in> set xs"
  using set_update_subset_insert [of xs i y] by auto

lemma nth_page_update:
  assumes "i div q < length xs" "i mod q < length (xs ! (i div q))"
  shows "xs[i div q := (xs ! (i div q))[i mod q := v]] ! (j div q) ! (j mod q)
    = (if j = i then v else xs ! (j div q) ! (j mod q))"
proof (cases "j div q = i div q")
  case True
  then have "i mod q = j mod q \<longleftrightarrow> j = i"
    by (metis div_mult_mod_eq)
  then show ?thesis
    using assms True by (auto simp: nth_list_update)
qed auto

text \<open>The rules for one store.\<close>

lemma wp_copy_key_value [wp]:
  assumes "node_wf n" "i < 1792" "length k = 16"
    and "\<And>n'. node_wf n' \<Longrightarrow> node_same n n' \<Longrightarrow> node_kv n' = (node_kv n)(i := (k, v)) \<Longrightarrow> node_ch n' = node_ch n \<Longrightarrow> Q n'"
  shows "wpo (nkfs_btree_node_copy_key_value n (int i) k v) Q"
proof -
  let ?n = "n\<lparr>n_keys := (n_keys n)[i div 256 := (n_keys n ! (i div 256))[i mod 256 := k]],
    n_values := (n_values n)[i div 512 := (n_values n ! (i div 512))[i mod 512 := v]]\<rparr>"
  have l: "i div 256 < length (n_keys n)" "i div 512 < length (n_values n)"
    using assms(1,2) by (simp_all add: node_wf_def less_mult_imp_div_less)
  have m: "n_keys n ! (i div 256) \<in> set (n_keys n)" "n_values n ! (i div 512) \<in> set (n_values n)"
    using l by simp_all
  have pl: "length (n_keys n ! (i div 256)) = 256" "length (n_values n ! (i div 512)) = 512"
    "\<forall>k \<in> set (n_keys n ! (i div 256)). length k = 16"
    using assms(1) m by (simp_all add: node_wf_def)
  have wf: "node_wf ?n"
    using assms(1,3) pl unfolding node_wf_def by (auto dest!: in_set_updateD)
  have kv: "node_kv ?n = (node_kv n)(i := (k, v))"
    using nth_page_update [of i 256 "n_keys n" k] nth_page_update [of i 512 "n_values n" v] l pl
    by (auto simp: fun_eq_iff node_kv_def)
  have "Q ?n"
    by (rule assms(4) [OF wf _ kv]) (simp_all add: node_same_def node_ch_def fun_eq_iff)
  then show ?thesis
    using assms(2) by (simp add: nkfs_btree_node_copy_key_value_def set_key_def set_value_def node_key_place node_value_place)
qed

lemma node_kv_key_length:
  assumes "node_wf n" "i < 1792"
  shows "length (fst (node_kv n i)) = 16"
proof -
  have l: "i div 256 < length (n_keys n)"
    using assms by (simp add: node_wf_def less_mult_imp_div_less)
  then have "n_keys n ! (i div 256) \<in> set (n_keys n)"
    by simp
  moreover from this have "n_keys n ! (i div 256) ! (i mod 256) \<in> set (n_keys n ! (i div 256))"
    using assms(1) by (intro nth_mem) (auto simp: node_wf_def)
  ultimately show ?thesis
    using assms(1) by (auto simp: node_kv_def node_wf_def)
qed

lemma wp_copy_kv [wp]:
  assumes "node_wf n" "i < 1792" "node_wf src" "j < 1792"
    and "\<And>n'. node_wf n' \<Longrightarrow> node_same n n' \<Longrightarrow> node_kv n' = (node_kv n)(i := node_kv src j) \<Longrightarrow> node_ch n' = node_ch n \<Longrightarrow> Q n'"
  shows "wpo (nkfs_btree_node_copy_kv n (int i) src (int j)) Q"
  using assms node_kv_key_length [OF assms(3,4)]
  by (simp add: nkfs_btree_node_copy_kv_def get_key_ok get_value_ok wp_copy_key_value)

lemma wp_set_child_val [wp]:
  assumes "node_wf n" "i < 2048"
    and "\<And>n'. node_wf n' \<Longrightarrow> node_same n n' \<Longrightarrow> node_kv n' = node_kv n \<Longrightarrow> node_ch n' = (node_ch n)(i := v) \<Longrightarrow> Q n'"
  shows "wpo (nkfs_btree_node_set_child_val n (int i) v) Q"
proof -
  obtain ws where ws: "n_children n ! (i div 512) = Some ws" "length ws = 512"
    using node_child_page [OF assms(1,2)] by blast
  let ?n = "n\<lparr>n_children := (n_children n)[i div 512 := Some (ws[i mod 512 := v])]\<rparr>"
  have l: "i div 512 < length (n_children n)"
    using assms(1,2) by (simp add: node_wf_def less_mult_imp_div_less)
  have wf: "node_wf ?n"
    using assms(1) ws unfolding node_wf_def by (auto dest!: in_set_updateD)
  have ch: "node_ch ?n = (node_ch n)(i := v)"
  proof
    fix j
    show "node_ch ?n j = ((node_ch n)(i := v)) j"
    proof (cases "j div 512 = i div 512")
      case True
      then have "i mod 512 = j mod 512 \<longleftrightarrow> j = i"
        by (metis div_mult_mod_eq)
      then show ?thesis
        using l ws True by (auto simp: node_ch_def nth_list_update)
    qed (auto simp: node_ch_def)
  qed
  have "Q ?n"
    by (rule assms(3) [OF wf _ _ ch]) (simp_all add: node_same_def node_kv_def fun_eq_iff)
  then show ?thesis
    using assms(2) ws by (simp add: nkfs_btree_node_set_child_val_def node_child_place)
qed

lemma wp_copy_child [wp]:
  assumes "node_wf n" "i < 2048" "node_wf src" "j < 2048"
    and "\<And>n'. node_wf n' \<Longrightarrow> node_same n n' \<Longrightarrow> node_kv n' = node_kv n \<Longrightarrow> node_ch n' = (node_ch n)(i := node_ch src j) \<Longrightarrow> Q n'"
  shows "wpo (nkfs_btree_node_copy_child n (int i) src (int j)) Q"
  using assms by (simp add: nkfs_btree_node_copy_child_def get_child_ok wp_set_child_val)

section \<open>Shifting\<close>

definition node_nr :: "nkfs_btree_node \<Rightarrow> nat" where
  "node_nr n = unat (n_nr_keys n)"

lemma sint_small: "unat w < 2 ^ 31 \<Longrightarrow> sint (w :: u32) = int (unat w)"
proof -
  assume "unat w < 2 ^ 31"
  moreover have "uint w = int (unat w)"
    by simp
  ultimately have "uint w < 2 ^ 31"
    by (metis of_nat_less_iff of_nat_numeral of_nat_power)
  then show ?thesis
    using signed_take_bit_int_eq_self [of 31 "uint w"] uint_ge_0 [of w] by (simp add: sint_uint)
qed

lemma sint_nr: "node_nr n < 2 ^ 31 \<Longrightarrow> sint (n_nr_keys n) = int (node_nr n)"
  by (simp add: node_nr_def sint_small)

lemma sint_nr_pred: "node_nr n < 2 ^ 31 \<Longrightarrow> sint (n_nr_keys n - 1) = int (node_nr n) - 1"
proof (cases "n_nr_keys n = 0")
  case False
  then have "unat (n_nr_keys n - 1) = node_nr n - 1" "0 < node_nr n"
    by (simp_all add: node_nr_def unat_minus_one unat_gt_0)
  moreover assume "node_nr n < 2 ^ 31"
  ultimately show ?thesis
    by (simp add: sint_small of_nat_diff)
qed (simp add: node_nr_def)

lemma wp_shift_kvs [wp]:
  assumes "node_wf n" "d \<le> node_nr n" "node_nr n < 1792"
    and "\<And>n'. node_wf n' \<Longrightarrow> node_same n n' \<Longrightarrow> node_ch n' = node_ch n \<Longrightarrow>
      node_kv n' = (\<lambda>j. if d < j \<and> j \<le> node_nr n then node_kv n (j - 1) else node_kv n j) \<Longrightarrow> Q n'"
  shows "wpo (shift_kvs n (int d)) Q"
proof -
  have "wpo (fold_opt (\<lambda>i n. nkfs_btree_node_copy_kv n (i + 1) n i) (rev [int d..int (node_nr n) - 1]) n)
    (\<lambda>n'. node_wf n' \<and> node_same n n' \<and> node_ch n' = node_ch n \<and>
      node_kv n' = (\<lambda>j. if d < j \<and> j \<le> node_nr n then node_kv n (j - 1) else node_kv n j))"
  proof (rule wpo_fold_downto [where P = "\<lambda>d n'. node_wf n' \<and> node_same n n' \<and> node_ch n' = node_ch n \<and>
      node_kv n' = (\<lambda>j. if d < j \<and> j \<le> node_nr n then node_kv n (j - 1) else node_kv n j)"], goal_cases)
    case (3 i n1)
    show ?case
      unfolding int_Suc [symmetric] add.commute [of 1]
      apply (rule wp_copy_kv)
      using 3 assms(3) apply (auto simp: fun_eq_iff dest: node_same_trans)
      done
  qed (use assms in \<open>auto simp: fun_eq_iff\<close>)
  then show ?thesis
    using assms by (auto simp: shift_kvs_def sint_nr_pred elim!: wpo_mono)
qed

lemma wp_shift_children [wp]:
  assumes "node_wf n" "d \<le> Suc (node_nr n)" "node_nr n < 1792"
    and "\<And>n'. node_wf n' \<Longrightarrow> node_same n n' \<Longrightarrow> node_kv n' = node_kv n \<Longrightarrow>
      node_ch n' = (\<lambda>j. if d < j \<and> j \<le> Suc (node_nr n) then node_ch n (j - 1) else node_ch n j) \<Longrightarrow> Q n'"
  shows "wpo (shift_children n (int d)) Q"
proof -
  have "wpo (fold_opt (\<lambda>i n. nkfs_btree_node_copy_child n (i + 1) n i) (rev [int d..int (Suc (node_nr n)) - 1]) n)
    (\<lambda>n'. node_wf n' \<and> node_same n n' \<and> node_kv n' = node_kv n \<and>
      node_ch n' = (\<lambda>j. if d < j \<and> j \<le> Suc (node_nr n) then node_ch n (j - 1) else node_ch n j))"
  proof (rule wpo_fold_downto [where P = "\<lambda>d n'. node_wf n' \<and> node_same n n' \<and> node_kv n' = node_kv n \<and>
      node_ch n' = (\<lambda>j. if d < j \<and> j \<le> Suc (node_nr n) then node_ch n (j - 1) else node_ch n j)"], goal_cases)
    case (3 i n1)
    show ?case
      unfolding int_Suc [symmetric] add.commute [of 1]
      apply (rule wp_copy_child)
      using 3 assms(3) apply (auto simp: fun_eq_iff dest: node_same_trans)
      done
  qed (use assms in \<open>auto simp: fun_eq_iff\<close>)
  then show ?thesis
    using assms by (auto simp: shift_children_def sint_nr elim!: wpo_mono)
qed

text \<open>The pairs and the children of a node, in order.\<close>

definition node_kvs :: "nkfs_btree_node \<Rightarrow> (nkfs_btree_key \<times> u64) list" where
  "node_kvs n = map (node_kv n) [0..<node_nr n]"

definition node_chs :: "nkfs_btree_node \<Rightarrow> u64 list" where
  "node_chs n = map (node_ch n) [0..<Suc (node_nr n)]"

definition insert_at :: "nat \<Rightarrow> 'a \<Rightarrow> 'a list \<Rightarrow> 'a list" where
  "insert_at i x xs = take i xs @ x # drop i xs"

lemma length_insert_at [simp]: "length (insert_at i x xs) = Suc (length xs)"
  by (simp add: insert_at_def)

lemma nth_insert_at:
  "i \<le> length xs \<Longrightarrow> j \<le> length xs \<Longrightarrow> insert_at i x xs ! j = (if j < i then xs ! j else if j = i then x else xs ! (j - 1))"
  by (auto simp: insert_at_def nth_append nth_Cons' min_def)

lemma shifted_map:
  assumes "i \<le> n" "\<And>j. f' j = (if j = i then x else if i < j \<and> j \<le> n then f (j - 1) else f j)"
  shows "map f' [0..<Suc n] = insert_at i x (map f [0..<n])"
  by (rule nth_equalityI) (use assms(1) in \<open>auto simp: nth_insert_at assms(2) nth_append less_Suc_eq\<close>)

lemma wp_put_key_value [wp]:
  assumes "node_wf n" "i \<le> node_nr n" "node_nr n < 1791" "length k = 16"
    and "\<And>n'. node_wf n' \<Longrightarrow> node_same n n' \<Longrightarrow> node_ch n' = node_ch n \<Longrightarrow>
      node_kv n' = (\<lambda>j. if j = i then (k, v) else if i < j \<and> j \<le> node_nr n then node_kv n (j - 1) else node_kv n j) \<Longrightarrow> Q n'"
  shows "wpo (nkfs_btree_node_put_key_value n (int i) k v) Q"
  unfolding nkfs_btree_node_put_key_value_def wpo_bind
  apply (rule wp_shift_kvs [OF assms(1,2)])
  subgoal using assms(3) by simp
  apply (rule wp_copy_key_value)
  using assms apply (auto simp: fun_eq_iff dest: node_same_trans)
  done

lemma wp_put_kv [wp]:
  assumes "node_wf n" "i \<le> node_nr n" "node_nr n < 1791" "node_wf src" "j < 1792"
    and "\<And>n'. node_wf n' \<Longrightarrow> node_same n n' \<Longrightarrow> node_ch n' = node_ch n \<Longrightarrow>
      node_kv n' = (\<lambda>m. if m = i then node_kv src j else if i < m \<and> m \<le> node_nr n then node_kv n (m - 1) else node_kv n m) \<Longrightarrow> Q n'"
  shows "wpo (nkfs_btree_node_put_kv n (int i) src (int j)) Q"
  unfolding nkfs_btree_node_put_kv_def wpo_bind
  apply (rule wp_shift_kvs [OF assms(1,2)])
  subgoal using assms(3) by simp
  apply (rule wp_copy_kv)
  using assms apply (auto simp: fun_eq_iff dest: node_same_trans)
  done

lemma wp_put_child_val [wp]:
  assumes "node_wf n" "i \<le> Suc (node_nr n)" "node_nr n < 1792"
    and "\<And>n'. node_wf n' \<Longrightarrow> node_same n n' \<Longrightarrow> node_kv n' = node_kv n \<Longrightarrow>
      node_ch n' = (\<lambda>j. if j = i then v else if i < j \<and> j \<le> Suc (node_nr n) then node_ch n (j - 1) else node_ch n j) \<Longrightarrow> Q n'"
  shows "wpo (nkfs_btree_node_put_child_val n (int i) v) Q"
  unfolding nkfs_btree_node_put_child_val_def wpo_bind
  apply (rule wp_shift_children [OF assms(1,2,3)])
  apply (rule wp_set_child_val)
  using assms apply (auto simp: fun_eq_iff dest: node_same_trans)
  done

section \<open>The binary search\<close>

lemma memcmp_order:
  "length xs = length ys \<Longrightarrow> memcmp xs ys < 0 \<longleftrightarrow> xs < ys"
  "length xs = length ys \<Longrightarrow> 0 < memcmp xs ys \<longleftrightarrow> ys < xs"
  "length xs = length ys \<Longrightarrow> memcmp xs ys = 0 \<longleftrightarrow> xs = ys"
  by (induction xs ys rule: memcmp.induct) auto

definition node_key_at :: "nkfs_btree_node \<Rightarrow> nat \<Rightarrow> nkfs_btree_key" where
  "node_key_at n i = fst (node_kv n i)"

definition node_sorted :: "nkfs_btree_node \<Rightarrow> bool" where
  "node_sorted n \<longleftrightarrow> (\<forall>i j. i < j \<and> j < node_nr n \<longrightarrow> node_key_at n i < node_key_at n j)"

lemma cmp_key_order:
  assumes "node_wf n" "i < 1792" "length key = 16"
  shows "nkfs_btree_cmp_key key (node_key_at n i) < 0 \<longleftrightarrow> key < node_key_at n i"
    "0 < nkfs_btree_cmp_key key (node_key_at n i) \<longleftrightarrow> node_key_at n i < key"
    "nkfs_btree_cmp_key key (node_key_at n i) = 0 \<longleftrightarrow> key = node_key_at n i"
  using node_kv_key_length [OF assms(1,2)] assms(3)
  by (simp_all add: nkfs_btree_cmp_key_def node_key_at_def memcmp_order)

lemma search_ok:
  assumes "node_wf n" "node_nr n < 1792" "length key = 16" "node_sorted n"
    and "unat s \<le> unat e" "unat e \<le> node_nr n"
    and "\<And>i. i < unat s \<Longrightarrow> node_key_at n i < key" "\<And>i. unat e \<le> i \<Longrightarrow> i < node_nr n \<Longrightarrow> key < node_key_at n i"
  shows "wpo (nkfs_btree_search n key s e) (\<lambda>r. case r of
      Inl m \<Rightarrow> unat m < node_nr n \<and> node_key_at n (unat m) = key
    | Inr e \<Rightarrow> unat e \<le> node_nr n \<and> (\<forall>i < unat e. node_key_at n i < key)
        \<and> (\<forall>i. unat e \<le> i \<and> i < node_nr n \<longrightarrow> key < node_key_at n i))"
  using assms(5-8)
proof (induction "unat e - unat s" arbitrary: s e rule: less_induct)
  case less
  show ?case
  proof (cases "s < e")
    case False
    then have "unat s = unat e"
      using less.prems(1) by (simp add: word_less_nat_alt)
    then show ?thesis
      using less.prems False by (subst nkfs_btree_search.simps) simp
  next
    case True
    let ?mid = "(s + e) div 2"
    have lt: "unat s < unat e" "unat e < 1792"
      using True less.prems(2) assms(2) by (simp_all add: word_less_nat_alt)
    have m: "unat ?mid = (unat s + unat e) div 2"
      using lt by (simp add: unat_div unat_word_ariths)
    then have b: "unat s \<le> unat ?mid" "unat ?mid < unat e" "unat ?mid < 1792"
      using lt by linarith+
    have m1: "unat (?mid + 1) = Suc (unat ?mid)"
      using b by (simp add: unat_word_ariths)
    have mid: "sint ?mid = int (unat ?mid)"
      by (rule sint_small) (use b(3) in simp)
    have key: "get_key n (sint ?mid) = Some (node_key_at n (unat ?mid))"
      unfolding mid node_key_at_def by (rule get_key_ok [OF b(3)])
    have L: "node_key_at n i < node_key_at n (unat ?mid)" if "i < unat ?mid" for i
      using that assms(4) b less.prems(2) by (simp add: node_sorted_def)
    have R: "node_key_at n (unat ?mid) < node_key_at n i" if "unat ?mid < i" "i < node_nr n" for i
      using that assms(4) by (simp add: node_sorted_def)
    note c = cmp_key_order [OF assms(1) b(3) assms(3)]
    consider "key = node_key_at n (unat ?mid)" | "key < node_key_at n (unat ?mid)" | "node_key_at n (unat ?mid) < key"
      by fastforce
    then show ?thesis
    proof cases
      case 1
      then show ?thesis
        using True b less.prems(2) c by (subst nkfs_btree_search.simps) (simp add: key)
    next
      case 2
      have "wpo (nkfs_btree_search n key s ?mid) (\<lambda>r. case r of
          Inl m \<Rightarrow> unat m < node_nr n \<and> node_key_at n (unat m) = key
        | Inr e \<Rightarrow> unat e \<le> node_nr n \<and> (\<forall>i < unat e. node_key_at n i < key)
            \<and> (\<forall>i. unat e \<le> i \<and> i < node_nr n \<longrightarrow> key < node_key_at n i))"
      proof (rule less.hyps)
        show "key < node_key_at n i" if "unat ?mid \<le> i" "i < node_nr n" for i
          using that 2 R [of i] by (cases "unat ?mid = i") auto
      qed (use b lt less.prems in simp_all)
      moreover have "nkfs_btree_cmp_key key (node_key_at n (unat ?mid)) \<noteq> 0" "nkfs_btree_cmp_key key (node_key_at n (unat ?mid)) < 0"
        using 2 c by auto
      ultimately show ?thesis
        using True by (subst nkfs_btree_search.simps) (simp add: key)
    next
      case 3
      have "wpo (nkfs_btree_search n key (?mid + 1) e) (\<lambda>r. case r of
          Inl m \<Rightarrow> unat m < node_nr n \<and> node_key_at n (unat m) = key
        | Inr e \<Rightarrow> unat e \<le> node_nr n \<and> (\<forall>i < unat e. node_key_at n i < key)
            \<and> (\<forall>i. unat e \<le> i \<and> i < node_nr n \<longrightarrow> key < node_key_at n i))"
      proof (rule less.hyps)
        show "node_key_at n i < key" if "i < unat (?mid + 1)" for i
          using that 3 L [of i] m1 by (cases "unat ?mid = i") auto
      qed (use b lt m1 less.prems in simp_all)
      moreover have "nkfs_btree_cmp_key key (node_key_at n (unat ?mid)) \<noteq> 0" "\<not> nkfs_btree_cmp_key key (node_key_at n (unat ?mid)) < 0"
        using 3 c by auto
      ultimately show ?thesis
        using True by (subst nkfs_btree_search.simps) (simp add: key)
    qed
  qed
qed

text \<open>The place of a key: the number of keys before it.\<close>

definition key_pos :: "nkfs_btree_node \<Rightarrow> nkfs_btree_key \<Rightarrow> nat" where
  "key_pos n key = length (takeWhile (\<lambda>i. node_key_at n i < key) [0..<node_nr n])"

lemma key_pos_le: "key_pos n key \<le> node_nr n"
  using length_takeWhile_le [of _ "[0..<node_nr n]"] by (simp add: key_pos_def)

lemma key_pos_eqI:
  assumes "p \<le> node_nr n" "\<And>i. i < p \<Longrightarrow> node_key_at n i < key" "p < node_nr n \<Longrightarrow> \<not> node_key_at n p < key"
  shows "key_pos n key = p"
proof -
  have "[0..<node_nr n] = [0..<p] @ [p..<node_nr n]"
    using assms(1) by (metis le0 le_add_diff_inverse upt_add_eq_append)
  moreover have "takeWhile (\<lambda>i. node_key_at n i < key) [p..<node_nr n] = []"
    using assms(1,3) by (cases "p < node_nr n") (simp_all add: upt_conv_Cons)
  ultimately show ?thesis
    using assms(2) takeWhile_append2 [of "[0..<p]" "\<lambda>i. node_key_at n i < key" "[p..<node_nr n]"]
    by (simp add: key_pos_def)
qed

lemma key_pos_below: "i < key_pos n key \<Longrightarrow> node_key_at n i < key"
proof -
  let ?t = "takeWhile (\<lambda>i. node_key_at n i < key) [0..<node_nr n]"
  assume "i < key_pos n key"
  then have i: "i < length ?t" "i < node_nr n"
    using key_pos_le [of n key] by (simp_all add: key_pos_def)
  then have "?t ! i = i"
    using takeWhile_nth [OF i(1)] by simp
  then show ?thesis
    using set_takeWhileD [OF nth_mem [OF i(1)]] by simp
qed

lemma key_pos_above:
  assumes "node_sorted n" "key_pos n key \<le> i" "i < node_nr n"
  shows "key \<le> node_key_at n i"
proof -
  have p: "key_pos n key < length [0..<node_nr n]"
    using assms by simp
  have "\<not> node_key_at n ([0..<node_nr n] ! key_pos n key) < key"
    using nth_length_takeWhile [OF p [unfolded key_pos_def]] by (simp add: key_pos_def)
  then have "key \<le> node_key_at n (key_pos n key)"
    using p by simp
  also have "\<dots> \<le> node_key_at n i"
    using assms by (cases "key_pos n key = i") (auto simp: node_sorted_def less_le)
  finally show ?thesis .
qed

definition key_found :: "nkfs_btree_node \<Rightarrow> nkfs_btree_key \<Rightarrow> bool" where
  "key_found n key \<longleftrightarrow> key_pos n key < node_nr n \<and> node_key_at n (key_pos n key) = key"

lemma key_found_at:
  assumes "node_sorted n" "i < node_nr n" "node_key_at n i = key"
  shows "key_pos n key = i" "key_found n key"
proof -
  show *: "key_pos n key = i"
    by (rule key_pos_eqI) (use assms in \<open>auto simp: node_sorted_def\<close>)
  then show "key_found n key"
    using assms by (simp add: key_found_def)
qed

lemma key_not_found:
  assumes "node_sorted n" "\<not> key_found n key" "i < node_nr n"
  shows "node_key_at n i \<noteq> key" "key_pos n key \<le> i \<longleftrightarrow> key < node_key_at n i"
proof -
  show ne: "node_key_at n i \<noteq> key"
    using key_found_at(2) [OF assms(1,3)] assms(2) by blast
  show "key_pos n key \<le> i \<longleftrightarrow> key < node_key_at n i"
  proof
    assume "key_pos n key \<le> i"
    then show "key < node_key_at n i"
      using key_pos_above [OF assms(1) _ assms(3)] ne by (metis order.not_eq_order_implies_strict)
  next
    assume "key < node_key_at n i"
    then show "key_pos n key \<le> i"
      using key_pos_below [of i n key] by (metis less_asym not_le)
  qed
qed

lemma search_result:
  assumes "node_wf n" "node_nr n < 1792" "length key = 16" "node_sorted n"
  shows "nkfs_btree_search n key 0 (n_nr_keys n) =
    Some (if key_found n key then Inl (of_nat (key_pos n key)) else Inr (of_nat (key_pos n key)))"
proof -
  have "wpo (nkfs_btree_search n key 0 (n_nr_keys n)) (\<lambda>r. case r of
      Inl m \<Rightarrow> unat m < node_nr n \<and> node_key_at n (unat m) = key
    | Inr e \<Rightarrow> unat e \<le> node_nr n \<and> (\<forall>i < unat e. node_key_at n i < key)
        \<and> (\<forall>i. unat e \<le> i \<and> i < node_nr n \<longrightarrow> key < node_key_at n i))"
    by (rule search_ok [OF assms]) (simp_all add: node_nr_def)
  then obtain r where r: "nkfs_btree_search n key 0 (n_nr_keys n) = Some r"
    "case r of Inl m \<Rightarrow> unat m < node_nr n \<and> node_key_at n (unat m) = key
     | Inr e \<Rightarrow> unat e \<le> node_nr n \<and> (\<forall>i < unat e. node_key_at n i < key)
         \<and> (\<forall>i. unat e \<le> i \<and> i < node_nr n \<longrightarrow> key < node_key_at n i)"
    by (auto simp: wpo_def)
  show ?thesis
  proof (cases r)
    case (Inl m)
    then have "key_pos n key = unat m" "key_found n key"
      using r(2) key_found_at [OF assms(4), of "unat m" key] by simp_all
    then show ?thesis
      using r(1) Inl by simp
  next
    case (Inr e)
    have p: "key_pos n key = unat e"
      by (rule key_pos_eqI) (use r(2) Inr in auto)
    moreover have "\<not> key_found n key"
      using r(2) Inr p by (auto simp: key_found_def)
    ultimately show ?thesis
      using r(1) Inr by simp
  qed
qed

lemma sint_key_pos: "node_nr n < 1792 \<Longrightarrow> sint (of_nat (key_pos n key) :: u32) = int (key_pos n key)"
  using key_pos_le [of n key] by (simp add: sint_small unat_of_nat)

lemma last_key:
  assumes "n_nr_keys n \<noteq> 0" "node_nr n < 1792"
  shows "get_key n (sint (n_nr_keys n - 1)) = Some (node_key_at n (node_nr n - 1))" "0 < node_nr n"
    "get_key n 0 = Some (node_key_at n 0)"
proof -
  show nr: "0 < node_nr n"
    using assms(1) by (simp add: node_nr_def unat_gt_0)
  then have "sint (n_nr_keys n - 1) = int (node_nr n - 1)"
    using sint_nr_pred [of n] assms(2) by (simp add: of_nat_diff)
  moreover have "get_key n (int (node_nr n - 1)) = Some (node_key_at n (node_nr n - 1))"
    unfolding node_key_at_def by (rule get_key_ok) (use assms(2) in simp)
  ultimately show "get_key n (sint (n_nr_keys n - 1)) = Some (node_key_at n (node_nr n - 1))"
    by (simp only:)
  show "get_key n 0 = Some (node_key_at n 0)"
    using get_key_ok [of 0 n] by (simp add: node_key_at_def)
qed

lemma find_key_index_ok:
  assumes "node_wf n" "node_nr n < 1792" "length key = 16" "node_sorted n"
  shows "nkfs_btree_node_find_key_index n key = Some (int (key_pos n key))"
proof (cases "n_nr_keys n = 0")
  case True
  then show ?thesis
    by (simp add: nkfs_btree_node_find_key_index_def key_pos_def node_nr_def)
next
  case False
  note l = last_key [OF False assms(2)]
  have i: "0 < (1792 :: nat)" "node_nr n - 1 < 1792"
    using assms(2) by simp_all
  note c = cmp_key_order [OF assms(1) i(1) assms(3)] cmp_key_order [OF assms(1) i(2) assms(3)]
  have "key_pos n key = node_nr n" if "node_key_at n (node_nr n - 1) < key"
  proof (rule key_pos_eqI)
    fix i assume i: "i < node_nr n"
    show "node_key_at n i < key"
    proof (cases "i = node_nr n - 1")
      case False
      then have "node_key_at n i < node_key_at n (node_nr n - 1)"
        using i assms(4) by (simp add: node_sorted_def)
      then show ?thesis
        using that by (rule less_trans)
    qed (use that in simp)
  qed auto
  moreover have "key_pos n key = 0" if "key < node_key_at n 0"
    by (rule key_pos_eqI) (use that in auto)
  moreover have "sint (n_nr_keys n) = int (node_nr n)"
    by (rule sint_nr) (use assms(2) in simp)
  ultimately show ?thesis
    using False sint_key_pos [OF assms(2)]
    by (simp add: nkfs_btree_node_find_key_index_def l(1,3) search_result [OF assms] c [unfolded One_nat_def])
qed

lemma has_key_ok:
  assumes "node_wf n" "node_nr n < 1792" "length key = 16" "node_sorted n"
  shows "nkfs_btree_node_has_key n key = Some (if key_found n key then int (key_pos n key) else - 1)"
proof (cases "n_nr_keys n = 0")
  case True
  then show ?thesis
    by (simp add: nkfs_btree_node_has_key_def nkfs_btree_node_key_probably_inside_def key_found_def node_nr_def)
next
  case False
  note l = last_key [OF False assms(2)]
  have i: "0 < (1792 :: nat)" "node_nr n - 1 < 1792"
    using assms(2) by simp_all
  note c = cmp_key_order [OF assms(1) i(1) assms(3)] cmp_key_order [OF assms(1) i(2) assms(3)]
  have "\<not> key_found n key" if "node_key_at n (node_nr n - 1) < key"
  proof
    assume f: "key_found n key"
    then have "key \<le> node_key_at n (node_nr n - 1)"
      using key_pos_above [OF assms(4), of key "node_nr n - 1"] by (auto simp: key_found_def)
    then show False
      using that by simp
  qed
  moreover have "\<not> key_found n key" if "key < node_key_at n 0"
  proof
    assume f: "key_found n key"
    then have "key_pos n key = 0"
      using that key_pos_below [of 0 n key] by fastforce
    then show False
      using f that by (simp add: key_found_def)
  qed
  ultimately show ?thesis
    using False sint_key_pos [OF assms(2)]
    by (simp add: nkfs_btree_node_has_key_def nkfs_btree_node_key_probably_inside_def l(1,3) search_result [OF assms] c [unfolded One_nat_def])
qed

section \<open>Deleting a pair\<close>

lemma wp_delete_key_index [wp]:
  assumes "node_wf n" "i < node_nr n" "node_nr n < 1792"
    and "\<And>n'. node_wf n' \<Longrightarrow> node_same n n' \<Longrightarrow> node_ch n' = node_ch n \<Longrightarrow>
      node_kv n' = (\<lambda>j. if j = node_nr n - 1 then (replicate 16 0, 0) else if i \<le> j \<and> j < node_nr n then node_kv n (j + 1) else node_kv n j) \<Longrightarrow> Q n'"
  shows "wpo (nkfs_btree_node_delete_key_index n i) Q"
proof -
  let ?P = "\<lambda>m n'. node_wf n' \<and> node_same n n' \<and> node_ch n' = node_ch n
    \<and> node_kv n' = (\<lambda>j. if i \<le> j \<and> j + 1 < m then node_kv n (j + 1) else node_kv n j)"
  have nz: "\<not> n_nr_keys n < 1"
    using assms(2) by (auto simp: node_nr_def word_less_nat_alt)
  have loop: "wpo (fold_opt (\<lambda>i n. nkfs_btree_node_copy_kv n (int i - 1) n (int i)) [i + 1..<node_nr n] n) (?P (node_nr n))"
  proof (rule wpo_fold_upt, goal_cases)
    case (3 j n1)
    then have j: "int j - 1 = int (j - 1)" "j - 1 < 1792" "j < 1792"
      using assms(3) by (simp_all add: of_nat_diff)
    have "wpo (nkfs_btree_node_copy_kv n1 (int (j - 1)) n1 (int j)) (?P (Suc j))"
    proof (rule wp_copy_kv)
      fix n'
      assume "node_wf n'" "node_same n1 n'" "node_ch n' = node_ch n1" "node_kv n' = (node_kv n1)(j - 1 := node_kv n1 j)"
      then show "?P (Suc j) n'"
        using 3 by (auto simp: fun_eq_iff dest: node_same_trans)
    qed (use 3 j in auto)
    then show ?case
      by (simp only: j(1))
  qed (use assms in \<open>auto simp: fun_eq_iff\<close>)
  have mx: "max (i + 1) (node_nr n) = node_nr n" "int (node_nr n) - 1 = int (node_nr n - 1)"
    using assms(2) by (simp_all add: of_nat_diff)
  have "wpo (fold_opt (\<lambda>i n. nkfs_btree_node_copy_kv n (int i - 1) n (int i)) [i + 1..<node_nr n] n)
    (\<lambda>n1. wpo (nkfs_btree_node_zero_kv n1 (int (max (i + 1) (node_nr n)) - 1)) Q)"
  proof (rule wpo_mono [OF loop])
    fix n1 assume 1: "?P (node_nr n) n1"
    show "wpo (nkfs_btree_node_zero_kv n1 (int (max (i + 1) (node_nr n)) - 1)) Q"
      unfolding mx nkfs_btree_node_zero_kv_def
    proof (rule wp_copy_key_value)
      fix n'
      assume n': "node_wf n'" "node_same n1 n'" "node_ch n' = node_ch n1" "node_kv n' = (node_kv n1)(node_nr n - 1 := (replicate 16 0, 0))"
      show "Q n'"
        by (rule assms(4)) (use n' 1 in \<open>auto simp: fun_eq_iff dest: node_same_trans\<close>)
    qed (use 1 assms(3) in auto)
  qed
  then show ?thesis
    using nz by (simp add: nkfs_btree_node_delete_key_index_def node_nr_def [symmetric] Let_def)
qed

section \<open>Copying a node\<close>

text \<open>The loops of \<open>nkfs_btree_node_copy\<close> and \<open>nkfs_btree_node_merge\<close>: pairs and children to a place further right.\<close>

lemma wp_copy_loop:
  assumes "node_wf n" "node_wf src" "pos + m < 1792" "m < 1792"
    and "\<And>n'. node_wf n' \<Longrightarrow> node_same n n' \<Longrightarrow>
      node_kv n' = (\<lambda>j. if pos \<le> j \<and> j < pos + m then node_kv src (j - pos) else node_kv n j) \<Longrightarrow>
      node_ch n' = (\<lambda>j. if pos \<le> j \<and> j < pos + m then node_ch src (j - pos) else node_ch n j) \<Longrightarrow> Q n'"
  shows "wpo (fold_opt (\<lambda>i n. do { n \<leftarrow> nkfs_btree_node_copy_kv n (int pos + int i) src (int i);
      nkfs_btree_node_copy_child n (int pos + int i) src (int i) }) [0..<m] n) Q"
proof -
  let ?P = "\<lambda>m n'. node_wf n' \<and> node_same n n' \<and>
      node_kv n' = (\<lambda>j. if pos \<le> j \<and> j < pos + m then node_kv src (j - pos) else node_kv n j) \<and>
      node_ch n' = (\<lambda>j. if pos \<le> j \<and> j < pos + m then node_ch src (j - pos) else node_ch n j)"
  have "wpo (fold_opt (\<lambda>i n. do { n \<leftarrow> nkfs_btree_node_copy_kv n (int pos + int i) src (int i);
      nkfs_btree_node_copy_child n (int pos + int i) src (int i) }) [0..<m] n) (?P m)"
  proof (rule wpo_fold_upt, goal_cases)
    case (3 i n1)
    have b: "pos + i < 1792" "i < 1792" "pos + i < 2048" "i < 2048"
      using 3(2) assms(3,4) by simp_all
    have "wpo (nkfs_btree_node_copy_kv n1 (int (pos + i)) src (int i))
      (\<lambda>n2. wpo (nkfs_btree_node_copy_child n2 (int (pos + i)) src (int i)) (?P (Suc i)))"
    proof (rule wp_copy_kv)
      fix n2 assume 2: "node_wf n2" "node_same n1 n2" "node_kv n2 = (node_kv n1)(pos + i := node_kv src i)" "node_ch n2 = node_ch n1"
      show "wpo (nkfs_btree_node_copy_child n2 (int (pos + i)) src (int i)) (?P (Suc i))"
      proof (rule wp_copy_child)
        fix n' assume n': "node_wf n'" "node_same n2 n'" "node_kv n' = node_kv n2" "node_ch n' = (node_ch n2)(pos + i := node_ch src i)"
        have "node_same n n'"
          using 3(3) 2(2) n'(2) by (blast intro: node_same_trans)
        then show "?P (Suc i) n'"
          using 3(3) n' 2 by (auto simp: fun_eq_iff)
      qed (use 2 assms b in auto)
    qed (use 3 assms b in auto)
    then show ?case
      by simp
  qed (use assms in \<open>auto simp: fun_eq_iff\<close>)
  then show ?thesis
    by (rule wpo_mono) (use assms(5) in auto)
qed

lemma wp_node_copy [wp]:
  assumes "node_wf n" "node_wf src" "node_nr src < 1792"
    and "\<And>n'. node_wf n' \<Longrightarrow> n' = n\<lparr>n_keys := n_keys n', n_values := n_values n', n_children := n_children n',
        n_nr_keys := n_nr_keys src, n_leaf := n_leaf src\<rparr> \<Longrightarrow>
      node_kv n' = (\<lambda>j. if j < node_nr src then node_kv src j else node_kv n j) \<Longrightarrow>
      node_ch n' = (\<lambda>j. if j \<le> node_nr src then node_ch src j else node_ch n j) \<Longrightarrow> Q n'"
  shows "wpo (nkfs_btree_node_copy n src) Q"
proof -
  have "wpo (fold_opt (\<lambda>i n. do { n \<leftarrow> nkfs_btree_node_copy_kv n (int 0 + int i) src (int i);
      nkfs_btree_node_copy_child n (int 0 + int i) src (int i) }) [0..<node_nr src] n)
    (\<lambda>n. wpo (nkfs_btree_node_copy_child n (int (node_nr src)) src (int (node_nr src)))
      (\<lambda>n. Q (n\<lparr>n_nr_keys := n_nr_keys src, n_leaf := n_leaf src\<rparr>)))"
  proof (rule wp_copy_loop)
    fix n1 assume 1: "node_wf n1" "node_same n n1"
      "node_kv n1 = (\<lambda>j. if 0 \<le> j \<and> j < 0 + node_nr src then node_kv src (j - 0) else node_kv n j)"
      "node_ch n1 = (\<lambda>j. if 0 \<le> j \<and> j < 0 + node_nr src then node_ch src (j - 0) else node_ch n j)"
    show "wpo (nkfs_btree_node_copy_child n1 (int (node_nr src)) src (int (node_nr src)))
      (\<lambda>n. Q (n\<lparr>n_nr_keys := n_nr_keys src, n_leaf := n_leaf src\<rparr>))"
    proof (rule wp_copy_child)
      fix n2 assume 2: "node_wf n2" "node_same n1 n2" "node_kv n2 = node_kv n1" "node_ch n2 = (node_ch n1)(node_nr src := node_ch src (node_nr src))"
      have s: "node_same n n2"
        using 1 2 by (blast intro: node_same_trans)
      show "Q (n2\<lparr>n_nr_keys := n_nr_keys src, n_leaf := n_leaf src\<rparr>)"
      proof (rule assms(4))
        show "node_wf (n2\<lparr>n_nr_keys := n_nr_keys src, n_leaf := n_leaf src\<rparr>)"
          using 2(1) by (simp add: node_wf_def)
        show "n2\<lparr>n_nr_keys := n_nr_keys src, n_leaf := n_leaf src\<rparr> = n\<lparr>n_keys := n_keys (n2\<lparr>n_nr_keys := n_nr_keys src, n_leaf := n_leaf src\<rparr>),
          n_values := n_values (n2\<lparr>n_nr_keys := n_nr_keys src, n_leaf := n_leaf src\<rparr>),
          n_children := n_children (n2\<lparr>n_nr_keys := n_nr_keys src, n_leaf := n_leaf src\<rparr>), n_nr_keys := n_nr_keys src, n_leaf := n_leaf src\<rparr>"
          by (rule nkfs_btree_node.equality) (simp_all add: node_same_fields [OF s])
      qed (use 1 2 in \<open>auto simp: fun_eq_iff node_kv_def node_ch_def\<close>)
    qed (use 1 assms in auto)
  qed (use assms in auto)
  then show ?thesis
    by (simp add: nkfs_btree_node_copy_def node_nr_def)
qed

section \<open>Splitting a full child\<close>

lemma wp_copy_kv_loop:
  assumes "node_wf n" "node_wf src" "pos + m \<le> 1792"
    and "\<And>n'. node_wf n' \<Longrightarrow> node_same n n' \<Longrightarrow> node_ch n' = node_ch n \<Longrightarrow>
      node_kv n' = (\<lambda>j. if j < m then node_kv src (j + pos) else node_kv n j) \<Longrightarrow> Q n'"
  shows "wpo (fold_opt (\<lambda>i n. nkfs_btree_node_copy_kv n (int i) src (int (i + pos))) [0..<m] n) Q"
proof -
  let ?P = "\<lambda>m n'. node_wf n' \<and> node_same n n' \<and> node_ch n' = node_ch n \<and>
      node_kv n' = (\<lambda>j. if j < m then node_kv src (j + pos) else node_kv n j)"
  have "wpo (fold_opt (\<lambda>i n. nkfs_btree_node_copy_kv n (int i) src (int (i + pos))) [0..<m] n) (?P m)"
  proof (rule wpo_fold_upt, goal_cases)
    case (3 i n1)
    show ?case
    proof (rule wp_copy_kv)
      fix n' assume n': "node_wf n'" "node_same n1 n'" "node_kv n' = (node_kv n1)(i := node_kv src (i + pos))" "node_ch n' = node_ch n1"
      have "node_same n n'"
        using 3(3) n'(2) by (blast intro: node_same_trans)
      then show "?P (Suc i) n'"
        using 3(3) n' by (auto simp: fun_eq_iff)
    qed (use 3 assms in auto)
  qed (use assms in \<open>auto simp: fun_eq_iff\<close>)
  then show ?thesis
    by (rule wpo_mono) (use assms(4) in auto)
qed

lemma wp_copy_child_loop:
  assumes "node_wf n" "node_wf src" "pos + m \<le> 2048"
    and "\<And>n'. node_wf n' \<Longrightarrow> node_same n n' \<Longrightarrow> node_kv n' = node_kv n \<Longrightarrow>
      node_ch n' = (\<lambda>j. if j < m then node_ch src (j + pos) else node_ch n j) \<Longrightarrow> Q n'"
  shows "wpo (fold_opt (\<lambda>i n. nkfs_btree_node_copy_child n (int i) src (int (i + pos))) [0..<m] n) Q"
proof -
  let ?P = "\<lambda>m n'. node_wf n' \<and> node_same n n' \<and> node_kv n' = node_kv n \<and>
      node_ch n' = (\<lambda>j. if j < m then node_ch src (j + pos) else node_ch n j)"
  have "wpo (fold_opt (\<lambda>i n. nkfs_btree_node_copy_child n (int i) src (int (i + pos))) [0..<m] n) (?P m)"
  proof (rule wpo_fold_upt, goal_cases)
    case (3 i n1)
    show ?case
    proof (rule wp_copy_child)
      fix n' assume n': "node_wf n'" "node_same n1 n'" "node_kv n' = node_kv n1" "node_ch n' = (node_ch n1)(i := node_ch src (i + pos))"
      have "node_same n n'"
        using 3(3) n'(2) by (blast intro: node_same_trans)
      then show "?P (Suc i) n'"
        using 3(3) n' by (auto simp: fun_eq_iff)
    qed (use 3 assms in auto)
  qed (use assms in \<open>auto simp: fun_eq_iff\<close>)
  then show ?thesis
    by (rule wpo_mono) (use assms(4) in auto)
qed

text \<open>
  After the split: the parent has the middle pair and the new child behind the
  old one, the old child its first 895 pairs, the new node the last 895.  The old
  child's pages keep what they held behind its first 895 pairs.
\<close>

definition split_post ::
  "nkfs_btree_node \<Rightarrow> nkfs_btree_node \<Rightarrow> nat \<Rightarrow> nkfs_btree_node \<Rightarrow> nkfs_btree_node \<times> nkfs_btree_node \<times> nkfs_btree_node \<Rightarrow> bool" where
  "split_post node child i new r \<longleftrightarrow> (case r of (node', child', new') \<Rightarrow>
     node_wf node' \<and> node_wf child' \<and> node_wf new'
     \<and> node' = node\<lparr>n_keys := n_keys node', n_values := n_values node', n_children := n_children node', n_nr_keys := n_nr_keys node + 1\<rparr>
     \<and> child' = child\<lparr>n_nr_keys := 895\<rparr>
     \<and> new' = new\<lparr>n_leaf := n_leaf child, n_keys := n_keys new', n_values := n_values new', n_children := n_children new', n_nr_keys := 895\<rparr>
     \<and> node_kvs node' = insert_at i (node_kv child 895) (node_kvs node)
     \<and> node_chs node' = insert_at (Suc i) (n_block new) (node_chs node)
     \<and> node_kvs child' = take 895 (node_kvs child) \<and> node_kvs new' = drop 896 (node_kvs child)
     \<and> (n_leaf child = 0 \<longrightarrow> node_chs child' = take 896 (node_chs child) \<and> node_chs new' = drop 896 (node_chs child))
     \<and> (n_leaf child \<noteq> 0 \<longrightarrow> node_ch new' = node_ch new)
     \<and> (\<forall>j. 895 \<le> j \<longrightarrow> node_kv new' j = node_kv new j))"

lemma full_nr: "nkfs_btree_node_is_full n \<longleftrightarrow> node_nr n = 1791"
  by (simp add: nkfs_btree_node_is_full_def node_nr_def word_unat_eq_iff eq_commute)

lemma node_kvs_cong: "node_nr n' = node_nr n \<Longrightarrow> node_kv n' = node_kv n \<Longrightarrow> node_kvs n' = node_kvs n"
  by (simp add: node_kvs_def)

lemma node_view_simps [simp]:
  "node_kv (n\<lparr>n_nr_keys := a\<rparr>) = node_kv n" "node_ch (n\<lparr>n_nr_keys := a\<rparr>) = node_ch n"
  "node_kv (n\<lparr>n_leaf := b\<rparr>) = node_kv n" "node_ch (n\<lparr>n_leaf := b\<rparr>) = node_ch n"
  "node_wf (n\<lparr>n_nr_keys := a\<rparr>) = node_wf n" "node_wf (n\<lparr>n_leaf := b\<rparr>) = node_wf n"
  "node_nr (n\<lparr>n_nr_keys := a\<rparr>) = unat a" "node_nr (n\<lparr>n_leaf := b\<rparr>) = node_nr n"
  by (simp_all add: fun_eq_iff node_kv_def node_ch_def node_wf_def node_nr_def)

lemma node_same_nr: "node_same n n' \<Longrightarrow> node_nr n' = node_nr n"
  by (simp add: node_nr_def node_same_fields)

lemma take_map_upt: "m \<le> n \<Longrightarrow> take m (map f [0..<n]) = map f [0..<m]"
  by (simp add: take_map)

lemma drop_map_upt: "m \<le> n \<Longrightarrow> drop m (map f [0..<n]) = map (\<lambda>j. f (j + m)) [0..<n - m]"
  by (rule nth_equalityI) (auto simp: add.commute)

lemma split_rest:
  assumes "node_wf node" "node_wf child" "node_wf new'" "node_nr child = 1791" "node_nr node < 1791" "i \<le> node_nr node"
    and "new' = new\<lparr>n_leaf := n_leaf child, n_keys := n_keys new', n_values := n_values new', n_children := n_children new', n_nr_keys := 895\<rparr>"
    and "\<And>j. node_kv new' j = (if j < 895 then node_kv child (j + 896) else node_kv new j)"
    and "n_leaf child = 0 \<Longrightarrow> (\<forall>j < 896. node_ch new' j = node_ch child (j + 896))"
    and "n_leaf child \<noteq> 0 \<Longrightarrow> node_ch new' = node_ch new"
  shows "wpo (nkfs_btree_node_put_child_val node (int i + 1) (n_block new')) (\<lambda>node1.
    wpo (nkfs_btree_node_put_kv node1 (int i) (child\<lparr>n_nr_keys := 895\<rparr>) (int 895)) (\<lambda>node2.
      split_post node child i new (node2\<lparr>n_nr_keys := n_nr_keys node2 + 1\<rparr>, child\<lparr>n_nr_keys := 895\<rparr>, new')))"
proof -
  have nr': "node_nr new' = 895" "n_block new' = n_block new" "n_leaf new' = n_leaf child"
    by (subst assms(7), simp add: node_nr_def)+
  have "wpo (nkfs_btree_node_put_child_val node (int (Suc i)) (n_block new')) (\<lambda>node1.
    wpo (nkfs_btree_node_put_kv node1 (int i) (child\<lparr>n_nr_keys := 895\<rparr>) (int 895)) (\<lambda>node2.
      split_post node child i new (node2\<lparr>n_nr_keys := n_nr_keys node2 + 1\<rparr>, child\<lparr>n_nr_keys := 895\<rparr>, new')))"
  proof (rule wp_put_child_val)
    fix node1
    assume 1: "node_wf node1" "node_same node node1" "node_kv node1 = node_kv node"
      "node_ch node1 = (\<lambda>j. if j = Suc i then n_block new' else if Suc i < j \<and> j \<le> Suc (node_nr node) then node_ch node (j - 1) else node_ch node j)"
    note nr1 = node_same_nr [OF 1(2)]
    show "wpo (nkfs_btree_node_put_kv node1 (int i) (child\<lparr>n_nr_keys := 895\<rparr>) (int 895)) (\<lambda>node2.
      split_post node child i new (node2\<lparr>n_nr_keys := n_nr_keys node2 + 1\<rparr>, child\<lparr>n_nr_keys := 895\<rparr>, new'))"
    proof (rule wp_put_kv)
      fix node2
      assume 2: "node_wf node2" "node_same node1 node2" "node_ch node2 = node_ch node1"
        "node_kv node2 = (\<lambda>m. if m = i then node_kv (child\<lparr>n_nr_keys := 895\<rparr>) 895
           else if i < m \<and> m \<le> node_nr node1 then node_kv node1 (m - 1) else node_kv node1 m)"
      have s: "node_same node node2"
        using 1(2) 2(2) by (rule node_same_trans)
      have nr2: "unat (n_nr_keys node2 + 1) = Suc (node_nr node)" "n_nr_keys node2 = n_nr_keys node"
        using assms(5) node_same_nr [OF s] node_same_fields(7) [OF s] by (simp_all add: node_nr_def unat_word_ariths)
      have kvs: "node_kvs (node2\<lparr>n_nr_keys := n_nr_keys node2 + 1\<rparr>) = insert_at i (node_kv child 895) (node_kvs node)"
        unfolding node_kvs_def node_view_simps nr2(1)
        by (rule shifted_map) (use assms(6) 1 2 nr1 in auto)
      have chs: "node_chs (node2\<lparr>n_nr_keys := n_nr_keys node2 + 1\<rparr>) = insert_at (Suc i) (n_block new) (node_chs node)"
        unfolding node_chs_def node_view_simps nr2(1)
        by (rule shifted_map) (use assms(6) 1 2 nr' in auto)
      have cn: "node_kvs (child\<lparr>n_nr_keys := 895\<rparr>) = take 895 (node_kvs child)" "node_kvs new' = drop 896 (node_kvs child)"
        unfolding node_kvs_def assms(4) nr' using take_map_upt [of 895 1791 "node_kv child"] drop_map_upt [of 896 1791 "node_kv child"] assms(8)
        by (simp_all del: upt_rec_numeral)
      have cc: "node_chs (child\<lparr>n_nr_keys := 895\<rparr>) = take 896 (node_chs child)" "node_chs new' = drop 896 (node_chs child)"
        if l: "n_leaf child = 0"
        unfolding node_chs_def assms(4) nr' using take_map_upt [of 896 "Suc 1791" "node_ch child"] drop_map_upt [of 896 "Suc 1791" "node_ch child"] assms(9) [OF l]
        by (simp_all del: upt_rec_numeral upt_Suc)
      have eq: "node2\<lparr>n_nr_keys := n_nr_keys node2 + 1\<rparr> = node\<lparr>n_keys := n_keys node2, n_values := n_values node2,
          n_children := n_children node2, n_nr_keys := n_nr_keys node + 1\<rparr>"
        by (rule nkfs_btree_node.equality) (simp_all add: node_same_fields [OF s])
      show "split_post node child i new (node2\<lparr>n_nr_keys := n_nr_keys node2 + 1\<rparr>, child\<lparr>n_nr_keys := 895\<rparr>, new')"
        unfolding split_post_def prod.case node_view_simps
      proof (intro conjI)
        show "node2\<lparr>n_nr_keys := n_nr_keys node2 + 1\<rparr> = node\<lparr>n_keys := n_keys (node2\<lparr>n_nr_keys := n_nr_keys node2 + 1\<rparr>),
            n_values := n_values (node2\<lparr>n_nr_keys := n_nr_keys node2 + 1\<rparr>),
            n_children := n_children (node2\<lparr>n_nr_keys := n_nr_keys node2 + 1\<rparr>), n_nr_keys := n_nr_keys node + 1\<rparr>"
          using eq by simp
        show "\<forall>j. 895 \<le> j \<longrightarrow> node_kv new' j = node_kv new j"
          by (simp add: assms(8))
      qed (fact 2(1) assms(2,3,7) kvs chs cn | use cc assms(10) in blast | rule refl)+
    qed (use 1 nr1 assms in auto)
  qed (use assms in auto)
  then show ?thesis
    by (simp add: add.commute)
qed

lemma split_child_ok:
  assumes "node_wf node" "node_wf child" "node_wf new" "nkfs_btree_node_is_full child" "node_nr node < 1791" "i \<le> node_nr node"
  shows "wpo (nkfs_btree_node_split_child node child (int i) new) (split_post node child i new)"
proof -
  have t: "n_t new = 896" "unat (n_t new) = 896" "unat (n_t new - 1) = 895" "sint (n_t new - 1) = int 895"
    using assms(3) by (simp_all add: node_wf_def)
  have g: "\<not> (int i < 0 \<or> int i > uint (n_nr_keys node))"
  proof -
    have "uint (n_nr_keys node) = int (node_nr node)"
      by (simp add: node_nr_def)
    then show ?thesis
      using assms(6) by (simp only: of_nat_less_iff) simp
  qed
  have full: "node_nr child = 1791"
    using assms(4) by (simp add: full_nr)
  let ?new = "new\<lparr>n_leaf := n_leaf child\<rparr>"
  have "wpo (fold_opt (\<lambda>j nw. nkfs_btree_node_copy_kv nw (int j) child (int (j + unat (n_t new)))) [0..<unat (n_t ?new - 1)] ?new)
    (\<lambda>new1. wpo (if n_leaf child = 0
        then fold_opt (\<lambda>j nw. nkfs_btree_node_copy_child nw (int j) child (int (j + unat (n_t new)))) [0..<unat (n_t new)] (new1\<lparr>n_nr_keys := n_t new1 - 1\<rparr>)
        else Some (new1\<lparr>n_nr_keys := n_t new1 - 1\<rparr>))
      (\<lambda>new2. wpo (nkfs_btree_node_put_child_val node (int i + 1) (n_block new2))
        (\<lambda>node1. wpo (nkfs_btree_node_put_kv node1 (int i) (child\<lparr>n_nr_keys := n_t new2 - 1\<rparr>) (sint (n_t new2 - 1)))
          (\<lambda>node2. split_post node child i new (node2\<lparr>n_nr_keys := n_nr_keys node2 + 1\<rparr>, child\<lparr>n_nr_keys := n_t new2 - 1\<rparr>, new2)))))"
    (is "wpo _ (\<lambda>new1. wpo _ ?R)")
  proof (rule wp_copy_kv_loop)
    fix new1 assume 1: "node_wf new1" "node_same ?new new1" "node_ch new1 = node_ch ?new"
      "node_kv new1 = (\<lambda>j. if j < unat (n_t ?new - 1) then node_kv child (j + unat (n_t new)) else node_kv ?new j)"
    note f1 = node_same_fields [OF 1(2)]
    have t1: "n_t new1 = 896"
      using f1(2) t(1) by simp
    have kv1: "node_kv new1 j = (if j < 895 then node_kv child (j + 896) else node_kv new j)" for j
      using 1(4) t by simp
    let ?n = "new1\<lparr>n_nr_keys := n_t new1 - 1\<rparr>"
    have eq1: "?n = new\<lparr>n_leaf := n_leaf child, n_keys := n_keys ?n, n_values := n_values ?n, n_children := n_children ?n, n_nr_keys := 895\<rparr>"
      by (rule nkfs_btree_node.equality) (simp_all add: f1 t1 t(1))
    have R: "?R new2"
      if "node_wf new2" "node_kv new2 = node_kv new1" "n_t new2 = 896"
        "new2 = new\<lparr>n_leaf := n_leaf child, n_keys := n_keys new2, n_values := n_values new2, n_children := n_children new2, n_nr_keys := 895\<rparr>"
        "n_leaf child = 0 \<Longrightarrow> (\<forall>j < 896. node_ch new2 j = node_ch child (j + 896))" "n_leaf child \<noteq> 0 \<Longrightarrow> node_ch new2 = node_ch new"
      for new2
    proof -
      have "sint (n_t new2 - 1) = int 895" "n_t new2 - 1 = 895"
        using that(3) by simp_all
      then show ?thesis
        using split_rest [OF assms(1,2) that(1) full assms(5,6) that(4) _ that(5,6)] kv1 that(2) by simp
    qed
    show "wpo (if n_leaf child = 0
        then fold_opt (\<lambda>j nw. nkfs_btree_node_copy_child nw (int j) child (int (j + unat (n_t new)))) [0..<unat (n_t new)] ?n
        else Some ?n) ?R"
    proof (cases "n_leaf child = 0")
      case True
      have "wpo (fold_opt (\<lambda>j nw. nkfs_btree_node_copy_child nw (int j) child (int (j + unat (n_t new)))) [0..<unat (n_t new)] ?n) ?R"
      proof (rule wp_copy_child_loop)
        fix new2 assume 2: "node_wf new2" "node_same ?n new2" "node_kv new2 = node_kv ?n"
          "node_ch new2 = (\<lambda>j. if j < unat (n_t new) then node_ch child (j + unat (n_t new)) else node_ch ?n j)"
        note f2 = node_same_fields [OF 2(2)]
        show "?R new2"
        proof (rule R)
          show "new2 = new\<lparr>n_leaf := n_leaf child, n_keys := n_keys new2, n_values := n_values new2, n_children := n_children new2, n_nr_keys := 895\<rparr>"
            by (rule nkfs_btree_node.equality) (simp_all add: f1 f2 t1 t(1))
        qed (use 2 f2 t1 t True in auto)
      qed (use 1 assms(2) t in simp_all)
      then show ?thesis
        using True by simp
    next
      case False
      show ?thesis
        unfolding if_not_P [OF False] wpo_Some
        by (rule R [OF _ _ _ eq1]) (use 1 t1 False in simp_all)
    qed
  qed (use assms t in simp_all)
  then show ?thesis
    unfolding nkfs_btree_node_split_child_def Let_def wpo_bind wpo_assert wpo_Some using g assms(4) by blast
qed

section \<open>Properties\<close>

lemma new_btree_node_wf: "node_wf new_btree_node"
  by (simp add: node_wf_def new_btree_node_def nkfs_btree_node_zero_pages_def)

lemma new_btree_node_kv: "i < 1792 \<Longrightarrow> node_kv new_btree_node i = (replicate 16 0, 0)"
  by (simp add: node_kv_def new_btree_node_def nkfs_btree_node_zero_pages_def less_mult_imp_div_less)

lemma key_pos_list: "key_pos n key = length (takeWhile (\<lambda>k. k < key) (map fst (node_kvs n)))"
  by (simp add: key_pos_def node_kvs_def takeWhile_map comp_def node_key_at_def)

lemma key_found_list: "node_sorted n \<Longrightarrow> key_found n key \<longleftrightarrow> key \<in> set (map fst (node_kvs n))"
proof
  assume "key_found n key"
  then show "key \<in> set (map fst (node_kvs n))"
    by (force simp: node_kvs_def key_found_def node_key_at_def)
next
  assume "node_sorted n" "key \<in> set (map fst (node_kvs n))"
  then show "key_found n key"
    using key_found_at(2) by (auto simp: node_kvs_def node_key_at_def)
qed

text \<open>
  (C12) The address arithmetic of a node stays inside its pages: an index has a
  place exactly when it is below 1792 for keys and below 2048 for values and
  children, which covers a full node; the place is inside a page and different
  indices have disjoint places.  Every other index stops the machine.
\<close>

theorem nkfs_btree_places:
  "(case nkfs_btree_node_key i of
      Some (p, off) \<Rightarrow> 0 \<le> i \<and> i < 1792 \<and> p < 7 \<and> off + 16 \<le> PAGE_SIZE \<and> p * PAGE_SIZE + off = 16 * nat i
    | None \<Rightarrow> i < 0 \<or> 1792 \<le> i)
   \<and> (case nkfs_btree_node_value i of
      Some (p, off) \<Rightarrow> 0 \<le> i \<and> i < 2048 \<and> p < 4 \<and> off + 8 \<le> PAGE_SIZE \<and> p * PAGE_SIZE + off = 8 * nat i
    | None \<Rightarrow> i < 0 \<or> 2048 \<le> i)
   \<and> (case nkfs_btree_node_child i of
      Some (p, off) \<Rightarrow> 0 \<le> i \<and> i < 2048 \<and> p < 4 \<and> off + 8 \<le> PAGE_SIZE \<and> p * PAGE_SIZE + off = 8 * nat i
    | None \<Rightarrow> i < 0 \<or> 2048 \<le> i)"
proof (cases "i < 0")
  case True
  then show ?thesis
    by (simp add: nkfs_btree_node_key_def nkfs_btree_node_value_def nkfs_btree_node_child_def)
next
  case False
  then obtain k where i: "i = int k"
    using nonneg_int_cases [of i] by force
  have m: "k mod 256 < 256" "k mod 512 < 512" "k div 256 * 256 + k mod 256 = k" "k div 512 * 512 + k mod 512 = k"
    by simp_all
  then have e: "16 * (k mod 256) + 16 \<le> 4096" "8 * (k mod 512) + 8 \<le> 4096"
    "k div 256 * 4096 + 16 * (k mod 256) = 16 * k" "k div 512 * 4096 + 8 * (k mod 512) = 8 * k"
    by linarith+
  show ?thesis
    unfolding i
    using node_key_place [of k] node_key_stop [of k] node_value_place [of k] node_value_stop [of k]
      node_child_place [of k] node_child_stop [of k] less_mult_imp_div_less [of k 7 256] less_mult_imp_div_less [of k 4 512] e
    by (cases "k < 1792"; cases "k < 2048") simp_all
qed

text \<open>
  (C10) The binary searches agree with a scan: \<open>nkfs_btree_node_find_key_index\<close> returns
  the number of smaller keys, \<open>nkfs_btree_node_has_key\<close> the index of the key or -1; both end.
\<close>

theorem nkfs_btree_search_correct:
  assumes "node_wf n" "node_nr n < 1792" "length key = 16" "node_sorted n"
  shows "nkfs_btree_node_find_key_index n key = Some (int (length (takeWhile (\<lambda>k. k < key) (map fst (node_kvs n)))))
    \<and> nkfs_btree_node_has_key n key =
        Some (if key \<in> set (map fst (node_kvs n)) then int (length (takeWhile (\<lambda>k. k < key) (map fst (node_kvs n)))) else - 1)"
  using find_key_index_ok [OF assms] has_key_ok [OF assms] key_found_list [OF assms(4), of key]
  by (simp add: key_pos_list del: set_map)

definition demo_node :: nkfs_btree_node where
  "demo_node = new_btree_node\<lparr>n_nr_keys := 2, n_leaf := 1,
     n_keys := (n_keys new_btree_node)[0 := (replicate 256 (replicate 16 0))[0 := replicate 16 3, 1 := replicate 16 5]]\<rparr>"

lemma replicate_less: "x < y \<Longrightarrow> 0 < n \<Longrightarrow> replicate n x < replicate n (y :: u8)"
  by (cases n) simp_all

lemma demo_node_ok: "node_wf demo_node" "node_nr demo_node = 2" "node_sorted demo_node"
  "node_kvs demo_node = [(replicate 16 3, 0), (replicate 16 5, 0)]"
proof -
  show wf: "node_wf demo_node"
    using new_btree_node_wf by (auto simp: demo_node_def node_wf_def dest!: in_set_updateD)
  show nr: "node_nr demo_node = 2"
    by (simp add: demo_node_def node_nr_def)
  have kv: "node_kv demo_node 0 = (replicate 16 3, 0)" "node_kv demo_node (Suc 0) = (replicate 16 5, 0)"
    by (simp_all add: node_kv_def demo_node_def new_btree_node_def nkfs_btree_node_zero_pages_def nth_list_update)
  show "node_kvs demo_node = [(replicate 16 3, 0), (replicate 16 5, 0)]"
    by (simp add: node_kvs_def nr kv numeral_2_eq_2)
  show "node_sorted demo_node"
    unfolding node_sorted_def nr node_key_at_def
  proof (intro allI impI)
    fix i j :: nat assume "i < j \<and> j < 2"
    then have "i = 0" "j = Suc 0"
      by linarith+
    then show "fst (node_kv demo_node i) < fst (node_kv demo_node j)"
      by (simp add: kv replicate_less)
  qed
qed

theorem nkfs_btree_search_correct_witness:
  "nkfs_btree_node_find_key_index demo_node (replicate 16 4) = Some 1
   \<and> nkfs_btree_node_has_key demo_node (replicate 16 4) = Some (- 1) \<and> nkfs_btree_node_has_key demo_node (replicate 16 5) = Some 1"
  using nkfs_btree_search_correct [of demo_node "replicate 16 4"] nkfs_btree_search_correct [of demo_node "replicate 16 5"]
  by (simp add: demo_node_ok replicate_less less_not_sym [OF replicate_less])

text \<open>
  (C11) Splitting a full child keeps its pairs in order: the first 895 stay, the
  middle one moves to the parent at the child's place, the last 895 and, for an inner
  child, the last 896 children go to the new node, whose block becomes the parent's
  next child.
\<close>

theorem nkfs_btree_split_in_order:
  assumes "node_wf node" "node_wf child" "node_wf new" "nkfs_btree_node_is_full child" "node_nr node < 1791" "i \<le> node_nr node"
  shows "\<exists>node' child' new' mid. nkfs_btree_node_split_child node child (int i) new = Some (node', child', new')
    \<and> node_wf node' \<and> node_wf child' \<and> node_wf new'
    \<and> node_kvs child = node_kvs child' @ mid # node_kvs new' \<and> length (node_kvs child') = 895 \<and> length (node_kvs new') = 895
    \<and> node_kvs node' = insert_at i mid (node_kvs node) \<and> node_chs node' = insert_at (Suc i) (n_block new) (node_chs node)
    \<and> (n_leaf child = 0 \<longrightarrow> node_chs child = node_chs child' @ node_chs new')"
proof -
  obtain node' child' new' where r: "nkfs_btree_node_split_child node child (int i) new = Some (node', child', new')"
    "split_post node child i new (node', child', new')"
    using split_child_ok [OF assms] by (auto simp: wpo_def)
  have l: "length (node_kvs child) = 1791"
    using assms(4) by (simp add: full_nr node_kvs_def)
  then have "node_kvs child = take 895 (node_kvs child) @ node_kvs child ! 895 # drop 896 (node_kvs child)"
    using id_take_nth_drop [of 895 "node_kvs child"] by simp
  moreover have "node_kvs child ! 895 = node_kv child 895"
    using assms(4) by (simp add: full_nr node_kvs_def del: upt_rec_numeral)
  ultimately show ?thesis
    using r l append_take_drop_id [of 896 "node_chs child"]
    apply (rule_tac x = node' in exI, rule_tac x = child' in exI, rule_tac x = new' in exI, rule_tac x = "node_kv child 895" in exI)
    apply (simp add: split_post_def del: node_view_simps)
    done
qed

theorem nkfs_btree_split_in_order_witness:
  "\<exists>node' child' new'. nkfs_btree_node_split_child new_btree_node (new_btree_node\<lparr>n_nr_keys := 1791\<rparr>) 0 (new_btree_node\<lparr>n_block := 7\<rparr>)
      = Some (node', child', new') \<and> length (node_kvs child') = 895 \<and> node_chs node' = [0, 7]"
proof -
  have w: "node_wf (new_btree_node\<lparr>n_nr_keys := 1791\<rparr>)" "node_wf (new_btree_node\<lparr>n_block := 7\<rparr>)"
    using new_btree_node_wf by (simp_all add: node_wf_def)
  have f: "nkfs_btree_node_is_full (new_btree_node\<lparr>n_nr_keys := 1791\<rparr>)" "node_nr new_btree_node = 0"
    by (simp_all add: nkfs_btree_node_is_full_def node_nr_def new_btree_node_def nkfs_btree_node_zero_pages_def)
  have "node_chs new_btree_node = [0]"
    by (simp add: node_chs_def f(2)) (simp add: node_ch_def new_btree_node_def nkfs_btree_node_zero_pages_def)
  then show ?thesis
    using nkfs_btree_split_in_order [OF new_btree_node_wf w f(1), of 0] f(2) by (auto simp: insert_at_def)
qed

end
