(* ===== verification/Xxhash.thy ===== *)
theory Xxhash
  imports Block_Hash
begin

text \<open>
  The hash functions of \<open>src/crt/xxhash.c\<close> on a little-endian machine, in
  the one-shot form (\<open>XXH32\<close>, \<open>XXH64\<close>) and the streaming form (reset,
  update, digest), and the checksum interface over them (\<open>src/crt/csum.c\<close>)
  that all of NKFS uses.  The main lemmas: streaming any sequence of pieces
  gives the one-shot hash of their concatenation.
\<close>

section \<open>Reading and rotating\<close>

definition XXH_readLE32 :: "u8 list \<Rightarrow> u32" where
  "XXH_readLE32 p = le_word (take 4 p)"

definition XXH_readLE64 :: "u8 list \<Rightarrow> u64" where
  "XXH_readLE64 p = le_word (take 8 p)"

definition XXH_rotl32 :: "u32 \<Rightarrow> nat \<Rightarrow> u32" where
  "XXH_rotl32 x r = push_bit r x OR drop_bit (32 - r) x"

definition XXH_rotl64 :: "u64 \<Rightarrow> nat \<Rightarrow> u64" where
  "XXH_rotl64 x r = push_bit r x OR drop_bit (64 - r) x"

section \<open>The 64-bit hash\<close>

abbreviation (input) PRIME64_1 :: u64 where "PRIME64_1 \<equiv> 11400714785074694791"
abbreviation (input) PRIME64_2 :: u64 where "PRIME64_2 \<equiv> 14029467366897019727"
abbreviation (input) PRIME64_3 :: u64 where "PRIME64_3 \<equiv> 1609587929392839161"
abbreviation (input) PRIME64_4 :: u64 where "PRIME64_4 \<equiv> 9650029242287828579"
abbreviation (input) PRIME64_5 :: u64 where "PRIME64_5 \<equiv> 2870177450012600261"

type_synonym acc64 = "u64 \<times> u64 \<times> u64 \<times> u64"

definition XXH64_init :: "u64 \<Rightarrow> acc64" where
  "XXH64_init seed = (seed + PRIME64_1 + PRIME64_2, seed + PRIME64_2, seed + 0, seed - PRIME64_1)"

definition XXH64_lane :: "u64 \<Rightarrow> u64 \<Rightarrow> u64" where
  "XXH64_lane v w = XXH_rotl64 (v + w * PRIME64_2) 31 * PRIME64_1"

definition XXH64_stripe :: "acc64 \<Rightarrow> u8 list \<Rightarrow> acc64" where
  "XXH64_stripe v p = (case v of (v1, v2, v3, v4) \<Rightarrow>
     (XXH64_lane v1 (XXH_readLE64 p),
      XXH64_lane v2 (XXH_readLE64 (drop 8 p)),
      XXH64_lane v3 (XXH_readLE64 (drop 16 p)),
      XXH64_lane v4 (XXH_readLE64 (drop 24 p))))"

text \<open>
  The loop over whole stripes: the accumulators and the unread input.  The
  source enters the \<open>do ... while (p <= limit)\<close> only when a whole stripe is
  there, so the test may as well come first.
\<close>

function XXH64_stripes :: "acc64 \<Rightarrow> u8 list \<Rightarrow> acc64 \<times> u8 list" where
  "XXH64_stripes v p =
     (if 32 \<le> length p then XXH64_stripes (XXH64_stripe v (take 32 p)) (drop 32 p) else (v, p))"
  by auto
termination
  by (relation "measure (\<lambda>(v, p). length p)") auto

declare XXH64_stripes.simps [simp del]

definition XXH64_merge :: "u64 \<Rightarrow> u64 \<Rightarrow> u64" where
  "XXH64_merge h64 v = (h64 XOR (XXH_rotl64 (v * PRIME64_2) 31 * PRIME64_1)) * PRIME64_1 + PRIME64_4"

definition XXH64_converge :: "acc64 \<Rightarrow> u64" where
  "XXH64_converge v = (case v of (v1, v2, v3, v4) \<Rightarrow>
     let h64 = XXH_rotl64 v1 1 + XXH_rotl64 v2 7 + XXH_rotl64 v3 12 + XXH_rotl64 v4 18 in
     XXH64_merge (XXH64_merge (XXH64_merge (XXH64_merge h64 v1) v2) v3) v4)"

function XXH64_tail8 :: "u64 \<Rightarrow> u8 list \<Rightarrow> u64 \<times> u8 list" where
  "XXH64_tail8 h64 p =
     (if 8 \<le> length p
      then let k1 = XXH_rotl64 (XXH_readLE64 p * PRIME64_2) 31 * PRIME64_1 in
           XXH64_tail8 (XXH_rotl64 (h64 XOR k1) 27 * PRIME64_1 + PRIME64_4) (drop 8 p)
      else (h64, p))"
  by auto
termination
  by (relation "measure (\<lambda>(h, p). length p)") auto

declare XXH64_tail8.simps [simp del]

definition XXH64_tail4 :: "u64 \<Rightarrow> u8 list \<Rightarrow> u64 \<times> u8 list" where
  "XXH64_tail4 h64 p =
     (if 4 \<le> length p
      then (XXH_rotl64 (h64 XOR (ucast (XXH_readLE32 p) * PRIME64_1)) 23 * PRIME64_2 + PRIME64_3, drop 4 p)
      else (h64, p))"

definition XXH64_tail1 :: "u64 \<Rightarrow> u8 list \<Rightarrow> u64" where
  "XXH64_tail1 h64 p = fold (\<lambda>b h. XXH_rotl64 (h XOR (ucast b * PRIME64_5)) 11 * PRIME64_1) p h64"

definition XXH64_avalanche :: "u64 \<Rightarrow> u64" where
  "XXH64_avalanche h0 =
     (let h1 = (h0 XOR drop_bit 33 h0) * PRIME64_2;
          h2 = (h1 XOR drop_bit 29 h1) * PRIME64_3
      in h2 XOR drop_bit 32 h2)"

definition XXH64_finish :: "u64 \<Rightarrow> u8 list \<Rightarrow> u64" where
  "XXH64_finish h64 p =
     (let (h64, p) = XXH64_tail8 h64 p;
          (h64, p) = XXH64_tail4 h64 p
      in XXH64_avalanche (XXH64_tail1 h64 p))"

definition XXH64 :: "u8 list \<Rightarrow> u64 \<Rightarrow> u64" where
  "XXH64 input seed =
     (let (h64, p) =
        (if length input \<ge> 32
         then let (v, p) = XXH64_stripes (XXH64_init seed) input in (XXH64_converge v, p)
         else (seed + PRIME64_5, input))
      in XXH64_finish (h64 + of_nat (length input)) p)"

record XXH_istate64 =
  total_len64 :: u64
  seed64 :: u64
  v64 :: acc64
  mem64 :: "u8 list"
  memsize64 :: nat

definition XXH64_reset :: "XXH_istate64 \<Rightarrow> u64 \<Rightarrow> XXH_istate64" where
  "XXH64_reset state seed =
     state\<lparr>seed64 := seed, v64 := XXH64_init seed, total_len64 := 0, memsize64 := 0\<rparr>"

definition XXH64_update :: "XXH_istate64 \<Rightarrow> u8 list \<Rightarrow> XXH_istate64" where
  "XXH64_update state0 input =
     (let len = length input;
          state = state0\<lparr>total_len64 := total_len64 state0 + of_nat len\<rparr> in
      if memsize64 state + len < 32 then
        state\<lparr>mem64 := memcpy_at (mem64 state) (memsize64 state) input,
              memsize64 := memsize64 state + len\<rparr>
      else
        let (state, p) =
          (if memsize64 state \<noteq> 0 then
             let n = 32 - memsize64 state;
                 m = memcpy_at (mem64 state) (memsize64 state) (take n input) in
             (state\<lparr>mem64 := m, v64 := XXH64_stripe (v64 state) m, memsize64 := 0\<rparr>, drop n input)
           else (state, input));
          (state, p) =
          (if length p \<ge> 32 then
             let (v, p) = XXH64_stripes (v64 state) p in (state\<lparr>v64 := v\<rparr>, p)
           else (state, p))
        in if p \<noteq> []
           then state\<lparr>mem64 := memcpy_at (mem64 state) 0 p, memsize64 := length p\<rparr>
           else state)"

definition XXH64_digest :: "XXH_istate64 \<Rightarrow> u64" where
  "XXH64_digest state =
     (let p = take (memsize64 state) (mem64 state);
          h64 = (if total_len64 state \<ge> 32 then XXH64_converge (v64 state) else seed64 state + PRIME64_5)
      in XXH64_finish (h64 + total_len64 state) p)"

section \<open>The 32-bit hash\<close>

abbreviation (input) PRIME32_1 :: u32 where "PRIME32_1 \<equiv> 2654435761"
abbreviation (input) PRIME32_2 :: u32 where "PRIME32_2 \<equiv> 2246822519"
abbreviation (input) PRIME32_3 :: u32 where "PRIME32_3 \<equiv> 3266489917"
abbreviation (input) PRIME32_4 :: u32 where "PRIME32_4 \<equiv> 668265263"
abbreviation (input) PRIME32_5 :: u32 where "PRIME32_5 \<equiv> 374761393"

type_synonym acc32 = "u32 \<times> u32 \<times> u32 \<times> u32"

definition XXH32_init :: "u32 \<Rightarrow> acc32" where
  "XXH32_init seed = (seed + PRIME32_1 + PRIME32_2, seed + PRIME32_2, seed + 0, seed - PRIME32_1)"

definition XXH32_lane :: "u32 \<Rightarrow> u32 \<Rightarrow> u32" where
  "XXH32_lane v w = XXH_rotl32 (v + w * PRIME32_2) 13 * PRIME32_1"

definition XXH32_stripe :: "acc32 \<Rightarrow> u8 list \<Rightarrow> acc32" where
  "XXH32_stripe v p = (case v of (v1, v2, v3, v4) \<Rightarrow>
     (XXH32_lane v1 (XXH_readLE32 p),
      XXH32_lane v2 (XXH_readLE32 (drop 4 p)),
      XXH32_lane v3 (XXH_readLE32 (drop 8 p)),
      XXH32_lane v4 (XXH_readLE32 (drop 12 p))))"

function XXH32_stripes :: "acc32 \<Rightarrow> u8 list \<Rightarrow> acc32 \<times> u8 list" where
  "XXH32_stripes v p =
     (if 16 \<le> length p then XXH32_stripes (XXH32_stripe v (take 16 p)) (drop 16 p) else (v, p))"
  by auto
termination
  by (relation "measure (\<lambda>(v, p). length p)") auto

declare XXH32_stripes.simps [simp del]

definition XXH32_converge :: "acc32 \<Rightarrow> u32" where
  "XXH32_converge v = (case v of (v1, v2, v3, v4) \<Rightarrow>
     XXH_rotl32 v1 1 + XXH_rotl32 v2 7 + XXH_rotl32 v3 12 + XXH_rotl32 v4 18)"

function XXH32_tail4 :: "u32 \<Rightarrow> u8 list \<Rightarrow> u32 \<times> u8 list" where
  "XXH32_tail4 h32 p =
     (if 4 \<le> length p
      then XXH32_tail4 (XXH_rotl32 (h32 + XXH_readLE32 p * PRIME32_3) 17 * PRIME32_4) (drop 4 p)
      else (h32, p))"
  by auto
termination
  by (relation "measure (\<lambda>(h, p). length p)") auto

declare XXH32_tail4.simps [simp del]

definition XXH32_tail1 :: "u32 \<Rightarrow> u8 list \<Rightarrow> u32" where
  "XXH32_tail1 h32 p = fold (\<lambda>b h. XXH_rotl32 (h + ucast b * PRIME32_5) 11 * PRIME32_1) p h32"

definition XXH32_avalanche :: "u32 \<Rightarrow> u32" where
  "XXH32_avalanche h0 =
     (let h1 = (h0 XOR drop_bit 15 h0) * PRIME32_2;
          h2 = (h1 XOR drop_bit 13 h1) * PRIME32_3
      in h2 XOR drop_bit 16 h2)"

definition XXH32_finish :: "u32 \<Rightarrow> u8 list \<Rightarrow> u32" where
  "XXH32_finish h32 p =
     (let (h32, p) = XXH32_tail4 h32 p in XXH32_avalanche (XXH32_tail1 h32 p))"

definition XXH32 :: "u8 list \<Rightarrow> u32 \<Rightarrow> u32" where
  "XXH32 input seed =
     (let (h32, p) =
        (if length input \<ge> 16
         then let (v, p) = XXH32_stripes (XXH32_init seed) input in (XXH32_converge v, p)
         else (seed + PRIME32_5, input))
      in XXH32_finish (h32 + of_nat (length input)) p)"

record XXH_istate32 =
  total_len32 :: u64
  seed32 :: u32
  v32 :: acc32
  mem32 :: "u8 list"
  memsize32 :: nat

definition XXH32_reset :: "XXH_istate32 \<Rightarrow> u32 \<Rightarrow> XXH_istate32" where
  "XXH32_reset state seed =
     state\<lparr>seed32 := seed, v32 := XXH32_init seed, total_len32 := 0, memsize32 := 0\<rparr>"

definition XXH32_update :: "XXH_istate32 \<Rightarrow> u8 list \<Rightarrow> XXH_istate32" where
  "XXH32_update state0 input =
     (let len = length input;
          state = state0\<lparr>total_len32 := total_len32 state0 + of_nat len\<rparr> in
      if memsize32 state + len < 16 then
        state\<lparr>mem32 := memcpy_at (mem32 state) (memsize32 state) input,
              memsize32 := memsize32 state + len\<rparr>
      else
        let (state, p) =
          (if memsize32 state \<noteq> 0 then
             let n = 16 - memsize32 state;
                 m = memcpy_at (mem32 state) (memsize32 state) (take n input) in
             (state\<lparr>mem32 := m, v32 := XXH32_stripe (v32 state) m, memsize32 := 0\<rparr>, drop n input)
           else (state, input));
          (state, p) =
          (if length p \<ge> 16 then
             let (v, p) = XXH32_stripes (v32 state) p in (state\<lparr>v32 := v\<rparr>, p)
           else (state, p))
        in if p \<noteq> []
           then state\<lparr>mem32 := memcpy_at (mem32 state) 0 p, memsize32 := length p\<rparr>
           else state)"

definition XXH32_digest :: "XXH_istate32 \<Rightarrow> u32" where
  "XXH32_digest state =
     (let p = take (memsize32 state) (mem32 state);
          h32 = (if total_len32 state \<ge> 16 then XXH32_converge (v32 state) else seed32 state + PRIME32_5)
      in XXH32_finish (h32 + ucast (total_len32 state)) p)"

section \<open>Checksums\<close>

record csum_ctx =
  csum_state :: XXH_istate64

definition csum_reset :: "csum_ctx \<Rightarrow> csum_ctx" where
  "csum_reset ctx = ctx\<lparr>csum_state := XXH64_reset (csum_state ctx) 0\<rparr>"

definition csum_update :: "csum_ctx \<Rightarrow> u8 list \<Rightarrow> csum_ctx" where
  "csum_update ctx input = ctx\<lparr>csum_state := XXH64_update (csum_state ctx) input\<rparr>"

definition csum_digest :: "csum_ctx \<Rightarrow> u64" where
  "csum_digest ctx = XXH64_digest (csum_state ctx)"

text \<open>
  The state after the bytes \<open>xs\<close>: the accumulators after its whole stripes
  and, at the front of the buffer, the bytes of the incomplete one.
\<close>

definition XXH64_inv :: "u64 \<Rightarrow> u8 list \<Rightarrow> XXH_istate64 \<Rightarrow> bool" where
  "XXH64_inv seed xs s \<longleftrightarrow>
     seed64 s = seed \<and> total_len64 s = of_nat (length xs) \<and> length (mem64 s) = 32
     \<and> v64 s = fst (XXH64_stripes (XXH64_init seed) xs)
     \<and> memsize64 s = length (snd (XXH64_stripes (XXH64_init seed) xs))
     \<and> take (memsize64 s) (mem64 s) = snd (XXH64_stripes (XXH64_init seed) xs)"

definition XXH32_inv :: "u32 \<Rightarrow> u8 list \<Rightarrow> XXH_istate32 \<Rightarrow> bool" where
  "XXH32_inv seed xs s \<longleftrightarrow>
     seed32 s = seed \<and> total_len32 s = of_nat (length xs) \<and> length (mem32 s) = 16
     \<and> v32 s = fst (XXH32_stripes (XXH32_init seed) xs)
     \<and> memsize32 s = length (snd (XXH32_stripes (XXH32_init seed) xs))
     \<and> take (memsize32 s) (mem32 s) = snd (XXH32_stripes (XXH32_init seed) xs)"

section \<open>Streaming is one-shot hashing\<close>

interpretation xxh64: block_hash 32 XXH64_stripe XXH64_stripes
  by unfold_locales (simp, rule XXH64_stripes.simps)

interpretation xxh32: block_hash 16 XXH32_stripe XXH32_stripes
  by unfold_locales (simp, rule XXH32_stripes.simps)

lemma XXH64_reset_inv: "length (mem64 s) = 32 \<Longrightarrow> XXH64_inv seed [] (XXH64_reset s seed)"
  by (simp add: XXH64_inv_def XXH64_reset_def xxh64.run_short)

lemma XXH32_reset_inv: "length (mem32 s) = 16 \<Longrightarrow> XXH32_inv seed [] (XXH32_reset s seed)"
  by (simp add: XXH32_inv_def XXH32_reset_def xxh32.run_short)

lemma XXH64_update_inv:
  assumes inv: "XXH64_inv seed xs s"
  shows "XXH64_inv seed (xs @ ys) (XXH64_update s ys)"
proof -
  obtain v r where run: "XXH64_stripes (XXH64_init seed) xs = (v, r)"
    by (cases "XXH64_stripes (XXH64_init seed) xs")
  have r: "length r < 32"
    using xxh64.run_rest [of "XXH64_init seed" xs] run by simp
  have s: "seed64 s = seed" "total_len64 s = of_nat (length xs)" "length (mem64 s) = 32" "v64 s = v"
    "memsize64 s = length r" "take (length r) (mem64 s) = r"
    using inv by (auto simp: XXH64_inv_def run)
  have app: "XXH64_stripes (XXH64_init seed) (xs @ ys) = XXH64_stripes v (r @ ys)"
    by (subst xxh64.run_append) (simp add: run)
  consider "length r + length ys < 32" | "r = []" "32 \<le> length ys" | "r \<noteq> []" "32 \<le> length r + length ys"
    by fastforce
  then show ?thesis
  proof cases
    case 1
    then have "XXH64_stripes v (r @ ys) = (v, r @ ys)"
      by (simp add: xxh64.run_short)
    then show ?thesis
      using s r 1 by (simp add: XXH64_inv_def XXH64_update_def app take_memcpy_at Let_def)
  next
    case 2
    obtain v' r' where "XXH64_stripes v ys = (v', r')"
      by (cases "XXH64_stripes v ys")
    moreover from this have "length r' < 32"
      using xxh64.run_rest [of v ys] by simp
    ultimately show ?thesis
      using s 2 by (simp add: XXH64_inv_def XXH64_update_def app take_memcpy_at_take Let_def)
  next
    case 3
    let ?n = "32 - length r"
    let ?m = "memcpy_at (mem64 s) (length r) (take ?n ys)"
    let ?p = "drop ?n ys"
    have m: "?m = r @ take ?n ys"
      using s r 3 take_memcpy_at_take [of "length r" "mem64 s" 32 "take ?n ys"] by simp
    obtain v' r' where e: "XXH64_stripes (XXH64_stripe v ?m) ?p = (v', r')"
      by (cases "XXH64_stripes (XXH64_stripe v ?m) ?p")
    then have run': "XXH64_stripes v (r @ ys) = (v', r')"
      using xxh64.run_fill [OF r 3(2)] m by simp
    have r': "length r' < 32"
      using xxh64.run_rest [of "XXH64_stripe v ?m" ?p] e by simp
    have short: "\<not> 32 \<le> length ?p \<Longrightarrow> v' = XXH64_stripe v ?m \<and> r' = ?p"
      using e xxh64.run_short [of ?p] by simp
    show ?thesis
      using s r r' 3 e short
      by (cases "32 \<le> length ?p")
        (auto simp: XXH64_inv_def XXH64_update_def app run' take_memcpy_at_take Let_def)
  qed
qed

lemma XXH32_update_inv:
  assumes inv: "XXH32_inv seed xs s"
  shows "XXH32_inv seed (xs @ ys) (XXH32_update s ys)"
proof -
  obtain v r where run: "XXH32_stripes (XXH32_init seed) xs = (v, r)"
    by (cases "XXH32_stripes (XXH32_init seed) xs")
  have r: "length r < 16"
    using xxh32.run_rest [of "XXH32_init seed" xs] run by simp
  have s: "seed32 s = seed" "total_len32 s = of_nat (length xs)" "length (mem32 s) = 16" "v32 s = v"
    "memsize32 s = length r" "take (length r) (mem32 s) = r"
    using inv by (auto simp: XXH32_inv_def run)
  have app: "XXH32_stripes (XXH32_init seed) (xs @ ys) = XXH32_stripes v (r @ ys)"
    by (subst xxh32.run_append) (simp add: run)
  consider "length r + length ys < 16" | "r = []" "16 \<le> length ys" | "r \<noteq> []" "16 \<le> length r + length ys"
    by fastforce
  then show ?thesis
  proof cases
    case 1
    then have "XXH32_stripes v (r @ ys) = (v, r @ ys)"
      by (simp add: xxh32.run_short)
    then show ?thesis
      using s r 1 by (simp add: XXH32_inv_def XXH32_update_def app take_memcpy_at Let_def)
  next
    case 2
    obtain v' r' where "XXH32_stripes v ys = (v', r')"
      by (cases "XXH32_stripes v ys")
    moreover from this have "length r' < 16"
      using xxh32.run_rest [of v ys] by simp
    ultimately show ?thesis
      using s 2 by (simp add: XXH32_inv_def XXH32_update_def app take_memcpy_at_take Let_def)
  next
    case 3
    let ?n = "16 - length r"
    let ?m = "memcpy_at (mem32 s) (length r) (take ?n ys)"
    let ?p = "drop ?n ys"
    have m: "?m = r @ take ?n ys"
      using s r 3 take_memcpy_at_take [of "length r" "mem32 s" 16 "take ?n ys"] by simp
    obtain v' r' where e: "XXH32_stripes (XXH32_stripe v ?m) ?p = (v', r')"
      by (cases "XXH32_stripes (XXH32_stripe v ?m) ?p")
    then have run': "XXH32_stripes v (r @ ys) = (v', r')"
      using xxh32.run_fill [OF r 3(2)] m by simp
    have r': "length r' < 16"
      using xxh32.run_rest [of "XXH32_stripe v ?m" ?p] e by simp
    have short: "\<not> 16 \<le> length ?p \<Longrightarrow> v' = XXH32_stripe v ?m \<and> r' = ?p"
      using e xxh32.run_short [of ?p] by simp
    show ?thesis
      using s r r' 3 e short
      by (cases "16 \<le> length ?p")
        (auto simp: XXH32_inv_def XXH32_update_def app run' take_memcpy_at_take Let_def)
  qed
qed

lemma XXH64_digest_inv:
  assumes inv: "XXH64_inv seed xs s" and len: "length xs < 2 ^ 64"
  shows "XXH64_digest s = XXH64 xs seed"
proof -
  have u: "unat (of_nat (length xs) :: u64) = length xs"
    using len by (simp add: unat_of_nat)
  have "32 \<le> (of_nat (length xs) :: u64) \<longleftrightarrow> 32 \<le> length xs"
    by (simp add: word_le_nat_alt u)
  then show ?thesis
    using inv xxh64.run_short [of xs "XXH64_init seed"]
    by (auto simp: XXH64_digest_def XXH64_def XXH64_inv_def Let_def case_prod_beta)
qed

lemma XXH32_digest_inv:
  assumes inv: "XXH32_inv seed xs s" and len: "length xs < 2 ^ 64"
  shows "XXH32_digest s = XXH32 xs seed"
proof -
  have u: "unat (of_nat (length xs) :: u64) = length xs"
    using len by (simp add: unat_of_nat)
  have "16 \<le> (of_nat (length xs) :: u64) \<longleftrightarrow> 16 \<le> length xs"
    by (simp add: word_le_nat_alt u)
  moreover have "ucast (of_nat (length xs) :: u64) = (of_nat (length xs) :: u32)"
    by (metis u of_nat_unat)
  ultimately show ?thesis
    using inv xxh32.run_short [of xs "XXH32_init seed"]
    by (auto simp: XXH32_digest_def XXH32_def XXH32_inv_def Let_def case_prod_beta)
qed

lemma XXH64_updates_inv:
  "XXH64_inv seed xs s \<Longrightarrow> XXH64_inv seed (xs @ concat cs) (fold (\<lambda>c s. XXH64_update s c) cs s)"
proof (induction cs arbitrary: xs s)
  case (Cons c cs)
  then show ?case
    using XXH64_update_inv [OF Cons.prems, of c] Cons.IH [of "xs @ c" "XXH64_update s c"] by simp
qed simp

lemma XXH32_updates_inv:
  "XXH32_inv seed xs s \<Longrightarrow> XXH32_inv seed (xs @ concat cs) (fold (\<lambda>c s. XXH32_update s c) cs s)"
proof (induction cs arbitrary: xs s)
  case (Cons c cs)
  then show ?case
    using XXH32_update_inv [OF Cons.prems, of c] Cons.IH [of "xs @ c" "XXH32_update s c"] by simp
qed simp

lemma csum_updates:
  "csum_state (fold (\<lambda>c ctx. csum_update ctx c) cs ctx) = fold (\<lambda>c s. XXH64_update s c) cs (csum_state ctx)"
  by (induction cs arbitrary: ctx) (simp_all add: csum_update_def)

lemma csum_stream_XXH64:
  assumes "length (mem64 (csum_state ctx)) = 32" "length (concat cs) < 2 ^ 64"
  shows "csum_digest (fold (\<lambda>c ctx. csum_update ctx c) cs (csum_reset ctx)) = XXH64 (concat cs) 0"
proof -
  have "XXH64_inv 0 [] (csum_state (csum_reset ctx))"
    using XXH64_reset_inv [OF assms(1)] by (simp add: csum_reset_def)
  from XXH64_digest_inv [OF XXH64_updates_inv [OF this, of cs]] assms(2) show ?thesis
    by (simp add: csum_digest_def csum_updates)
qed

text \<open>Published test vectors of the two functions.\<close>

lemma XXH64_empty: "XXH64 [] 0 = 0xEF46DB3751D8E999"
  by (simp add: XXH64_def XXH64_finish_def XXH64_tail8.simps XXH64_tail4_def XXH64_tail1_def
      XXH64_avalanche_def Let_def)

lemma XXH32_empty: "XXH32 [] 0 = 0x02CC5D05"
  by (simp add: XXH32_def XXH32_finish_def XXH32_tail4.simps XXH32_tail1_def XXH32_avalanche_def Let_def)

lemma XXH64_abc: "XXH64 [97, 98, 99] 0 = 0x44BC2CF5AD770999"
  by (simp add: XXH64_def XXH64_finish_def XXH64_tail8.simps XXH64_tail4_def XXH64_tail1_def
      XXH64_avalanche_def XXH_rotl64_def Let_def)

section \<open>Properties\<close>

text \<open>
  (C26) Checksums do not depend on how the data is cut: resetting a context and
  updating it with any sequence of pieces, shorter than \<open>2^64\<close> bytes in
  all, gives the one-shot 64-bit hash of their concatenation with seed 0.
\<close>

theorem csum_of_pieces:
  assumes "length (mem64 (csum_state ctx)) = 32" "length (concat cs) < 2 ^ 64"
  shows "csum_digest (fold (\<lambda>c ctx. csum_update ctx c) cs (csum_reset ctx)) = XXH64 (concat cs) 0"
  using csum_stream_XXH64 [OF assms] .

theorem csum_of_pieces_witness:
  "csum_digest (fold (\<lambda>c ctx. csum_update ctx c) [[97], [], [98, 99]]
     (csum_reset \<lparr>csum_state = \<lparr>total_len64 = 5, seed64 = 6, v64 = (1, 2, 3, 4),
        mem64 = replicate 32 7, memsize64 = 9\<rparr>\<rparr>)) = 0x44BC2CF5AD770999"
  by (subst csum_of_pieces) (simp_all add: XXH64_abc)

text \<open>
  (C27) The streaming form of the 32-bit hash agrees with the one-shot form in
  the same way, for every seed.
\<close>

theorem XXH32_of_pieces:
  assumes "length (mem32 s) = 16" "length (concat cs) < 2 ^ 64"
  shows "XXH32_digest (fold (\<lambda>c s. XXH32_update s c) cs (XXH32_reset s seed)) = XXH32 (concat cs) seed"
  using XXH32_digest_inv [OF XXH32_updates_inv [OF XXH32_reset_inv [OF assms(1)]]] assms(2) by simp

theorem XXH32_of_pieces_witness:
  "XXH32_digest (fold (\<lambda>c s. XXH32_update s c) [[], []]
     (XXH32_reset \<lparr>total_len32 = 5, seed32 = 6, v32 = (1, 2, 3, 4), mem32 = replicate 16 7, memsize32 = 9\<rparr> 0))
   = 0x02CC5D05"
  by (subst XXH32_of_pieces) (simp_all add: XXH32_empty)

end
