(* ===== verification/Dio.thy ===== *)
theory Dio
  imports Xxhash Crt_Util "HOL-Library.RBT"
begin

text \<open>
  The cluster cache of \<open>src/core/dio.c\<close>: clusters of up to sixteen pages,
  kept in a radix tree by index (here a search tree of the library), read from
  the block device on first use, written back by sync, aged by a timer and
  evicted, oldest first, when there are too many.  The model is the sequential
  behaviour of each operation: locks are always free, and an operation that
  would stop on a \<open>BUG_ON\<close> or wait for ever has the result None.

  The block device, the page allocator and the kernel's \<open>sort\<close> are outside
  the sources.  The device state carries the outcomes of the coming I/O requests
  and allocations; a list that is used up stands for success.
\<close>

section \<open>State\<close>

abbreviation (input) PAGE_SHIFT :: nat where "PAGE_SHIFT \<equiv> 12"
abbreviation (input) DIO_CLU_MAX_PAGES :: nat where "DIO_CLU_MAX_PAGES \<equiv> 16"

record dio_cluster =
  clu_ref :: int
  pin_count :: int
  clu_index :: u64
  CLU_INV :: bool
  CLU_DIRTY :: bool
  CLU_READ :: bool
  CLU_READ_START :: bool
  CLU_RELS :: bool
  clu_pages :: "u8 list list"
  clu_clu_size :: nat
  clu_age :: u64
  read_comp :: nat
  clu_err :: int

text \<open>
  Clusters on the device are named by their first sector.  An I/O outcome is an
  error number, and for a failed write what the sectors hold afterwards.
\<close>

record dio_dev =
  dev_ref :: int
  clus_root :: "(u64, dio_cluster) rbt"
  dev_clu_size :: nat
  nr_clus :: nat
  nr_max_clus :: nat
  disk :: "u64 \<Rightarrow> u8 list"
  io_out :: "(int \<times> u8 list) list"
  mem_out :: "bool list"
  fresh_page :: "u8 list"

definition next_mem :: "dio_dev \<Rightarrow> bool \<times> dio_dev" where
  "next_mem dev = (case mem_out dev of [] \<Rightarrow> (True, dev) | b # bs \<Rightarrow> (b, dev\<lparr>mem_out := bs\<rparr>))"

definition next_io :: "dio_dev \<Rightarrow> (int \<times> u8 list) \<times> dio_dev" where
  "next_io dev = (case io_out dev of [] \<Rightarrow> ((0, []), dev) | r # rs \<Rightarrow> (r, dev\<lparr>io_out := rs\<rparr>))"

section \<open>Pages\<close>

definition dio_pages_sum :: "csum_ctx \<Rightarrow> u8 list list \<Rightarrow> u64" where
  "dio_pages_sum ctx pages = csum_digest (fold (\<lambda>p ctx. csum_update ctx p) pages (csum_reset ctx))"

text \<open>The loop of \<open>dio_pages_io\<close>, once for each direction.\<close>

function dio_pages_read_loop ::
  "u8 list list \<Rightarrow> nat \<Rightarrow> nat \<Rightarrow> nat \<Rightarrow> nat \<Rightarrow> u8 list \<Rightarrow> u8 list option" where
  "dio_pages_read_loop pages len done pg_idx pg_off buf =
     (if done < len then
        if pg_idx \<ge> length pages then None
        else let step = (if len - done > PAGE_SIZE - pg_off then PAGE_SIZE - pg_off else len - done) in
          dio_pages_read_loop pages len (done + step) (pg_idx + 1) 0
            (buf @ take step (drop pg_off (pages ! pg_idx)))
      else Some buf)"
  by auto
termination
  by (relation "measure (\<lambda>(pages, len, done, pg_idx, pg_off, buf). length pages - pg_idx)") auto

function dio_pages_write_loop ::
  "u8 list list \<Rightarrow> u8 list \<Rightarrow> nat \<Rightarrow> nat \<Rightarrow> nat \<Rightarrow> u8 list list option" where
  "dio_pages_write_loop pages buf done pg_idx pg_off =
     (if done < length buf then
        if pg_idx \<ge> length pages then None
        else let step = (if length buf - done > PAGE_SIZE - pg_off then PAGE_SIZE - pg_off else length buf - done) in
          dio_pages_write_loop
            (pages[pg_idx := memcpy_at (pages ! pg_idx) pg_off (take step (drop done buf))])
            buf (done + step) (pg_idx + 1) 0
      else Some pages)"
  by auto
termination
  by (relation "measure (\<lambda>(pages, buf, done, pg_idx, pg_off). length pages - pg_idx)") auto

declare dio_pages_read_loop.simps [simp del] dio_pages_write_loop.simps [simp del]

definition dio_pages_read :: "u8 list list \<Rightarrow> nat \<Rightarrow> nat \<Rightarrow> u8 list option" where
  "dio_pages_read pages off len = do {
     assert_that (\<not> off + len > length pages * PAGE_SIZE);
     dio_pages_read_loop pages len 0 (off div PAGE_SIZE) (off mod PAGE_SIZE) []
   }"

definition dio_pages_write :: "u8 list list \<Rightarrow> u8 list \<Rightarrow> nat \<Rightarrow> u8 list list option" where
  "dio_pages_write pages buf off = do {
     assert_that (\<not> off + length buf > length pages * PAGE_SIZE);
     dio_pages_write_loop pages buf 0 (off div PAGE_SIZE) (off mod PAGE_SIZE)
   }"

primrec dio_alloc_loop :: "nat \<Rightarrow> u8 list list \<Rightarrow> dio_dev \<Rightarrow> (int + u8 list list) \<times> dio_dev" where
  "dio_alloc_loop 0 pages dev = (Inr pages, dev)"
| "dio_alloc_loop (Suc n) pages dev =
     (let (ok, dev) = next_mem dev in
      if ok then dio_alloc_loop n (pages @ [fresh_page dev]) dev else (Inl (- ENOMEM), dev))"

definition dio_pages_alloc :: "int \<Rightarrow> dio_dev \<Rightarrow> (int + u8 list list) \<times> dio_dev" where
  "dio_pages_alloc nr_pages dev =
     (if nr_pages \<le> 0 \<or> nr_pages > int DIO_CLU_MAX_PAGES then (Inl (- EINVAL), dev)
      else dio_alloc_loop (nat nr_pages) [] dev)"

section \<open>Devices and clusters\<close>

definition dio_dev_create ::
  "bool \<Rightarrow> (u64 \<Rightarrow> u8 list) \<Rightarrow> u8 list \<Rightarrow> nat \<Rightarrow> nat \<Rightarrow> dio_dev option" where
  "dio_dev_create mem bdev page clu_sz max_clus =
     (if clu_sz mod PAGE_SIZE \<noteq> 0 then None
      else if max_clus = 0 then None
      else if clu_sz > DIO_CLU_MAX_PAGES * PAGE_SIZE then None
      else if \<not> mem then None
      else Some \<lparr>dev_ref = 1, clus_root = RBT.empty, dev_clu_size = clu_sz, nr_clus = 0,
                 nr_max_clus = max_clus, disk = bdev, io_out = [], mem_out = [], fresh_page = page\<rparr>)"

definition dio_clu_alloc :: "dio_dev \<Rightarrow> (dio_cluster option \<times> dio_dev) option" where
  "dio_clu_alloc dev = do {
     assert_that (dev_clu_size dev mod PAGE_SIZE = 0);
     assert_that (\<not> dev_clu_size dev < PAGE_SIZE);
     assert_that (\<not> dev_clu_size dev > DIO_CLU_MAX_PAGES * PAGE_SIZE);
     let nr_pages = dev_clu_size dev div PAGE_SIZE;
     let (ok, dev) = next_mem dev;
     if \<not> ok then Some (None, dev)
     else case dio_pages_alloc (int nr_pages) dev of
       (Inl e, dev) \<Rightarrow> Some (None, dev)
     | (Inr pages, dev) \<Rightarrow>
         Some (Some \<lparr>clu_ref = 1, pin_count = 0, clu_index = 0, CLU_INV = True, CLU_DIRTY = False,
           CLU_READ = False, CLU_READ_START = False, CLU_RELS = False, clu_pages = pages,
           clu_clu_size = dev_clu_size dev, clu_age = 0, read_comp = 0, clu_err = 0\<rparr>, dev)
   }"

definition dio_clu_ref :: "dio_cluster \<Rightarrow> dio_cluster option" where
  "dio_clu_ref c = do {
     assert_that (\<not> clu_ref c \<le> 0);
     Some (c\<lparr>clu_ref := clu_ref c + 1\<rparr>)
   }"

definition dio_clu_pin :: "dio_cluster \<Rightarrow> dio_cluster" where
  "dio_clu_pin c = c\<lparr>pin_count := pin_count c + 1\<rparr>"

definition dio_clu_unpin :: "dio_cluster \<Rightarrow> dio_cluster" where
  "dio_clu_unpin c = c\<lparr>pin_count := pin_count c - 1\<rparr>"

definition dio_clu_pinned :: "dio_cluster \<Rightarrow> bool" where
  "dio_clu_pinned c \<longleftrightarrow> pin_count c \<noteq> 0"

text \<open>The first sector of a cluster, as \<open>dio_io_alloc_bio\<close> computes it.\<close>

definition dio_sector :: "dio_cluster \<Rightarrow> u64" where
  "dio_sector c = clu_index c * of_nat (clu_clu_size c div 512)"

text \<open>
  A write request for all the pages of a cluster, and what its completion does:
  the error number.
\<close>

definition dio_submit_write :: "dio_dev \<Rightarrow> dio_cluster \<Rightarrow> int \<times> dio_dev" where
  "dio_submit_write dev c =
     (let ((err, junk), dev) = next_io dev in
      (err, dev\<lparr>disk := (disk dev)(dio_sector c := (if err = 0 then concat (clu_pages c) else junk))\<rparr>))"

text \<open>
  A read request: without an error the pages hold the sectors and the cluster is
  marked read, which it must not be before.
\<close>

definition dio_submit_read :: "dio_dev \<Rightarrow> dio_cluster \<Rightarrow> (int \<times> dio_dev \<times> dio_cluster) option" where
  "dio_submit_read dev c =
     (let ((err, junk), dev) = next_io dev in
      if err = 0 then do {
        assert_that (\<not> CLU_READ c);
        Some (0, dev, c\<lparr>clu_pages := map (\<lambda>i. take PAGE_SIZE (drop (i * PAGE_SIZE) (disk dev (dio_sector c))))
                                     [0..<length (clu_pages c)],
                        CLU_READ := True\<rparr>)
      } else Some (err, dev, c))"

text \<open>
  \<open>dio_clu_wait_read\<close>.  \<open>read_comp\<close> counts the completions not yet
  consumed: waiting for it with none left is waiting for ever.
\<close>

definition dio_clu_wait_read :: "dio_dev \<Rightarrow> dio_cluster \<Rightarrow> (int \<times> dio_dev \<times> dio_cluster) option" where
  "dio_clu_wait_read dev c =
     (if \<not> CLU_READ_START c then do {
        let c = c\<lparr>CLU_READ_START := True\<rparr>;
        let (ok, dev) = next_mem dev;
        (err, dev, c) \<leftarrow> (if \<not> ok then Some (- ENOMEM, dev, c) else do {
            (err, dev, c) \<leftarrow> dio_submit_read dev c;
            assert_that (\<not> (err = 0 \<and> \<not> CLU_READ c));
            Some (err, dev, c)
          });
        Some (err, dev, c\<lparr>clu_err := err, read_comp := read_comp c + 1\<rparr>)
      } else do {
        assert_that (read_comp c \<noteq> 0);
        Some (clu_err c, dev, c\<lparr>read_comp := read_comp c - 1\<rparr>)
      })"

definition dio_clu_sync :: "dio_dev \<Rightarrow> dio_cluster \<Rightarrow> int \<times> dio_dev \<times> dio_cluster" where
  "dio_clu_sync dev c =
     (if \<not> CLU_DIRTY c then (0, dev, c)
      else let (ok, dev) = next_mem dev in
        if \<not> ok then (- ENOMEM, dev, c)
        else let (err, dev) = dio_submit_write dev c in
          (err, dev, if err = 0 then c\<lparr>CLU_DIRTY := False\<rparr> else c))"

text \<open>
  \<open>dio_clu_deref\<close>: None inside means the cluster was released: synced once
  more if dirty, and freed.
\<close>

definition dio_clu_deref :: "dio_dev \<Rightarrow> dio_cluster \<Rightarrow> (dio_dev \<times> dio_cluster option) option" where
  "dio_clu_deref dev c = do {
     assert_that (\<not> clu_ref c \<le> 0);
     let c = c\<lparr>clu_ref := clu_ref c - 1\<rparr>;
     if clu_ref c = 0 then
       (let c = c\<lparr>CLU_RELS := True\<rparr>;
            (err, dev, c) = (if CLU_DIRTY c then dio_clu_sync dev c else (0, dev, c))
        in Some (dev, None))
     else Some (dev, Some c)
   }"

text \<open>Operations on a cluster by its index, that is on the pointer the tree holds.\<close>

definition with_clu ::
  "dio_dev \<Rightarrow> u64 \<Rightarrow> (dio_dev \<Rightarrow> dio_cluster \<Rightarrow> ('r \<times> dio_dev \<times> dio_cluster) option) \<Rightarrow> ('r \<times> dio_dev) option" where
  "with_clu dev i f = do {
     c \<leftarrow> RBT.lookup (clus_root dev) i;
     (r, dev, c) \<leftarrow> f dev c;
     Some (r, dev\<lparr>clus_root := RBT.insert i c (clus_root dev)\<rparr>)
   }"

definition dio_clu_lookup_create :: "dio_dev \<Rightarrow> u64 \<Rightarrow> (bool \<times> dio_dev) option" where
  "dio_clu_lookup_create dev index =
     (case RBT.lookup (clus_root dev) index of
        Some c \<Rightarrow> do {
          c \<leftarrow> dio_clu_ref c;
          let c = dio_clu_pin c;
          let c = c\<lparr>clu_age := clu_age c OR push_bit 63 1\<rparr>;
          Some (True, dev\<lparr>clus_root := RBT.insert index c (clus_root dev)\<rparr>)
        }
      | None \<Rightarrow> do {
          (new, dev) \<leftarrow> dio_clu_alloc dev;
          case new of
            None \<Rightarrow> Some (False, dev)
          | Some c \<Rightarrow> do {
              let c = c\<lparr>clu_index := index\<rparr>;
              let (ok, dev) = next_mem dev;
              if \<not> ok then do {
                (dev, _) \<leftarrow> dio_clu_deref dev c;
                Some (False, dev)
              } else do {
                c \<leftarrow> dio_clu_ref c;
                let dev = dev\<lparr>nr_clus := nr_clus dev + 1\<rparr>;
                c \<leftarrow> dio_clu_ref c;
                let c = dio_clu_pin c;
                let c = c\<lparr>clu_age := clu_age c OR push_bit 63 1\<rparr>;
                Some (True, dev\<lparr>clus_root := RBT.insert index c (clus_root dev)\<rparr>)
              }
            }
        })"

definition dio_clu_remove :: "dio_dev \<Rightarrow> u64 \<Rightarrow> (dio_cluster option \<times> dio_dev) option" where
  "dio_clu_remove dev index =
     (case RBT.lookup (clus_root dev) index of
        None \<Rightarrow> Some (None, dev)
      | Some c \<Rightarrow>
          if dio_clu_pinned c then Some (None, dev)
          else do {
            assert_that (clu_index c = index);
            Some (Some c, dev\<lparr>clus_root := RBT.delete index (clus_root dev), nr_clus := nr_clus dev - 1\<rparr>)
          })"

definition dio_clu_put :: "dio_dev \<Rightarrow> u64 \<Rightarrow> dio_dev option" where
  "dio_clu_put dev i = do {
     c \<leftarrow> RBT.lookup (clus_root dev) i;
     (dev, c) \<leftarrow> dio_clu_deref dev (dio_clu_unpin c);
     Some (case c of
         None \<Rightarrow> dev\<lparr>clus_root := RBT.delete i (clus_root dev)\<rparr>
       | Some c \<Rightarrow> dev\<lparr>clus_root := RBT.insert i c (clus_root dev)\<rparr>)
   }"

definition dio_clu_get :: "dio_dev \<Rightarrow> u64 \<Rightarrow> (bool \<times> dio_dev) option" where
  "dio_clu_get dev index = do {
     (ok, dev) \<leftarrow> dio_clu_lookup_create dev index;
     if \<not> ok then Some (False, dev)
     else do {
       c \<leftarrow> RBT.lookup (clus_root dev) index;
       if \<not> CLU_READ c then do {
         (err, dev) \<leftarrow> with_clu dev index dio_clu_wait_read;
         if err \<noteq> 0 then do {
           dev \<leftarrow> dio_clu_put dev index;
           Some (False, dev)
         } else Some (True, dev)
       } else Some (True, dev)
     }
   }"

definition dio_clu_read :: "dio_dev \<Rightarrow> u64 \<Rightarrow> nat \<Rightarrow> nat \<Rightarrow> ((int \<times> u8 list) \<times> dio_dev) option" where
  "dio_clu_read dev i len off = with_clu dev i (\<lambda>dev c. do {
     assert_that (\<not> off + len > clu_clu_size c);
     (err, dev, c) \<leftarrow> (if \<not> CLU_READ c then dio_clu_wait_read dev c else Some (0, dev, c));
     if err \<noteq> 0 then Some ((err, []), dev, c)
     else do {
       buf \<leftarrow> dio_pages_read (clu_pages c) off len;
       Some ((0, buf), dev, c)
     }
   })"

definition dio_clu_write :: "dio_dev \<Rightarrow> u64 \<Rightarrow> u8 list \<Rightarrow> nat \<Rightarrow> (int \<times> dio_dev) option" where
  "dio_clu_write dev i buf off = with_clu dev i (\<lambda>dev c. do {
     assert_that (\<not> off + length buf > clu_clu_size c);
     (err, dev, c) \<leftarrow> (if \<not> CLU_READ c then dio_clu_wait_read dev c else Some (0, dev, c));
     if err \<noteq> 0 then Some (err, dev, c)
     else do {
       assert_that (CLU_READ c);
       pages \<leftarrow> dio_pages_write (clu_pages c) buf off;
       Some (0, dev, c\<lparr>CLU_DIRTY := True, clu_pages := pages\<rparr>)
     }
   })"

primrec dio_clu_zero_loop :: "nat \<Rightarrow> nat \<Rightarrow> u64 \<Rightarrow> dio_dev \<Rightarrow> (int \<times> dio_dev) option" where
  "dio_clu_zero_loop 0 off i dev = Some (0, dev)"
| "dio_clu_zero_loop (Suc n) off i dev = do {
     (err, dev) \<leftarrow> dio_clu_write dev i (replicate PAGE_SIZE 0) off;
     if err \<noteq> 0 then Some (err, dev) else dio_clu_zero_loop n (off + PAGE_SIZE) i dev
   }"

definition dio_clu_zero :: "dio_dev \<Rightarrow> u64 \<Rightarrow> (int \<times> dio_dev) option" where
  "dio_clu_zero dev i =
     (let (ok, dev) = next_mem dev in
      if \<not> ok then Some (- ENOMEM, dev)
      else do {
        c \<leftarrow> RBT.lookup (clus_root dev) i;
        dio_clu_zero_loop (length (clu_pages c)) 0 i dev
      })"

definition dio_clu_sync_index :: "dio_dev \<Rightarrow> u64 \<Rightarrow> (int \<times> dio_dev) option" where
  "dio_clu_sync_index dev i = with_clu dev i (\<lambda>dev c. Some (dio_clu_sync dev c))"

definition dio_clu_set_dirty :: "dio_dev \<Rightarrow> u64 \<Rightarrow> (unit \<times> dio_dev) option" where
  "dio_clu_set_dirty dev i = with_clu dev i (\<lambda>dev c. Some ((), dev, c\<lparr>CLU_DIRTY := True\<rparr>))"

text \<open>\<open>dio_clu_map\<close>: the page and the offset in it that the pointer names.\<close>

definition dio_clu_map :: "dio_cluster \<Rightarrow> nat \<Rightarrow> (nat \<times> nat) option" where
  "dio_clu_map c off = do {
     assert_that (\<not> off > clu_clu_size c);
     let pg_idx = off div PAGE_SIZE;
     let pg_off = off mod PAGE_SIZE;
     assert_that (\<not> pg_idx \<ge> length (clu_pages c));
     Some (pg_idx, pg_off)
   }"

section \<open>Ageing and eviction\<close>

definition dio_clu_age :: "dio_cluster \<Rightarrow> dio_cluster" where
  "dio_clu_age c = c\<lparr>clu_age := drop_bit 1 (clu_age c)\<rparr>"

definition dio_clus_age :: "dio_dev \<Rightarrow> dio_dev" where
  "dio_clus_age dev = dev\<lparr>clus_root := RBT.map (\<lambda>i c. dio_clu_age c) (clus_root dev)\<rparr>"

text \<open>
  The batches of \<open>radix_tree_gang_lookup\<close> visit the clusters in the order of
  their index; up to 512 unpinned ones (a page of pointers) are collected.
\<close>

definition dio_lru_nodes :: "dio_dev \<Rightarrow> u64 list" where
  "dio_lru_nodes dev =
     take (PAGE_SIZE div 8)
       (filter (\<lambda>i. case RBT.lookup (clus_root dev) i of None \<Rightarrow> False | Some c \<Rightarrow> \<not> dio_clu_pinned c)
          (RBT.keys (clus_root dev)))"

definition dio_lru_age :: "dio_dev \<Rightarrow> u64 \<Rightarrow> u64" where
  "dio_lru_age dev i = (case RBT.lookup (clus_root dev) i of None \<Rightarrow> 0 | Some c \<Rightarrow> clu_age c)"

text \<open>The references the batches take on the collected clusters.\<close>

definition dio_ref_index :: "dio_dev \<Rightarrow> u64 \<Rightarrow> dio_dev option" where
  "dio_ref_index dev i = do {
     c \<leftarrow> RBT.lookup (clus_root dev) i;
     c \<leftarrow> dio_clu_ref c;
     Some (dev\<lparr>clus_root := RBT.insert i c (clus_root dev)\<rparr>)
   }"

primrec dio_ref_all :: "u64 list \<Rightarrow> dio_dev \<Rightarrow> dio_dev option" where
  "dio_ref_all [] dev = Some dev"
| "dio_ref_all (i # is) dev = do {
     dev \<leftarrow> dio_ref_index dev i;
     dio_ref_all is dev
   }"

text \<open>
  One step of the eviction loop: a removed cluster is synced and loses the
  references of the tree and of its allocation; \<open>gone\<close> collects the removed
  clusters, which the batch still references.
\<close>

definition dio_lru_evict ::
  "u64 \<Rightarrow> dio_dev \<times> (u64 \<times> dio_cluster) list \<Rightarrow> (dio_dev \<times> (u64 \<times> dio_cluster) list) option" where
  "dio_lru_evict i s =
     (let (dev, gone) = s in
      if nr_clus dev > nr_max_clus dev then do {
        (removed, dev) \<leftarrow> dio_clu_remove dev i;
        case removed of
          None \<Rightarrow> Some (dev, gone)
        | Some c \<Rightarrow> do {
            let (err, dev, c) = dio_clu_sync dev c;
            (dev, c) \<leftarrow> dio_clu_deref dev c;
            c \<leftarrow> c;
            (dev, c) \<leftarrow> dio_clu_deref dev c;
            c \<leftarrow> c;
            Some (dev, (i, c) # gone)
          }
      } else Some (dev, gone))"

primrec dio_lru_loop ::
  "u64 list \<Rightarrow> dio_dev \<times> (u64 \<times> dio_cluster) list \<Rightarrow> (dio_dev \<times> (u64 \<times> dio_cluster) list) option" where
  "dio_lru_loop [] s = Some s"
| "dio_lru_loop (i # is) s = do {
     s \<leftarrow> dio_lru_evict i s;
     dio_lru_loop is s
   }"

text \<open>The last loop drops the batch's references, which frees the removed clusters.\<close>

definition dio_deref_index :: "(u64 \<times> dio_cluster) list \<Rightarrow> u64 \<Rightarrow> dio_dev \<Rightarrow> dio_dev option" where
  "dio_deref_index gone i dev =
     (case map_of gone i of
        Some c \<Rightarrow> do {
          (dev, _) \<leftarrow> dio_clu_deref dev c;
          Some dev
        }
      | None \<Rightarrow> do {
          c \<leftarrow> RBT.lookup (clus_root dev) i;
          (dev, c) \<leftarrow> dio_clu_deref dev c;
          c \<leftarrow> c;
          Some (dev\<lparr>clus_root := RBT.insert i c (clus_root dev)\<rparr>)
        })"

primrec dio_deref_all :: "(u64 \<times> dio_cluster) list \<Rightarrow> u64 list \<Rightarrow> dio_dev \<Rightarrow> dio_dev option" where
  "dio_deref_all gone [] dev = Some dev"
| "dio_deref_all gone (i # is) dev = do {
     dev \<leftarrow> dio_deref_index gone i dev;
     dio_deref_all gone is dev
   }"

text \<open>\<open>srt\<close> is the kernel's \<open>sort\<close> with \<open>dio_clu_age_cmp\<close>: the ages and the nodes.\<close>

definition dio_clus_lru_frees ::
  "((u64 \<Rightarrow> u64) \<Rightarrow> u64 list \<Rightarrow> u64 list) \<Rightarrow> dio_dev \<Rightarrow> (int \<times> dio_dev) option" where
  "dio_clus_lru_frees srt dev =
     (if nr_clus dev \<le> nr_max_clus dev then Some (0, dev)
      else let (ok, dev) = next_mem dev in
        if \<not> ok then Some (- ENOMEM, dev)
        else do {
          let nodes = dio_lru_nodes dev;
          dev \<leftarrow> dio_ref_all nodes dev;
          let nodes = srt (dio_lru_age dev) nodes;
          (dev, gone) \<leftarrow> dio_lru_loop nodes (dev, []);
          dev \<leftarrow> dio_deref_all gone nodes dev;
          Some (0, dev)
        })"

text \<open>\<open>dio_clus_shrink\<close> repeats that until the limit is met, for ever if it cannot be.\<close>

partial_function (option) dio_clus_shrink ::
  "((u64 \<Rightarrow> u64) \<Rightarrow> u64 list \<Rightarrow> u64 list) \<Rightarrow> dio_dev \<Rightarrow> dio_dev option" where
  "dio_clus_shrink srt dev =
     (if nr_clus dev > nr_max_clus dev then do {
        (err, dev) \<leftarrow> dio_clus_lru_frees srt dev;
        dio_clus_shrink srt dev
      } else Some dev)"

section \<open>Release of a device\<close>

definition dio_clu_release_one :: "u64 \<Rightarrow> dio_dev \<Rightarrow> dio_dev option" where
  "dio_clu_release_one i dev = do {
     dev \<leftarrow> dio_ref_index dev i;
     c \<leftarrow> RBT.lookup (clus_root dev) i;
     let dev = dev\<lparr>clus_root := RBT.insert i (c\<lparr>pin_count := 0\<rparr>) (clus_root dev)\<rparr>;
     (removed, dev) \<leftarrow> dio_clu_remove dev (clu_index c);
     c \<leftarrow> removed;
     let (err, dev, c) = dio_clu_sync dev c;
     (dev, c) \<leftarrow> dio_clu_deref dev c;
     c \<leftarrow> c;
     (dev, c) \<leftarrow> dio_clu_deref dev c;
     c \<leftarrow> c;
     (dev, c) \<leftarrow> dio_clu_deref dev c;
     Some dev
   }"

primrec dio_clus_release_loop :: "u64 list \<Rightarrow> dio_dev \<Rightarrow> dio_dev option" where
  "dio_clus_release_loop [] dev = Some dev"
| "dio_clus_release_loop (i # is) dev = do {
     dev \<leftarrow> dio_clu_release_one i dev;
     dio_clus_release_loop is dev
   }"

definition dio_clus_release :: "dio_dev \<Rightarrow> dio_dev option" where
  "dio_clus_release dev = do {
     dev \<leftarrow> dio_clus_release_loop (RBT.keys (clus_root dev)) dev;
     assert_that (nr_clus dev = 0);
     Some dev
   }"

text \<open>\<open>dio_dev_ref\<close>, \<open>dio_dev_deref\<close> and \<open>dio_dev_release\<close>.\<close>

definition dio_dev_ref :: "dio_dev \<Rightarrow> dio_dev option" where
  "dio_dev_ref dev = do {
     assert_that (\<not> dev_ref dev \<le> 0);
     Some (dev\<lparr>dev_ref := dev_ref dev + 1\<rparr>)
   }"

definition dio_dev_deref :: "dio_dev \<Rightarrow> dio_dev option" where
  "dio_dev_deref dev = do {
     assert_that (\<not> dev_ref dev \<le> 0);
     let dev = dev\<lparr>dev_ref := dev_ref dev - 1\<rparr>;
     if dev_ref dev = 0 then dio_clus_release dev else Some dev
   }"

definition dio_clu_sum :: "csum_ctx \<Rightarrow> dio_cluster \<Rightarrow> u64" where
  "dio_clu_sum ctx c = dio_pages_sum ctx (clu_pages c)"

section \<open>The timer's work items\<close>

definition dio_clus_age_work :: "dio_dev list \<Rightarrow> dio_dev list" where
  "dio_clus_age_work devs = map dio_clus_age devs"

primrec dio_clus_shrink_work ::
  "((u64 \<Rightarrow> u64) \<Rightarrow> u64 list \<Rightarrow> u64 list) \<Rightarrow> dio_dev list \<Rightarrow> dio_dev list option" where
  "dio_clus_shrink_work srt [] = Some []"
| "dio_clus_shrink_work srt (dev # devs) = do {
     dev \<leftarrow> dio_clus_shrink srt dev;
     devs \<leftarrow> dio_clus_shrink_work srt devs;
     Some (dev # devs)
   }"

section \<open>The pages of a cluster as one buffer\<close>

definition pages_wf :: "u8 list list \<Rightarrow> bool" where
  "pages_wf pages \<longleftrightarrow> (\<forall>p\<in>set pages. length p = PAGE_SIZE)"

lemma length_concat_pages: "pages_wf pages \<Longrightarrow> length (concat pages) = length pages * PAGE_SIZE"
  by (induction pages) (auto simp: pages_wf_def)

lemma drop_concat_pages:
  assumes "pages_wf pages" "i < length pages" "o1 \<le> PAGE_SIZE"
  shows "drop (i * PAGE_SIZE + o1) (concat pages) = drop o1 (pages ! i) @ drop ((i + 1) * PAGE_SIZE) (concat pages)"
  using assms
proof (induction i arbitrary: pages)
  case 0
  then obtain p ps where "pages = p # ps" by (cases pages) auto
  then show ?case using 0 by (simp add: pages_wf_def)
next
  case (Suc i)
  then obtain p ps where p: "pages = p # ps" by (cases pages) auto
  then have "drop (Suc i * PAGE_SIZE + o1) (concat pages) = drop (i * PAGE_SIZE + o1) (concat ps)"
    "drop ((Suc i + 1) * PAGE_SIZE) (concat pages) = drop ((i + 1) * PAGE_SIZE) (concat ps)"
    using Suc.prems by (simp_all add: pages_wf_def)
  then show ?case
    using Suc p by (simp add: pages_wf_def)
qed

lemma read_loop:
  assumes wf: "pages_wf pages" and off: "pg_off < PAGE_SIZE"
    and bnd: "pg_idx * PAGE_SIZE + pg_off + (len - n) \<le> length pages * PAGE_SIZE" and le: "n \<le> len"
  shows "dio_pages_read_loop pages len n pg_idx pg_off buf
       = Some (buf @ take (len - n) (drop (pg_idx * PAGE_SIZE + pg_off) (concat pages)))"
  using off bnd le
proof (induction "length pages - pg_idx" arbitrary: pg_idx pg_off n buf rule: less_induct)
  case less
  show ?case
  proof (cases "n < len")
    case False
    then show ?thesis
      using less.prems by (subst dio_pages_read_loop.simps) simp
  next
    case True
    then have idx: "pg_idx < length pages"
      using less.prems by linarith
    let ?s = "if len - n > PAGE_SIZE - pg_off then PAGE_SIZE - pg_off else len - n"
    have "dio_pages_read_loop pages len n pg_idx pg_off buf
        = dio_pages_read_loop pages len (n + ?s) (pg_idx + 1) 0 (buf @ take ?s (drop pg_off (pages ! pg_idx)))"
      using True idx by (subst dio_pages_read_loop.simps) (simp add: Let_def)
    also have "\<dots> = Some ((buf @ take ?s (drop pg_off (pages ! pg_idx)))
        @ take (len - (n + ?s)) (drop ((pg_idx + 1) * PAGE_SIZE + 0) (concat pages)))"
      by (rule less.hyps) (use idx less.prems True in auto)
    finally have "dio_pages_read_loop pages len n pg_idx pg_off buf = Some ((buf @ take ?s (drop pg_off (pages ! pg_idx)))
        @ take (len - (n + ?s)) (drop ((pg_idx + 1) * PAGE_SIZE + 0) (concat pages)))" .
    moreover have "take ?s (drop pg_off (pages ! pg_idx)) @ take (len - (n + ?s)) (drop ((pg_idx + 1) * PAGE_SIZE) (concat pages))
        = take (len - n) (drop (pg_idx * PAGE_SIZE + pg_off) (concat pages))"
    proof -
      have "length (drop pg_off (pages ! pg_idx)) = PAGE_SIZE - pg_off"
        using wf idx by (simp add: pages_wf_def)
      then show ?thesis
        using drop_concat_pages [OF wf idx, of pg_off] less.prems by auto
    qed
    ultimately show ?thesis
      by (simp only: append.assoc add_0_right)
  qed
qed

lemma memcpy_at_append_left:
  "off + length src \<le> length xs \<Longrightarrow> memcpy_at (xs @ ys) off src = memcpy_at xs off src @ ys"
  by (simp add: memcpy_at_def)

lemma memcpy_at_append_right:
  "memcpy_at (xs @ ys) (length xs + off) src = xs @ memcpy_at ys off src"
  by (simp add: memcpy_at_def)

lemma memcpy_at_empty [simp]: "memcpy_at xs off [] = xs"
  by (simp add: memcpy_at_def)

lemma memcpy_at_split:
  "memcpy_at (memcpy_at xs off a) (off + length a) b = memcpy_at xs off (a @ b)" if "off + length a \<le> length xs"
  using that by (simp add: memcpy_at_def ac_simps)

lemma concat_update_page:
  assumes "pages_wf pages" "i < length pages" "o1 + length src \<le> PAGE_SIZE"
  shows "concat (pages[i := memcpy_at (pages ! i) o1 src]) = memcpy_at (concat pages) (i * PAGE_SIZE + o1) src"
  using assms
proof (induction pages arbitrary: i)
  case (Cons p ps)
  show ?case
  proof (cases i)
    case 0
    then show ?thesis
      using Cons by (simp add: memcpy_at_append_left pages_wf_def)
  next
    case (Suc j)
    have "memcpy_at (p @ concat ps) (length p + (j * PAGE_SIZE + o1)) src = p @ memcpy_at (concat ps) (j * PAGE_SIZE + o1) src"
      by (rule memcpy_at_append_right)
    then show ?thesis
      using Cons Suc by (simp add: pages_wf_def add.assoc)
  qed
qed simp

lemma pages_wf_update:
  "pages_wf pages \<Longrightarrow> i < length pages \<Longrightarrow> o1 + length src \<le> PAGE_SIZE \<Longrightarrow>
   pages_wf (pages[i := memcpy_at (pages ! i) o1 src])"
  unfolding pages_wf_def by (auto dest!: subsetD [OF set_update_subset_insert])

lemma write_loop:
  assumes "pages_wf pages" "pg_off < PAGE_SIZE"
    and "pg_idx * PAGE_SIZE + pg_off + (length buf - n) \<le> length pages * PAGE_SIZE" "n \<le> length buf"
  shows "\<exists>pages'. dio_pages_write_loop pages buf n pg_idx pg_off = Some pages'
     \<and> pages_wf pages' \<and> length pages' = length pages
     \<and> concat pages' = memcpy_at (concat pages) (pg_idx * PAGE_SIZE + pg_off) (drop n buf)"
  using assms
proof (induction "length pages - pg_idx" arbitrary: pages pg_idx pg_off n rule: less_induct)
  case less
  show ?case
  proof (cases "n < length buf")
    case False
    then show ?thesis
      using less.prems by (subst dio_pages_write_loop.simps) simp
  next
    case True
    then have idx: "pg_idx < length pages"
      using less.prems by linarith
    let ?s = "if length buf - n > PAGE_SIZE - pg_off then PAGE_SIZE - pg_off else length buf - n"
    let ?src = "take ?s (drop n buf)"
    let ?pages = "pages[pg_idx := memcpy_at (pages ! pg_idx) pg_off ?src]"
    have src: "length ?src = ?s" "pg_off + length ?src \<le> PAGE_SIZE"
      using less.prems by auto
    have "dio_pages_write_loop pages buf n pg_idx pg_off = dio_pages_write_loop ?pages buf (n + ?s) (pg_idx + 1) 0"
      using True idx by (subst dio_pages_write_loop.simps) (simp add: Let_def)
    moreover have "\<exists>pages'. dio_pages_write_loop ?pages buf (n + ?s) (pg_idx + 1) 0 = Some pages'
     \<and> pages_wf pages' \<and> length pages' = length ?pages
     \<and> concat pages' = memcpy_at (concat ?pages) ((pg_idx + 1) * PAGE_SIZE + 0) (drop (n + ?s) buf)"
      by (rule less.hyps) (use idx less.prems True src pages_wf_update in auto)
    moreover have "memcpy_at (concat ?pages) ((pg_idx + 1) * PAGE_SIZE) (drop (n + ?s) buf)
        = memcpy_at (concat pages) (pg_idx * PAGE_SIZE + pg_off) (drop n buf)"
    proof (cases "?s = length buf - n")
      case True
      then show ?thesis
        using concat_update_page [OF less.prems(1) idx src(2)] by simp
    next
      case False
      then have s: "?s = PAGE_SIZE - pg_off" by argo
      have "length ?src = PAGE_SIZE - pg_off"
        using src(1) s by (simp only:)
      then have e1: "(pg_idx + 1) * PAGE_SIZE = pg_idx * PAGE_SIZE + pg_off + length ?src"
        by (rule ssubst) (use less.prems(2) in simp)
      have e2: "?src @ drop (n + ?s) buf = drop n buf"
        by (simp only: add.commute [of n] drop_drop [symmetric] append_take_drop_id)
      have e3: "pg_idx * PAGE_SIZE + pg_off + length ?src \<le> length (concat pages)"
        using idx src(2) length_concat_pages [OF less.prems(1)] by linarith
      have "memcpy_at (concat ?pages) ((pg_idx + 1) * PAGE_SIZE) (drop (n + ?s) buf)
          = memcpy_at (memcpy_at (concat pages) (pg_idx * PAGE_SIZE + pg_off) ?src)
              (pg_idx * PAGE_SIZE + pg_off + length ?src) (drop (n + ?s) buf)"
        by (simp only: e1 concat_update_page [OF less.prems(1) idx src(2)])
      also have "\<dots> = memcpy_at (concat pages) (pg_idx * PAGE_SIZE + pg_off) (?src @ drop (n + ?s) buf)"
        by (rule memcpy_at_split [OF e3])
      finally show ?thesis
        by (simp only: e2)
    qed
    ultimately show ?thesis
      by simp
  qed
qed

lemma dio_pages_read_flat:
  assumes "pages_wf pages" "off + len \<le> length pages * PAGE_SIZE"
  shows "dio_pages_read pages off len = Some (take len (drop off (concat pages)))"
  using assms read_loop [OF assms(1), of "off mod PAGE_SIZE" "off div PAGE_SIZE" len 0 "[]"]
  by (simp add: dio_pages_read_def)

lemma dio_pages_write_flat:
  assumes "pages_wf pages" "off + length buf \<le> length pages * PAGE_SIZE"
  shows "\<exists>pages'. dio_pages_write pages buf off = Some pages' \<and> pages_wf pages' \<and> length pages' = length pages
     \<and> concat pages' = memcpy_at (concat pages) off buf"
  using assms write_loop [OF assms(1), of "off mod PAGE_SIZE" "off div PAGE_SIZE" buf 0]
  by (simp add: dio_pages_write_def)

end
