(* ===== verification/Dio_Inv.thy ===== *)
theory Dio_Inv
  imports Dio
begin

text \<open>
  The invariant of the cluster cache and what its operations keep of it.
  \<open>clu_base\<close> and \<open>clu_ok\<close> say what holds of one cached cluster (its reference
  count is two plus its pins, a clean cluster that was read equals the device's
  sectors, a pinned one has been read), \<open>dio_wf\<close> what holds of the device.
  \<open>dio_abs\<close> is what the cache stands for: an array of clusters and the pins.
  The lemmas on the operations hold for all outcomes of allocations and requests.

  An index whose first sector does not fit into 64 bits wraps around onto
  another cluster's sectors; \<open>index_ok\<close> excludes it.
\<close>

section \<open>The invariant\<close>

definition clu_sector :: "nat \<Rightarrow> u64 \<Rightarrow> u64" where
  "clu_sector sz i = i * of_nat (sz div 512)"

definition index_ok :: "nat \<Rightarrow> u64 \<Rightarrow> bool" where
  "index_ok sz i \<longleftrightarrow> unat i * (sz div 512) < 2 ^ 64"

definition dev_ok :: "dio_dev \<Rightarrow> bool" where
  "dev_ok dev \<longleftrightarrow> dev_clu_size dev mod PAGE_SIZE = 0 \<and> PAGE_SIZE \<le> dev_clu_size dev
     \<and> dev_clu_size dev \<le> DIO_CLU_MAX_PAGES * PAGE_SIZE \<and> length (fresh_page dev) = PAGE_SIZE
     \<and> (\<forall>s. length (disk dev s) = dev_clu_size dev)
     \<and> (\<forall>r \<in> set (io_out dev). length (snd r) = dev_clu_size dev)"

definition clu_base :: "dio_dev \<Rightarrow> int \<Rightarrow> u64 \<Rightarrow> dio_cluster \<Rightarrow> bool" where
  "clu_base dev ex i c \<longleftrightarrow> clu_index c = i \<and> clu_clu_size c = dev_clu_size dev
     \<and> pages_wf (clu_pages c) \<and> length (clu_pages c) * PAGE_SIZE = dev_clu_size dev
     \<and> 0 \<le> pin_count c \<and> clu_ref c = 2 + pin_count c + ex
     \<and> (CLU_DIRTY c \<longrightarrow> CLU_READ c)
     \<and> (CLU_READ c \<and> \<not> CLU_DIRTY c \<longrightarrow> concat (clu_pages c) = disk dev (clu_sector (dev_clu_size dev) i))
     \<and> (CLU_READ c \<longrightarrow> CLU_READ_START c)
     \<and> (CLU_READ_START c \<and> \<not> CLU_READ c \<longrightarrow> clu_err c \<noteq> 0)"

definition clu_ok :: "dio_dev \<Rightarrow> int \<Rightarrow> u64 \<Rightarrow> dio_cluster \<Rightarrow> bool" where
  "clu_ok dev ex i c \<longleftrightarrow> clu_base dev ex i c \<and> (0 < pin_count c \<longrightarrow> CLU_READ c)"

definition dio_wf_ex :: "(u64 \<Rightarrow> int) \<Rightarrow> dio_dev \<Rightarrow> bool" where
  "dio_wf_ex ex dev \<longleftrightarrow> dev_ok dev \<and> nr_clus dev = card (dom (RBT.lookup (clus_root dev)))
     \<and> (\<forall>i c. RBT.lookup (clus_root dev) i = Some c \<longrightarrow> clu_ok dev (ex i) i c \<and> index_ok (dev_clu_size dev) i)"

abbreviation dio_wf :: "dio_dev \<Rightarrow> bool" where
  "dio_wf \<equiv> dio_wf_ex (\<lambda>i. 0)"

definition env_ok :: "dio_dev \<Rightarrow> bool" where
  "env_ok dev \<longleftrightarrow> io_out dev = [] \<and> mem_out dev = []"

section \<open>What the cache stands for\<close>

record flat_store =
  content :: "u64 \<Rightarrow> u8 list"
  pins :: "u64 \<Rightarrow> nat"

definition clu_view :: "dio_dev \<Rightarrow> u64 \<Rightarrow> dio_cluster option \<Rightarrow> u8 list" where
  "clu_view dev i co = (case co of
      Some c \<Rightarrow> if CLU_READ c then concat (clu_pages c) else disk dev (clu_sector (dev_clu_size dev) i)
    | None \<Rightarrow> disk dev (clu_sector (dev_clu_size dev) i))"

definition dio_view :: "dio_dev \<Rightarrow> u64 \<Rightarrow> u8 list" where
  "dio_view dev i = (if index_ok (dev_clu_size dev) i
     then clu_view dev i (RBT.lookup (clus_root dev) i) else [])"

definition dio_pins :: "dio_dev \<Rightarrow> u64 \<Rightarrow> nat" where
  "dio_pins dev i = (case RBT.lookup (clus_root dev) i of None \<Rightarrow> 0 | Some c \<Rightarrow> nat (pin_count c))"

definition dio_abs :: "dio_dev \<Rightarrow> flat_store" where
  "dio_abs dev = \<lparr>content = dio_view dev, pins = dio_pins dev\<rparr>"

section \<open>Frames\<close>

definition dio_frame :: "u64 \<Rightarrow> dio_dev \<Rightarrow> dio_dev \<Rightarrow> bool" where
  "dio_frame i dev dev' \<longleftrightarrow> dev_ok dev' \<and> dev_clu_size dev' = dev_clu_size dev \<and> nr_max_clus dev' = nr_max_clus dev
     \<and> (\<exists>n. io_out dev' = drop n (io_out dev)) \<and> (\<exists>n. mem_out dev' = drop n (mem_out dev))
     \<and> (\<forall>s. s \<noteq> clu_sector (dev_clu_size dev) i \<longrightarrow> disk dev' s = disk dev s)"

lemma dio_frame_refl: "dev_ok dev \<Longrightarrow> dio_frame i dev dev"
  by (auto simp: dio_frame_def intro: exI [of _ 0])

lemma dio_frame_trans: "dio_frame i a b \<Longrightarrow> dio_frame i b c \<Longrightarrow> dio_frame i a c"
  unfolding dio_frame_def by (metis drop_drop)

lemma dio_frame_env_ok: "dio_frame i dev dev' \<Longrightarrow> env_ok dev \<Longrightarrow> env_ok dev'"
  by (auto simp: dio_frame_def env_ok_def)

lemma dio_frame_root [simp]: "dio_frame i dev (dev'\<lparr>clus_root := r\<rparr>) \<longleftrightarrow> dio_frame i dev dev'"
  and dio_frame_nr [simp]: "dio_frame i dev (dev'\<lparr>nr_clus := n\<rparr>) \<longleftrightarrow> dio_frame i dev dev'"
  by (auto simp: dio_frame_def dev_ok_def)

lemma dev_ok_root [simp]: "dev_ok (dev\<lparr>clus_root := r\<rparr>) \<longleftrightarrow> dev_ok dev"
  and dev_ok_nr [simp]: "dev_ok (dev\<lparr>nr_clus := n\<rparr>) \<longleftrightarrow> dev_ok dev"
  and clu_ok_root [simp]: "clu_ok (dev\<lparr>clus_root := r\<rparr>) x i c \<longleftrightarrow> clu_ok dev x i c"
  and clu_ok_nr [simp]: "clu_ok (dev\<lparr>nr_clus := n\<rparr>) x i c \<longleftrightarrow> clu_ok dev x i c"
  by (auto simp: dev_ok_def clu_ok_def clu_base_def)

lemma clu_sector_inj:
  assumes "index_ok sz i" "index_ok sz j" "512 \<le> sz" "clu_sector sz i = clu_sector sz j"
  shows "i = j"
proof -
  have p: "0 < sz div 512" using assms(3) by (simp add: div_greater_zero_iff)
  have b: "sz div 512 < 2 ^ 64" if "unat i \<noteq> 0 \<or> unat j \<noteq> 0"
  proof -
    have "sz div 512 \<le> unat i * (sz div 512) \<or> sz div 512 \<le> unat j * (sz div 512)"
      using that by auto
    then show ?thesis
      using assms(1,2) unfolding index_ok_def by linarith
  qed
  have m: "unat (k * of_nat (sz div 512) :: u64) = unat k * (sz div 512)"
    if "index_ok sz k" "sz div 512 < 2 ^ 64" for k :: u64
    using that by (simp add: index_ok_def unat_word_ariths unat_of_nat)
  show ?thesis
  proof (cases "unat i = 0 \<and> unat j = 0")
    case True
    then show ?thesis by (simp add: unat_eq_zero)
  next
    case False
    then have "unat i * (sz div 512) = unat j * (sz div 512)"
      using assms b m unfolding clu_sector_def by metis
    then show ?thesis using p by (simp add: word_unat_eq_iff)
  qed
qed

lemma dev_ok_512: "dev_ok dev \<Longrightarrow> 512 \<le> dev_clu_size dev"
  by (simp add: dev_ok_def)

lemma frame_disk:
  assumes "dio_frame i dev dev'" "dev_ok dev" "index_ok (dev_clu_size dev) i" "index_ok (dev_clu_size dev) j" "i \<noteq> j"
  shows "disk dev' (clu_sector (dev_clu_size dev) j) = disk dev (clu_sector (dev_clu_size dev) j)"
  using assms clu_sector_inj [OF assms(4,3) dev_ok_512 [OF assms(2)]]
  unfolding dio_frame_def by blast

lemma clu_ok_frame:
  assumes "dio_frame i dev dev'" "dev_ok dev" "index_ok (dev_clu_size dev) i" "index_ok (dev_clu_size dev) j" "i \<noteq> j"
    and "clu_ok dev x j c"
  shows "clu_ok dev' x j c"
  using assms(1,6) frame_disk [OF assms(1-5)] by (simp add: clu_ok_def clu_base_def dio_frame_def)

lemma clu_view_frame:
  assumes "dio_frame i dev dev'" "dev_ok dev" "index_ok (dev_clu_size dev) i" "index_ok (dev_clu_size dev) j" "i \<noteq> j"
  shows "clu_view dev' j co = clu_view dev j co"
  using assms(1) frame_disk [OF assms] by (simp add: clu_view_def dio_frame_def split: option.splits)

text \<open>One cluster is replaced, or added.\<close>

definition dio_upd :: "u64 \<Rightarrow> dio_cluster \<Rightarrow> dio_dev \<Rightarrow> dio_dev \<Rightarrow> bool" where
  "dio_upd i c' dev dev' \<longleftrightarrow> dio_frame i dev dev'
     \<and> RBT.lookup (clus_root dev') = (RBT.lookup (clus_root dev))(i \<mapsto> c')
     \<and> nr_clus dev' = card (dom (RBT.lookup (clus_root dev')))"

lemma dio_upd_insert:
  assumes "dio_frame i dev dev1" "clus_root dev1 = clus_root dev" "nr_clus dev1 = nr_clus dev"
    and "RBT.lookup (clus_root dev) i = Some c" "nr_clus dev = card (dom (RBT.lookup (clus_root dev)))"
  shows "dio_upd i c' dev (dev1\<lparr>clus_root := RBT.insert i c' (clus_root dev1)\<rparr>)"
  using assms insert_absorb [of i "dom (RBT.lookup (clus_root dev))"] by (simp add: dio_upd_def domI)

lemma dio_upd_trans: "dio_upd i c a b \<Longrightarrow> dio_upd i c' b d \<Longrightarrow> dio_upd i c' a d"
  using dio_frame_trans by (auto simp: dio_upd_def)

lemma dio_upd_again: "dio_upd i c a b \<Longrightarrow> dio_upd i c' a (b\<lparr>clus_root := RBT.insert i c' (clus_root b)\<rparr>)"
  by (simp add: dio_upd_def)

lemma dio_upd_lookup: "dio_upd i c dev dev' \<Longrightarrow> RBT.lookup (clus_root dev') i = Some c"
  by (simp add: dio_upd_def)

text \<open>The clusters whose read has failed, or not been tried.\<close>

definition unread :: "dio_dev \<Rightarrow> u64 set" where
  "unread dev = {i. \<exists>c. RBT.lookup (clus_root dev) i = Some c \<and> \<not> CLU_READ c}"

lemma unread_upd: "dio_upd i c dev dev' \<Longrightarrow> CLU_READ c \<or> i \<in> unread dev \<Longrightarrow> unread dev' \<subseteq> unread dev"
  by (auto simp: unread_def dio_upd_def split: if_splits)

lemma dio_wf_upd:
  assumes "dio_wf_ex ex dev" "dio_upd i c' dev dev'" "clu_ok dev' (ex' i) i c'" "\<And>j. j \<noteq> i \<Longrightarrow> ex' j = ex j"
    and "index_ok (dev_clu_size dev) i"
  shows "dio_wf_ex ex' dev'"
proof -
  have d: "dev_ok dev" "dev_ok dev'" "dev_clu_size dev' = dev_clu_size dev" "dio_frame i dev dev'"
    using assms(1,2) by (auto simp: dio_wf_ex_def dio_frame_def dio_upd_def)
  have "clu_ok dev' (ex' j) j c \<and> index_ok (dev_clu_size dev) j" if "j \<noteq> i" "RBT.lookup (clus_root dev) j = Some c" for j c
    using that assms clu_ok_frame [OF d(4,1) assms(5)] unfolding dio_wf_ex_def by metis
  then show ?thesis
    using assms d by (auto simp: dio_wf_ex_def dio_upd_def)
qed

lemma dio_abs_upd:
  assumes "dio_wf_ex ex dev" "dio_upd i c' dev dev'" "index_ok (dev_clu_size dev) i"
  shows "dio_abs dev' = \<lparr>content = (content (dio_abs dev))(i := clu_view dev' i (Some c')),
        pins = (pins (dio_abs dev))(i := nat (pin_count c'))\<rparr>"
proof -
  have d: "dev_ok dev" "dev_clu_size dev' = dev_clu_size dev" "dio_frame i dev dev'"
    using assms(1,2) by (auto simp: dio_wf_ex_def dio_frame_def dio_upd_def)
  have "dio_view dev' j = ((dio_view dev)(i := clu_view dev' i (Some c'))) j" for j
    using clu_view_frame [OF d(3,1) assms(3), of j] assms d
    by (cases "j = i") (simp_all add: dio_view_def dio_upd_def)
  then show ?thesis
    using assms(2) by (auto simp: dio_abs_def dio_pins_def dio_upd_def fun_eq_iff)
qed

lemma content_dio_abs:
  "RBT.lookup (clus_root dev) i = co \<Longrightarrow> index_ok (dev_clu_size dev) i \<Longrightarrow> content (dio_abs dev) i = clu_view dev i co"
  by (simp add: dio_abs_def dio_view_def)

lemma pins_dio_abs:
  "pins (dio_abs dev) i = (case RBT.lookup (clus_root dev) i of None \<Rightarrow> 0 | Some c \<Rightarrow> nat (pin_count c))"
  by (simp add: dio_abs_def dio_pins_def)

text \<open>The way most operations use this: the cluster keeps its bytes, or gets new ones.\<close>

lemma dio_step_upd:
  assumes "dio_wf dev" "dio_upd i c' dev dev'" "clu_ok dev' 0 i c'" "index_ok (dev_clu_size dev) i"
    and "clu_view dev' i (Some c') = v" "nat (pin_count c') = p"
  shows "dio_wf dev'" "dio_abs dev' = \<lparr>content = (content (dio_abs dev))(i := v), pins = (pins (dio_abs dev))(i := p)\<rparr>"
  using dio_wf_upd [OF assms(1,2), of "\<lambda>_. 0"] dio_abs_upd [OF assms(1,2,4)] assms by auto

lemma dio_wf_lookup:
  assumes "dio_wf_ex ex dev" "RBT.lookup (clus_root dev) i = Some c"
  shows "clu_ok dev (ex i) i c" "index_ok (dev_clu_size dev) i" "clu_base dev (ex i) i c"
  using assms by (auto simp: dio_wf_ex_def clu_ok_def)

lemma dio_wf_dev: "dio_wf_ex ex dev \<Longrightarrow> dev_ok dev"
  and dio_wf_nr: "dio_wf_ex ex dev \<Longrightarrow> nr_clus dev = card (dom (RBT.lookup (clus_root dev)))"
  by (simp_all add: dio_wf_ex_def)

section \<open>Outcomes\<close>

lemma next_mem_eq: "next_mem dev = (mem_out dev = [] \<or> hd (mem_out dev), dev\<lparr>mem_out := drop 1 (mem_out dev)\<rparr>)"
  by (cases "mem_out dev") (simp_all add: next_mem_def)

lemma next_io_eq: "next_io dev = (if io_out dev = [] then (0, []) else hd (io_out dev), dev\<lparr>io_out := drop 1 (io_out dev)\<rparr>)"
  by (cases "io_out dev") (simp_all add: next_io_def)

lemma dio_frame_mem: "dev_ok dev \<Longrightarrow> dio_frame i dev (dev\<lparr>mem_out := drop n (mem_out dev)\<rparr>)"
  by (auto simp: dio_frame_def dev_ok_def intro: exI [of _ 0])

lemma clu_ok_mem [simp]: "clu_ok (dev\<lparr>mem_out := m\<rparr>) x i c \<longleftrightarrow> clu_ok dev x i c"
  and clu_ok_io [simp]: "clu_ok (dev\<lparr>io_out := o'\<rparr>) x i c \<longleftrightarrow> clu_ok dev x i c"
  and dev_ok_mem [simp]: "dev_ok (dev\<lparr>mem_out := m\<rparr>) \<longleftrightarrow> dev_ok dev"
  by (auto simp: clu_ok_def clu_base_def dev_ok_def)

lemma dio_alloc_loop_eq:
  "\<exists>m ok. dio_alloc_loop n pages dev
      = (if ok then Inr (pages @ replicate n (fresh_page dev)) else Inl (- ENOMEM), dev\<lparr>mem_out := drop m (mem_out dev)\<rparr>)
     \<and> (mem_out dev = [] \<longrightarrow> ok)"
proof (induction n arbitrary: pages dev)
  case 0
  show ?case by (intro exI [of _ 0] exI [of _ True]) simp
next
  case (Suc n)
  show ?case
  proof (cases "mem_out dev = [] \<or> hd (mem_out dev)")
    case True
    let ?dev = "dev\<lparr>mem_out := drop 1 (mem_out dev)\<rparr>"
    obtain m ok where "dio_alloc_loop n (pages @ [fresh_page dev]) ?dev
      = (if ok then Inr ((pages @ [fresh_page dev]) @ replicate n (fresh_page dev)) else Inl (- ENOMEM),
         dev\<lparr>mem_out := drop m (drop 1 (mem_out dev))\<rparr>)" "mem_out dev = [] \<longrightarrow> ok"
      using Suc [of "pages @ [fresh_page dev]" ?dev] by fastforce
    then show ?thesis
      using True by (intro exI [of _ "m + 1"] exI [of _ ok]) (simp add: next_mem_eq)
  next
    case False
    then show ?thesis
      by (intro exI [of _ 1] exI [of _ False]) (simp add: next_mem_eq)
  qed
qed

definition new_clu :: "dio_dev \<Rightarrow> dio_cluster" where
  "new_clu dev = \<lparr>clu_ref = 1, pin_count = 0, clu_index = 0, CLU_INV = True, CLU_DIRTY = False,
     CLU_READ = False, CLU_READ_START = False, CLU_RELS = False,
     clu_pages = replicate (dev_clu_size dev div PAGE_SIZE) (fresh_page dev),
     clu_clu_size = dev_clu_size dev, clu_age = 0, read_comp = 0, clu_err = 0\<rparr>"

lemma dio_clu_alloc_eq:
  assumes "dev_ok dev"
  shows "\<exists>m ok. dio_clu_alloc dev
      = Some (if ok then Some (new_clu dev) else None, dev\<lparr>mem_out := drop m (mem_out dev)\<rparr>)
     \<and> (mem_out dev = [] \<longrightarrow> ok)"
proof (cases "mem_out dev = [] \<or> hd (mem_out dev)")
  case True
  let ?n = "dev_clu_size dev div PAGE_SIZE"
  let ?dev = "dev\<lparr>mem_out := drop 1 (mem_out dev)\<rparr>"
  have n: "0 < ?n" "?n \<le> DIO_CLU_MAX_PAGES"
    using assms by (auto simp: dev_ok_def div_greater_zero_iff)
  obtain m ok where "dio_alloc_loop ?n [] ?dev
      = (if ok then Inr (replicate ?n (fresh_page dev)) else Inl (- ENOMEM),
         dev\<lparr>mem_out := drop m (drop 1 (mem_out dev))\<rparr>)" "mem_out dev = [] \<longrightarrow> ok"
    using dio_alloc_loop_eq [of ?n "[]" ?dev] by fastforce
  then show ?thesis
    using assms n True
    by (intro exI [of _ "m + 1"] exI [of _ ok])
      (auto simp: dio_clu_alloc_def next_mem_eq dio_pages_alloc_def new_clu_def dev_ok_def Let_def)
next
  case False
  then show ?thesis
    using assms
    by (intro exI [of _ 1] exI [of _ False]) (simp add: dio_clu_alloc_def next_mem_eq dev_ok_def)
qed

section \<open>Operations on one cluster\<close>

lemma dio_sector_ok: "clu_base dev x i c \<Longrightarrow> dio_sector c = clu_sector (dev_clu_size dev) i"
  by (simp add: dio_sector_def clu_sector_def clu_base_def)

lemma length_concat_clu: "clu_base dev x i c \<Longrightarrow> length (concat (clu_pages c)) = dev_clu_size dev"
  by (simp add: clu_base_def length_concat_pages)

lemma dio_frame_write:
  assumes "dev_ok dev" "length data = dev_clu_size dev"
  shows "dio_frame i dev (dev\<lparr>mem_out := drop m (mem_out dev), io_out := drop n (io_out dev),
    disk := (disk dev)(clu_sector (dev_clu_size dev) i := data)\<rparr>)"
proof -
  have "set (drop n (io_out dev)) \<subseteq> set (io_out dev)" by (rule set_drop_subset)
  then show ?thesis
    using assms by (auto simp: dio_frame_def dev_ok_def)
qed

lemma dio_frame_io: "dev_ok dev \<Longrightarrow> dio_frame i dev (dev\<lparr>mem_out := drop m (mem_out dev), io_out := drop n (io_out dev)\<rparr>)"
  using dio_frame_write [of dev "disk dev (clu_sector (dev_clu_size dev) i)" i, where m = m and n = n]
  by (simp add: dev_ok_def)

text \<open>Sync keeps the cluster's pages; it is clean afterwards unless an error is reported.\<close>

lemma dio_clu_sync_ok:
  assumes "dev_ok dev" "clu_base dev x i c" "dio_clu_sync dev c = (err, dev', c')"
  shows "dio_frame i dev dev'" "clus_root dev' = clus_root dev" "nr_clus dev' = nr_clus dev" "clu_base dev' x i c'"
    and "c' = c\<lparr>CLU_DIRTY := CLU_DIRTY c \<and> err \<noteq> 0\<rparr>" "env_ok dev \<Longrightarrow> err = 0"
proof -
  note * = assms(3) dio_sector_ok [OF assms(2)] length_concat_clu [OF assms(2)]
  let ?io = "if io_out dev = [] then (0, []) else hd (io_out dev)"
  let ?data = "if fst ?io = 0 then concat (clu_pages c) else snd ?io"
  have len: "length ?data = dev_clu_size dev"
    using assms(1) *(3) by (cases "io_out dev") (auto simp: dev_ok_def)
  let ?dev = "dev\<lparr>mem_out := drop 1 (mem_out dev), io_out := drop 1 (io_out dev),
    disk := (disk dev)(clu_sector (dev_clu_size dev) i := ?data)\<rparr>"
  consider (clean) "\<not> CLU_DIRTY c" "err = 0" "dev' = dev" "c' = c"
    | (mem) "CLU_DIRTY c" "\<not> (mem_out dev = [] \<or> hd (mem_out dev))" "err = - ENOMEM" "dev' = dev\<lparr>mem_out := drop 1 (mem_out dev)\<rparr>" "c' = c"
    | (io) "CLU_DIRTY c" "err = fst ?io" "dev' = ?dev" "c' = (if fst ?io = 0 then c\<lparr>CLU_DIRTY := False\<rparr> else c)"
    using * by (auto simp: dio_clu_sync_def next_mem_eq dio_submit_write_def next_io_eq Let_def
        split: if_splits prod.splits)
  note cases = this
  show "dio_frame i dev dev'"
    using cases
  proof cases
    case io
    show ?thesis
      unfolding io(3) by (rule dio_frame_write [OF assms(1) len])
  next
    case mem
    show ?thesis
      unfolding mem(4) by (rule dio_frame_mem [OF assms(1)])
  next
    case clean
    show ?thesis
      unfolding clean(3) by (rule dio_frame_refl [OF assms(1)])
  qed
  show "clus_root dev' = clus_root dev"
    using cases by cases simp_all
  show "nr_clus dev' = nr_clus dev"
    using cases by cases simp_all
  show "clu_base dev' x i c'"
    using cases
  proof cases
    case io
    then show ?thesis
      using assms(2) by (auto simp: clu_base_def)
  qed (use assms(2) in \<open>auto simp: clu_base_def\<close>)
  show "c' = c\<lparr>CLU_DIRTY := CLU_DIRTY c \<and> err \<noteq> 0\<rparr>"
    using cases by cases auto
  show "env_ok dev \<Longrightarrow> err = 0"
    using cases by cases (auto simp: env_ok_def)
qed

text \<open>A read fills the pages with what the device holds, or reports an error.\<close>

definition clu_loaded :: "dio_dev \<Rightarrow> dio_cluster \<Rightarrow> u8 list list" where
  "clu_loaded dev c = map (\<lambda>k. take PAGE_SIZE (drop (k * PAGE_SIZE) (disk dev (dio_sector c)))) [0..<length (clu_pages c)]"

definition io_err :: "dio_dev \<Rightarrow> int" where
  "io_err dev = (if io_out dev = [] then 0 else fst (hd (io_out dev)))"

lemma dio_submit_read_eq:
  "\<not> CLU_READ c \<Longrightarrow> dio_submit_read dev c = Some (io_err dev, dev\<lparr>io_out := drop 1 (io_out dev)\<rparr>,
     if io_err dev = 0 then c\<lparr>clu_pages := clu_loaded dev c, CLU_READ := True\<rparr> else c)"
  by (cases "io_out dev") (auto simp: dio_submit_read_def next_io_eq io_err_def clu_loaded_def split: prod.splits)

lemma clu_loaded_ok:
  assumes "dev_ok dev" "clu_base dev x i c"
  shows "pages_wf (clu_loaded dev c)" "length (clu_loaded dev c) = length (clu_pages c)"
    and "concat (clu_loaded dev c) = disk dev (clu_sector (dev_clu_size dev) i)"
proof -
  note s = dio_sector_ok [OF assms(2)]
  have len: "length (disk dev (clu_sector (dev_clu_size dev) i)) = length (clu_pages c) * PAGE_SIZE"
    using assms by (simp add: dev_ok_def clu_base_def)
  then show "pages_wf (clu_loaded dev c)"
    by (auto simp: clu_loaded_def pages_wf_def s)
  show "length (clu_loaded dev c) = length (clu_pages c)"
    by (simp add: clu_loaded_def)
  show "concat (clu_loaded dev c) = disk dev (clu_sector (dev_clu_size dev) i)"
    using concat_chunks [of "length (clu_pages c)" PAGE_SIZE "disk dev (clu_sector (dev_clu_size dev) i)"] len
    by (simp add: clu_loaded_def s)
qed

lemma clu_loaded_cong [simp]: "clu_loaded (dev\<lparr>mem_out := m\<rparr>) c = clu_loaded dev c"
  "clu_loaded dev (c\<lparr>CLU_READ_START := b\<rparr>) = clu_loaded dev c"
  by (simp_all add: clu_loaded_def dio_sector_def)

lemma io_err_cong [simp]: "io_err (dev\<lparr>mem_out := m\<rparr>) = io_err dev"
  by (simp add: io_err_def)

lemma dio_clu_wait_read_eq:
  "\<not> CLU_READ c \<Longrightarrow> dio_clu_wait_read dev c =
     (if CLU_READ_START c then
        if read_comp c = 0 then None else Some (clu_err c, dev, c\<lparr>read_comp := read_comp c - 1\<rparr>)
      else if \<not> (mem_out dev = [] \<or> hd (mem_out dev)) then
        Some (- ENOMEM, dev\<lparr>mem_out := drop 1 (mem_out dev)\<rparr>,
              c\<lparr>CLU_READ_START := True, clu_err := - ENOMEM, read_comp := read_comp c + 1\<rparr>)
      else Some (io_err dev, dev\<lparr>mem_out := drop 1 (mem_out dev), io_out := drop 1 (io_out dev)\<rparr>,
        (if io_err dev = 0 then c\<lparr>clu_pages := clu_loaded dev c, CLU_READ := True\<rparr> else c)
          \<lparr>CLU_READ_START := True, clu_err := io_err dev, read_comp := read_comp c + 1\<rparr>))"
  by (simp add: dio_clu_wait_read_def next_mem_eq dio_submit_read_eq Let_def)

lemma dio_clu_wait_read_ok:
  assumes "dev_ok dev" "clu_base dev x i c" "\<not> CLU_READ c" "dio_clu_wait_read dev c = Some (err, dev', c')"
  shows "dio_frame i dev dev'" "clus_root dev' = clus_root dev" "nr_clus dev' = nr_clus dev" "clu_base dev' x i c'"
    and "pin_count c' = pin_count c" "CLU_READ c' \<longleftrightarrow> err = 0" "clu_view dev' i (Some c') = clu_view dev i (Some c)"
proof -
  note l = clu_loaded_ok [OF assms(1,2)]
  note eq = assms(4) [unfolded dio_clu_wait_read_eq [OF assms(3)]]
  show "dio_frame i dev dev'"
    using eq dio_frame_refl [OF assms(1)] dio_frame_mem [OF assms(1), of i 1] dio_frame_io [OF assms(1), of i 1 1]
    by (simp split: if_splits)
  show "clus_root dev' = clus_root dev" "nr_clus dev' = nr_clus dev" "pin_count c' = pin_count c"
    using eq by (auto split: if_splits)
  show "clu_base dev' x i c'" "CLU_READ c' \<longleftrightarrow> err = 0"
    using eq assms(2,3) l by (auto simp: clu_base_def split: if_splits)
  show "clu_view dev' i (Some c') = clu_view dev i (Some c)"
    using eq assms(3) l by (auto simp: clu_view_def split: if_splits)
qed

section \<open>Operations on the device\<close>

lemma clu_view_root [simp]: "clu_view (dev\<lparr>clus_root := r\<rparr>) i co = clu_view dev i co"
  and clu_base_root [simp]: "clu_base (dev\<lparr>clus_root := r\<rparr>) x i c \<longleftrightarrow> clu_base dev x i c"
  by (simp_all add: clu_view_def clu_base_def split: option.splits)

text \<open>What looking up leaves: the cluster is pinned, but possibly not read yet.\<close>

definition clu_got :: "dio_dev \<Rightarrow> u64 \<Rightarrow> dio_dev \<Rightarrow> dio_cluster \<Rightarrow> bool" where
  "clu_got dev i dev1 c \<longleftrightarrow> dio_upd i c dev dev1 \<and> clu_base dev1 0 i c \<and> pin_count c = int (pins (dio_abs dev) i) + 1
     \<and> (0 < pins (dio_abs dev) i \<longrightarrow> CLU_READ c) \<and> clu_view dev1 i (Some c) = content (dio_abs dev) i"

text \<open>Looking a cluster up, or creating it, pins it.\<close>

lemma dio_clu_lookup_create_ok:
  assumes "dio_wf dev" "index_ok (dev_clu_size dev) i"
  shows "\<exists>ok dev'. dio_clu_lookup_create dev i = Some (ok, dev')
     \<and> (if ok then \<exists>c. clu_got dev i dev' c \<and> (CLU_READ c \<or> i \<in> unread dev \<or> \<not> CLU_READ_START c)
        else dio_frame i dev dev' \<and> RBT.lookup (clus_root dev') = RBT.lookup (clus_root dev) \<and> nr_clus dev' = nr_clus dev
            \<and> disk dev' = disk dev)
     \<and> (env_ok dev \<longrightarrow> ok)"
proof (cases "RBT.lookup (clus_root dev) i")
  case (Some c)
  let ?c = "c\<lparr>clu_ref := clu_ref c + 1, pin_count := pin_count c + 1, clu_age := clu_age c OR push_bit 63 1\<rparr>"
  let ?dev = "dev\<lparr>clus_root := RBT.insert i ?c (clus_root dev)\<rparr>"
  note c = dio_wf_lookup [OF assms(1) Some]
  have "0 < clu_ref c" using c by (simp add: clu_base_def)
  then have "dio_clu_lookup_create dev i = Some (True, ?dev)"
    using Some by (simp add: dio_clu_lookup_create_def dio_clu_ref_def dio_clu_pin_def)
  moreover have "dio_upd i ?c dev ?dev"
    using dio_upd_insert [OF dio_frame_refl [OF dio_wf_dev [OF assms(1)]] refl refl Some]
      dio_wf_dev [OF assms(1)] dio_wf_nr [OF assms(1)] by simp
  moreover have "clu_base ?dev 0 i ?c" "0 < pins (dio_abs dev) i \<longrightarrow> CLU_READ ?c" "CLU_READ ?c \<or> i \<in> unread dev"
     "pin_count ?c = int (pins (dio_abs dev) i) + 1"
    using c Some by (auto simp: clu_base_def clu_ok_def pins_dio_abs unread_def)
  moreover have "clu_view ?dev i (Some ?c) = content (dio_abs dev) i"
    using content_dio_abs [OF Some assms(2)] by (simp add: clu_view_def)
  ultimately show ?thesis
    by (intro exI [of _ True] exI [of _ ?dev]) (auto simp: clu_got_def)
next
  case None
  obtain m ok where a: "dio_clu_alloc dev
      = Some (if ok then Some (new_clu dev) else None, dev\<lparr>mem_out := drop m (mem_out dev)\<rparr>)"
    and m: "mem_out dev = [] \<longrightarrow> ok"
    using dio_clu_alloc_eq [OF dio_wf_dev [OF assms(1)]] by blast
  let ?dev = "\<lambda>m. dev\<lparr>mem_out := drop m (mem_out dev)\<rparr>"
  let ?c = "(new_clu dev)\<lparr>clu_index := i, clu_ref := 3, pin_count := 1, clu_age := push_bit 63 1\<rparr>"
  let ?dev' = "(?dev (Suc m))\<lparr>nr_clus := nr_clus dev + 1, clus_root := RBT.insert i ?c (clus_root dev)\<rparr>"
  note fr = dio_frame_mem [OF dio_wf_dev [OF assms(1)]]
  show ?thesis
  proof (cases "ok \<and> (drop m (mem_out dev) = [] \<or> hd (drop m (mem_out dev)))")
    case True
    then have "dio_clu_lookup_create dev i = Some (True, ?dev')"
      using a None
      by (auto simp: dio_clu_lookup_create_def next_mem_eq dio_clu_ref_def dio_clu_pin_def new_clu_def Let_def)
    moreover have "dio_upd i ?c dev ?dev'"
      using fr [of i "Suc m"] dio_wf_nr [OF assms(1)] None by (simp add: dio_upd_def domIff)
    moreover have "clu_base ?dev' 0 i ?c"
      using dio_wf_dev [OF assms(1)] by (auto simp: clu_base_def new_clu_def pages_wf_def dev_ok_def)
    moreover have "clu_view ?dev' i (Some ?c) = content (dio_abs dev) i"
      using content_dio_abs [OF None assms(2)] by (simp add: clu_view_def new_clu_def)
    moreover have "\<not> CLU_READ_START ?c"
      by (simp add: new_clu_def)
    ultimately show ?thesis
      using None by (intro exI [of _ True] exI [of _ ?dev'] conjI) (auto simp: pins_dio_abs clu_got_def)
  next
    case False
    then obtain n where "dio_clu_lookup_create dev i = Some (False, ?dev n)"
      using a None
      by (cases ok) (auto simp: dio_clu_lookup_create_def next_mem_eq dio_clu_deref_def new_clu_def Let_def)
    then show ?thesis
      using fr False m by (intro exI [of _ False] exI [of _ "?dev n"]) (auto simp: env_ok_def)
  qed
qed

lemma dio_clu_put_eq:
  assumes "RBT.lookup (clus_root dev) i = Some c" "2 \<le> clu_ref c"
  shows "dio_clu_put dev i = Some (dev\<lparr>clus_root :=
    RBT.insert i (c\<lparr>pin_count := pin_count c - 1, clu_ref := clu_ref c - 1\<rparr>) (clus_root dev)\<rparr>)"
  using assms by (simp add: dio_clu_put_def dio_clu_deref_def dio_clu_unpin_def Let_def)

lemma dio_clu_put_ok:
  assumes "dio_wf dev" "0 < pins (dio_abs dev) i"
  shows "\<exists>dev'. dio_clu_put dev i = Some dev' \<and> dio_frame i dev dev' \<and> dio_wf dev' \<and> unread dev' \<subseteq> unread dev
     \<and> dio_abs dev' = (dio_abs dev)\<lparr>pins := (pins (dio_abs dev))(i := pins (dio_abs dev) i - 1)\<rparr>"
proof -
  obtain c where c: "RBT.lookup (clus_root dev) i = Some c" "0 < pin_count c"
    using assms(2) by (auto simp: pins_dio_abs split: option.splits)
  note w = dio_wf_lookup [OF assms(1) c(1)]
  let ?c = "c\<lparr>pin_count := pin_count c - 1, clu_ref := clu_ref c - 1\<rparr>"
  let ?dev = "dev\<lparr>clus_root := RBT.insert i ?c (clus_root dev)\<rparr>"
  have e: "dio_clu_put dev i = Some ?dev"
    using w c(2) by (intro dio_clu_put_eq c) (simp add: clu_base_def)
  have u: "dio_upd i ?c dev ?dev"
    using dio_upd_insert [OF dio_frame_refl [OF dio_wf_dev [OF assms(1)]] refl refl c(1) dio_wf_nr [OF assms(1)]] .
  have k: "clu_ok ?dev 0 i ?c"
    using w c(2) by (auto simp: clu_ok_def clu_base_def)
  have v: "clu_view ?dev i (Some ?c) = content (dio_abs dev) i"
    using content_dio_abs [OF c(1) w(2)] by (simp add: clu_view_def)
  have p: "nat (pin_count ?c) = pins (dio_abs dev) i - 1"
    using c by (simp add: pins_dio_abs)
  show ?thesis
    using e u dio_step_upd [OF assms(1) u k w(2) v p] unread_upd [OF u] w(1) c(2) by (auto simp: dio_upd_def clu_ok_def)
qed

definition got_abs :: "dio_dev \<Rightarrow> u64 \<Rightarrow> bool \<Rightarrow> flat_store" where
  "got_abs dev i ok = (if ok then (dio_abs dev)\<lparr>pins := (pins (dio_abs dev))(i := pins (dio_abs dev) i + 1)\<rparr> else dio_abs dev)"

lemma clu_got_read:
  assumes "dio_wf dev" "index_ok (dev_clu_size dev) i" "clu_got dev i dev1 c" "CLU_READ c"
  shows "dio_frame i dev dev1 \<and> dio_wf dev1 \<and> dio_abs dev1 = got_abs dev i True"
proof -
  have u: "dio_upd i c dev dev1" and v: "clu_view dev1 i (Some c) = content (dio_abs dev) i"
    using assms(3) by (auto simp: clu_got_def)
  have k: "clu_ok dev1 0 i c" and p: "nat (pin_count c) = pins (dio_abs dev) i + 1"
    using assms(3,4) by (auto simp: clu_got_def clu_ok_def)
  show ?thesis
    using u dio_step_upd [OF assms(1) u k assms(2) v p] by (auto simp: dio_upd_def got_abs_def)
qed

lemma clu_got_wait:
  assumes "clu_got dev i dev1 c" "\<not> CLU_READ c" "dio_clu_wait_read dev1 c = Some (err, dev2, c2)"
  defines "dev3 \<equiv> dev2\<lparr>clus_root := RBT.insert i c2 (clus_root dev2)\<rparr>"
  shows "clu_got dev i dev3 c2" "CLU_READ c2 \<longleftrightarrow> err = 0" "pins (dio_abs dev) i = 0"
proof -
  have d1: "dev_ok dev1" "nr_clus dev1 = card (dom (RBT.lookup (clus_root dev1)))"
    using assms(1) by (auto simp: clu_got_def dio_upd_def dio_frame_def)
  have b: "clu_base dev1 0 i c" "dio_upd i c dev dev1" and p: "pins (dio_abs dev) i = 0"
    using assms(1,2) by (auto simp: clu_got_def)
  note w = dio_clu_wait_read_ok [OF d1(1) b(1) assms(2,3)]
  have "dio_upd i c2 dev dev3"
    unfolding dev3_def
    by (rule dio_upd_trans [OF b(2) dio_upd_insert [OF w(1-3) dio_upd_lookup [OF b(2)] d1(2)]])
  then show "clu_got dev i dev3 c2"
    using w p assms(1) by (simp add: clu_got_def dev3_def)
  show "CLU_READ c2 \<longleftrightarrow> err = 0" "pins (dio_abs dev) i = 0"
    using w(6) p by auto
qed

text \<open>A failed read drops the reference and the pin again.\<close>

lemma clu_got_unget:
  assumes "dio_wf dev" "index_ok (dev_clu_size dev) i" "clu_got dev i dev3 c" "pins (dio_abs dev) i = 0"
  shows "\<exists>dev4. dio_clu_put dev3 i = Some dev4 \<and> dio_frame i dev dev4 \<and> dio_wf dev4 \<and> dio_abs dev4 = got_abs dev i False"
proof -
  let ?c = "c\<lparr>pin_count := pin_count c - 1, clu_ref := clu_ref c - 1\<rparr>"
  let ?dev = "dev3\<lparr>clus_root := RBT.insert i ?c (clus_root dev3)\<rparr>"
  have u: "dio_upd i c dev dev3" and b: "clu_base dev3 0 i c" "pin_count c = 1" and v: "clu_view dev3 i (Some c) = content (dio_abs dev) i"
    using assms(3,4) by (auto simp: clu_got_def)
  have e: "dio_clu_put dev3 i = Some ?dev"
    by (rule dio_clu_put_eq [OF dio_upd_lookup [OF u]]) (use b in \<open>simp add: clu_base_def\<close>)
  have k: "clu_ok ?dev 0 i ?c"
    using b by (simp add: clu_ok_def clu_base_def)
  have v': "clu_view ?dev i (Some ?c) = content (dio_abs dev) i"
    using v by (auto simp: clu_view_def split: if_splits)
  have p: "nat (pin_count ?c) = pins (dio_abs dev) i"
    using b assms(4) by simp
  note u' = dio_upd_again [OF u, of ?c]
  show ?thesis
    using e u' dio_step_upd [OF assms(1) u' k assms(2) v' p]
    by (auto simp: dio_upd_def got_abs_def)
qed

lemma dio_clu_lookup_create_got:
  assumes "dio_wf dev" "index_ok (dev_clu_size dev) i"
  obtains dev1 c where "dio_clu_lookup_create dev i = Some (True, dev1)" "clu_got dev i dev1 c"
    "CLU_READ c \<or> i \<in> unread dev \<or> \<not> CLU_READ_START c"
  | dev1 where "dio_clu_lookup_create dev i = Some (False, dev1)" "dio_frame i dev dev1 \<and> dio_wf dev1 \<and> dio_abs dev1 = got_abs dev i False" "\<not> env_ok dev"
proof -
  obtain ok dev1 where lc: "dio_clu_lookup_create dev i = Some (ok, dev1)"
    and ok: "if ok then \<exists>c. clu_got dev i dev1 c \<and> (CLU_READ c \<or> i \<in> unread dev \<or> \<not> CLU_READ_START c)
        else dio_frame i dev dev1 \<and> RBT.lookup (clus_root dev1) = RBT.lookup (clus_root dev) \<and> nr_clus dev1 = nr_clus dev
            \<and> disk dev1 = disk dev"
    and env: "env_ok dev \<longrightarrow> ok"
    using dio_clu_lookup_create_ok [OF assms(1,2)] by blast
  show thesis
  proof (cases ok)
    case True
    then show ?thesis
      using that(1) lc ok by auto
  next
    case False
    moreover have "dio_view dev1 = dio_view dev"
      using ok False by (auto simp: dio_view_def clu_view_def dio_frame_def fun_eq_iff split: option.splits)
    ultimately have "dio_frame i dev dev1 \<and> dio_wf dev1 \<and> dio_abs dev1 = got_abs dev i False"
      using ok assms(1) by (auto simp: dio_wf_ex_def dio_frame_def dio_abs_def dio_pins_def clu_ok_def clu_base_def got_abs_def)
    then show ?thesis
      using False lc env that(2) by auto
  qed
qed

lemma dio_clu_get_ok:
  assumes "dio_wf dev" "index_ok (dev_clu_size dev) i" "dio_clu_get dev i = Some (ok, dev')"
  shows "dio_frame i dev dev' \<and> dio_wf dev' \<and> dio_abs dev' = got_abs dev i ok"
proof (rule dio_clu_lookup_create_got [OF assms(1,2)])
  fix dev1 c
  assume lc: "dio_clu_lookup_create dev i = Some (True, dev1)" and g: "clu_got dev i dev1 c"
  then have l: "RBT.lookup (clus_root dev1) i = Some c"
    by (auto simp: clu_got_def dest: dio_upd_lookup)
  show ?thesis
  proof (cases "CLU_READ c")
    case True
    then show ?thesis
      using assms(3) lc l clu_got_read [OF assms(1,2) g] by (auto simp: dio_clu_get_def)
  next
    case False
    then obtain err dev2 c2 where r: "dio_clu_wait_read dev1 c = Some (err, dev2, c2)"
      using assms(3) lc l by (auto simp: dio_clu_get_def with_clu_def split: bind_splits)
    note w = clu_got_wait [OF g False r]
    show ?thesis
      using assms(3) lc l False r clu_got_read [OF assms(1,2) w(1)] clu_got_unget [OF assms(1,2) w(1,3)] w(2)
      by (auto simp: dio_clu_get_def with_clu_def split: if_splits)
  qed
qed (use assms(3) in \<open>auto simp: dio_clu_get_def\<close>)

text \<open>Without failures a get succeeds.\<close>

lemma dio_clu_get_total:
  assumes "dio_wf dev" "index_ok (dev_clu_size dev) i" "env_ok dev" "i \<notin> unread dev"
  obtains dev' where "dio_clu_get dev i = Some (True, dev')" "unread dev' \<subseteq> unread dev"
proof (rule dio_clu_lookup_create_got [OF assms(1,2)])
  fix dev1 c
  assume lc: "dio_clu_lookup_create dev i = Some (True, dev1)" and g: "clu_got dev i dev1 c"
    and s: "CLU_READ c \<or> i \<in> unread dev \<or> \<not> CLU_READ_START c"
  then have u: "dio_upd i c dev dev1"
    by (simp add: clu_got_def)
  then have l: "RBT.lookup (clus_root dev1) i = Some c" and env: "env_ok dev1"
    using dio_frame_env_ok [OF _ assms(3)] by (auto simp: dio_upd_def)
  show thesis
  proof (cases "CLU_READ c")
    case True
    then show ?thesis
      using that lc l unread_upd [OF u] by (simp add: dio_clu_get_def)
  next
    case False
    obtain dev2 c2 where r: "dio_clu_wait_read dev1 c = Some (0, dev2, c2)"
      using s False assms(4) env by (simp add: dio_clu_wait_read_eq env_ok_def io_err_def)
    note w = clu_got_wait [OF g False r]
    let ?dev3 = "dev2\<lparr>clus_root := RBT.insert i c2 (clus_root dev2)\<rparr>"
    have "dio_clu_get dev i = Some (True, ?dev3)"
      using lc l False r by (simp add: dio_clu_get_def with_clu_def)
    moreover have "unread ?dev3 \<subseteq> unread dev"
      using w unread_upd [of i c2 dev ?dev3] by (simp add: clu_got_def)
    ultimately show ?thesis
      using that by blast
  qed
qed (use assms in simp)

lemma with_clu_ok:
  assumes "dio_wf dev" "RBT.lookup (clus_root dev) i = Some c" "f dev c = Some (r, dev1, c1)"
    and "dio_frame i dev dev1" "clus_root dev1 = clus_root dev" "nr_clus dev1 = nr_clus dev"
    and "clu_ok dev1 0 i c1" "pin_count c1 = pin_count c" "clu_view dev1 i (Some c1) = v"
    and "CLU_READ c1"
  obtains dev2 where "with_clu dev i f = Some (r, dev2)" "dio_frame i dev dev2" "dio_wf dev2" "unread dev2 \<subseteq> unread dev"
    "dio_abs dev2 = (dio_abs dev)\<lparr>content := (content (dio_abs dev))(i := v)\<rparr>"
proof -
  let ?dev = "dev1\<lparr>clus_root := RBT.insert i c1 (clus_root dev1)\<rparr>"
  have u: "dio_upd i c1 dev ?dev"
    using dio_upd_insert [OF assms(4-6,2) dio_wf_nr [OF assms(1)]] .
  have k: "clu_ok ?dev 0 i c1" and v: "clu_view ?dev i (Some c1) = v"
    and p: "nat (pin_count c1) = pins (dio_abs dev) i"
    using assms by (simp_all add: pins_dio_abs)
  have "with_clu dev i f = Some (r, ?dev)"
    using assms(2,3) by (simp add: with_clu_def)
  then show thesis
    using that [of ?dev] u dio_step_upd [OF assms(1) u k dio_wf_lookup(2) [OF assms(1,2)] v p]
      unread_upd [OF u] assms(10) by (simp add: dio_upd_def)
qed

lemma pinned_clu:
  assumes "dio_wf dev" "0 < pins (dio_abs dev) i"
  obtains c where "RBT.lookup (clus_root dev) i = Some c" "clu_ok dev 0 i c" "clu_base dev 0 i c" "CLU_READ c" "0 < pin_count c"
    "content (dio_abs dev) i = concat (clu_pages c)" "index_ok (dev_clu_size dev) i"
proof -
  obtain c where c: "RBT.lookup (clus_root dev) i = Some c" "0 < pin_count c"
    using assms(2) by (auto simp: pins_dio_abs split: option.splits)
  note w = dio_wf_lookup [OF assms(1) c(1)]
  have "CLU_READ c" using w(1) c(2) by (simp add: clu_ok_def)
  then show thesis
    using that c w content_dio_abs [OF c(1) w(2)] by (simp add: clu_view_def)
qed

lemma dio_clu_read_ok:
  assumes "dio_wf dev" "0 < pins (dio_abs dev) i" "off + len \<le> dev_clu_size dev"
  obtains dev' where "dio_clu_read dev i len off = Some ((0, take len (drop off (content (dio_abs dev) i))), dev')"
    "dio_frame i dev dev'" "dio_wf dev'" "unread dev' \<subseteq> unread dev" "dio_abs dev' = dio_abs dev"
proof -
  obtain c where c: "RBT.lookup (clus_root dev) i = Some c" "clu_ok dev 0 i c" "clu_base dev 0 i c" "CLU_READ c"
    "content (dio_abs dev) i = concat (clu_pages c)"
    using pinned_clu [OF assms(1,2)] by metis
  let ?f = "\<lambda>dev c. do {
     assert_that (\<not> off + len > clu_clu_size c);
     (err, dev, c) \<leftarrow> (if \<not> CLU_READ c then dio_clu_wait_read dev c else Some (0, dev, c));
     if err \<noteq> 0 then Some ((err, []), dev, c)
     else do { buf \<leftarrow> dio_pages_read (clu_pages c) off len; Some ((0, buf), dev, c) } }"
  have r: "?f dev c = Some ((0, take len (drop off (content (dio_abs dev) i))), dev, c)"
    using c assms(3) dio_pages_read_flat [of "clu_pages c" off len] by (simp add: clu_base_def)
  have v: "clu_view dev i (Some c) = content (dio_abs dev) i"
    using c by (simp add: clu_view_def)
  show thesis
    by (rule with_clu_ok [OF assms(1) c(1), of ?f, OF r dio_frame_refl [OF dio_wf_dev [OF assms(1)]] refl refl c(2) refl v c(4)])
      (rule that [unfolded dio_clu_read_def], assumption+, simp)
qed

lemma dio_clu_write_ok:
  assumes "dio_wf dev" "0 < pins (dio_abs dev) i" "off + length buf \<le> dev_clu_size dev"
  obtains dev' where "dio_clu_write dev i buf off = Some (0, dev')" "dio_frame i dev dev'" "dio_wf dev'" "unread dev' \<subseteq> unread dev"
    "dio_abs dev' = (dio_abs dev)\<lparr>content := (content (dio_abs dev))(i := memcpy_at (content (dio_abs dev) i) off buf)\<rparr>"
proof -
  obtain c where c: "RBT.lookup (clus_root dev) i = Some c" "clu_ok dev 0 i c" "clu_base dev 0 i c" "CLU_READ c"
    "content (dio_abs dev) i = concat (clu_pages c)"
    using pinned_clu [OF assms(1,2)] by metis
  obtain pages where pages: "dio_pages_write (clu_pages c) buf off = Some pages" "pages_wf pages"
    "length pages = length (clu_pages c)" "concat pages = memcpy_at (concat (clu_pages c)) off buf"
    using dio_pages_write_flat [of "clu_pages c" off buf] c(3) assms(3) by (auto simp: clu_base_def)
  let ?c = "c\<lparr>CLU_DIRTY := True, clu_pages := pages\<rparr>"
  let ?f = "\<lambda>dev c. do {
     assert_that (\<not> off + length buf > clu_clu_size c);
     (err, dev, c) \<leftarrow> (if \<not> CLU_READ c then dio_clu_wait_read dev c else Some (0, dev, c));
     if err \<noteq> 0 then Some (err, dev, c)
     else do { assert_that (CLU_READ c); pages \<leftarrow> dio_pages_write (clu_pages c) buf off;
               Some (0, dev, c\<lparr>CLU_DIRTY := True, clu_pages := pages\<rparr>) } }"
  have r: "?f dev c = Some (0, dev, ?c)"
    using c assms(3) pages by (simp add: clu_base_def)
  have v: "clu_view dev i (Some ?c) = memcpy_at (content (dio_abs dev) i) off buf" and k: "clu_ok dev 0 i ?c"
    using c pages by (auto simp: clu_view_def clu_ok_def clu_base_def)
  show thesis
    by (rule with_clu_ok [OF assms(1) c(1), of ?f, OF r dio_frame_refl [OF dio_wf_dev [OF assms(1)]] refl refl k _ v])
      (simp, use c(4) in simp, rule that [unfolded dio_clu_write_def], assumption+)
qed

lemma dio_clu_sync_index_ok:
  assumes "dio_wf dev" "0 < pins (dio_abs dev) i"
  obtains err dev' where "dio_clu_sync_index dev i = Some (err, dev')" "dio_frame i dev dev'" "dio_wf dev'" "unread dev' \<subseteq> unread dev" "dio_abs dev' = dio_abs dev"
    "err = 0 \<Longrightarrow> disk dev' (clu_sector (dev_clu_size dev) i) = content (dio_abs dev) i" "env_ok dev \<Longrightarrow> err = 0"
proof -
  obtain c where c: "RBT.lookup (clus_root dev) i = Some c" "clu_ok dev 0 i c" "clu_base dev 0 i c" "CLU_READ c"
    "content (dio_abs dev) i = concat (clu_pages c)"
    using pinned_clu [OF assms(1,2)] by metis
  obtain err dev1 c1 where s: "dio_clu_sync dev c = (err, dev1, c1)"
    using prod_cases3 by blast
  note y = dio_clu_sync_ok [OF dio_wf_dev [OF assms(1)] c(3) s]
  have v: "clu_view dev1 i (Some c1) = content (dio_abs dev) i" and k: "clu_ok dev1 0 i c1"
    using c y(4,5) by (auto simp: clu_view_def clu_ok_def)
  have p: "pin_count c1 = pin_count c" and rd: "CLU_READ c1" and r: "(\<lambda>dev c. Some (dio_clu_sync dev c)) dev c = Some (err, dev1, c1)"
    using y(5) s c(4) by simp_all
  show thesis
  proof (rule with_clu_ok [OF assms(1) c(1), of "\<lambda>dev c. Some (dio_clu_sync dev c)", OF r y(1-3) k p v rd])
    fix dev2
    assume a: "with_clu dev i (\<lambda>dev c. Some (dio_clu_sync dev c)) = Some (err, dev2)" "dio_frame i dev dev2" "dio_wf dev2" "unread dev2 \<subseteq> unread dev"
      "dio_abs dev2 = (dio_abs dev)\<lparr>content := (content (dio_abs dev))(i := content (dio_abs dev) i)\<rparr>"
    have "dev2 = dev1\<lparr>clus_root := RBT.insert i c1 (clus_root dev1)\<rparr>"
      using a(1) c(1) s by (simp add: with_clu_def)
    moreover have "err = 0 \<Longrightarrow> disk dev1 (clu_sector (dev_clu_size dev) i) = content (dio_abs dev) i"
      using y(1,4,5) c by (auto simp: clu_base_def dio_frame_def)
    ultimately show thesis
      using that [of err dev2] a y(6) by (simp add: dio_clu_sync_index_def)
  qed
qed

lemma length_content:
  assumes "dio_wf dev" "0 < pins (dio_abs dev) i"
  shows "length (content (dio_abs dev) i) = dev_clu_size dev"
  using pinned_clu [OF assms] length_concat_clu by metis

lemma dio_clu_zero_loop_ok:
  assumes "dio_wf dev" "0 < pins (dio_abs dev) i" "off + n * PAGE_SIZE \<le> dev_clu_size dev"
  shows "\<exists>dev'. dio_clu_zero_loop n off i dev = Some (0, dev') \<and> dio_frame i dev dev' \<and> dio_wf dev' \<and> unread dev' \<subseteq> unread dev \<and> dio_abs dev' =
     (dio_abs dev)\<lparr>content := (content (dio_abs dev))(i := memcpy_at (content (dio_abs dev) i) off (replicate (n * PAGE_SIZE) 0))\<rparr>"
  using assms
proof (induction n arbitrary: off dev)
  case 0
  have "memcpy_at (content (dio_abs dev) i) off [] = content (dio_abs dev) i"
    by (simp add: memcpy_at_def)
  then show ?case
    using 0 by (simp add: dio_frame_refl dio_wf_dev)
next
  case (Suc n)
  let ?z = "replicate PAGE_SIZE (0 :: u8)"
  obtain dev1 where w: "dio_clu_write dev i ?z off = Some (0, dev1)" "dio_frame i dev dev1" "dio_wf dev1" "unread dev1 \<subseteq> unread dev"
    "dio_abs dev1 = (dio_abs dev)\<lparr>content := (content (dio_abs dev))(i := memcpy_at (content (dio_abs dev) i) off ?z)\<rparr>"
    by (rule dio_clu_write_ok [OF Suc.prems(1,2), of off ?z]) (use Suc.prems(3) in auto)
  have sz: "dev_clu_size dev1 = dev_clu_size dev"
    using w(2) by (simp add: dio_frame_def)
  obtain dev2 where r: "dio_clu_zero_loop n (off + PAGE_SIZE) i dev1 = Some (0, dev2)" "dio_frame i dev1 dev2" "dio_wf dev2" "unread dev2 \<subseteq> unread dev1"
    "dio_abs dev2 = (dio_abs dev1)\<lparr>content := (content (dio_abs dev1))(i :=
        memcpy_at (content (dio_abs dev1) i) (off + PAGE_SIZE) (replicate (n * PAGE_SIZE) 0))\<rparr>"
  proof -
    have "0 < pins (dio_abs dev1) i" "off + PAGE_SIZE + n * PAGE_SIZE \<le> dev_clu_size dev1"
      using w(5) Suc.prems sz by auto
    from Suc.IH [OF w(3) this] that show thesis by blast
  qed
  have "memcpy_at (memcpy_at (content (dio_abs dev) i) off ?z) (off + length ?z) (replicate (n * PAGE_SIZE) 0)
      = memcpy_at (content (dio_abs dev) i) off (?z @ replicate (n * PAGE_SIZE) 0)"
    by (rule memcpy_at_split) (use length_content [OF Suc.prems(1,2)] Suc.prems(3) in simp)
  then have "memcpy_at (memcpy_at (content (dio_abs dev) i) off ?z) (off + PAGE_SIZE) (replicate (n * PAGE_SIZE) 0)
      = memcpy_at (content (dio_abs dev) i) off (replicate (Suc n * PAGE_SIZE) 0)"
    by (simp add: replicate_add)
  then show ?case
    using w r dio_frame_trans [OF w(2) r(2)] subset_trans [OF r(4) w(4)] by (simp add: fun_upd_def cong: if_cong)
qed

lemma memcpy_at_all: "length src = length dst \<Longrightarrow> memcpy_at dst 0 src = src"
  by (simp add: memcpy_at_def)

lemma dio_frame_pres_mem:
  assumes "dio_wf dev"
  shows "dio_wf (dev\<lparr>mem_out := drop n (mem_out dev)\<rparr>)" "dio_abs (dev\<lparr>mem_out := m\<rparr>) = dio_abs dev"
proof -
  show "dio_wf (dev\<lparr>mem_out := drop n (mem_out dev)\<rparr>)"
    using assms by (simp add: dio_wf_ex_def)
  have "dio_view (dev\<lparr>mem_out := m\<rparr>) = dio_view dev" "dio_pins (dev\<lparr>mem_out := m\<rparr>) = dio_pins dev"
    by (simp_all add: dio_view_def dio_pins_def clu_view_def fun_eq_iff split: option.splits)
  then show "dio_abs (dev\<lparr>mem_out := m\<rparr>) = dio_abs dev"
    by (simp add: dio_abs_def)
qed

lemma dio_clu_zero_ok:
  assumes "dio_wf dev" "0 < pins (dio_abs dev) i"
  obtains err dev' where "dio_clu_zero dev i = Some (err, dev')" "dio_frame i dev dev'" "dio_wf dev'" "unread dev' \<subseteq> unread dev"
    "dio_abs dev' = (if err = 0 then (dio_abs dev)\<lparr>content := (content (dio_abs dev))(i := replicate (dev_clu_size dev) 0)\<rparr>
       else dio_abs dev)" "env_ok dev \<Longrightarrow> err = 0"
proof (cases "mem_out dev = [] \<or> hd (mem_out dev)")
  case True
  let ?dev = "dev\<lparr>mem_out := drop 1 (mem_out dev)\<rparr>"
  note d = dio_frame_pres_mem(1) [OF assms(1), of 1] dio_frame_pres_mem(2) [OF assms(1), of "drop 1 (mem_out dev)"]
  obtain c where c: "RBT.lookup (clus_root dev) i = Some c" "clu_base dev 0 i c"
    using pinned_clu [OF assms] by metis
  have len: "length (clu_pages c) * PAGE_SIZE = dev_clu_size dev"
    using c(2) by (simp add: clu_base_def)
  obtain dev' where z: "dio_clu_zero_loop (length (clu_pages c)) 0 i ?dev = Some (0, dev')" "dio_frame i ?dev dev'" "dio_wf dev'" "unread dev' \<subseteq> unread ?dev"
    "dio_abs dev' = (dio_abs dev)\<lparr>content := (content (dio_abs dev))(i :=
        memcpy_at (content (dio_abs dev) i) 0 (replicate (dev_clu_size dev) 0))\<rparr>"
    using dio_clu_zero_loop_ok [OF d(1), of i 0 "length (clu_pages c)"] assms(2) len d(2) by auto
  have "memcpy_at (content (dio_abs dev) i) 0 (replicate (dev_clu_size dev) 0) = replicate (dev_clu_size dev) 0"
    by (rule memcpy_at_all) (simp add: length_content [OF assms])
  moreover have "dio_clu_zero dev i = Some (0, dev')"
    using True c z by (simp add: dio_clu_zero_def next_mem_eq)
  ultimately show ?thesis
    using that z dio_frame_trans [OF dio_frame_mem [OF dio_wf_dev [OF assms(1)]] z(2)] by (simp add: unread_def)
next
  case False
  then have "dio_clu_zero dev i = Some (- ENOMEM, dev\<lparr>mem_out := drop 1 (mem_out dev)\<rparr>)"
    by (simp add: dio_clu_zero_def next_mem_eq)
  then show ?thesis
    using that False dio_frame_mem [OF dio_wf_dev [OF assms(1)]] dio_frame_pres_mem [OF assms(1)]
    by (force simp: env_ok_def unread_def)
qed

text \<open>Ageing changes nothing but the ages.\<close>

lemma dio_clus_age_ok:
  assumes "dio_wf dev"
  shows "dio_wf (dio_clus_age dev)" "dio_abs (dio_clus_age dev) = dio_abs dev" "unread (dio_clus_age dev) = unread dev"
proof -
  have l: "RBT.lookup (clus_root (dio_clus_age dev)) i = map_option dio_clu_age (RBT.lookup (clus_root dev) i)" for i
    by (simp add: dio_clus_age_def)
  have d: "dom (RBT.lookup (clus_root (dio_clus_age dev))) = dom (RBT.lookup (clus_root dev))"
    by (auto simp: l)
  have k: "clu_ok (dio_clus_age dev) x i (dio_clu_age c) \<longleftrightarrow> clu_ok dev x i c" for x i c
    by (simp add: dio_clus_age_def clu_ok_def clu_base_def dio_clu_age_def)
  show "dio_wf (dio_clus_age dev)"
    using assms unfolding dio_wf_ex_def d
    by (auto simp: l k) (simp_all add: dio_clus_age_def)
  show "unread (dio_clus_age dev) = unread dev"
    by (auto simp: unread_def l dio_clu_age_def)
  have "dio_view (dio_clus_age dev) = dio_view dev" "dio_pins (dio_clus_age dev) = dio_pins dev"
    by (simp_all add: dio_view_def dio_pins_def clu_view_def fun_eq_iff l dio_clu_age_def split: option.splits)
      (simp_all add: dio_clus_age_def)
  then show "dio_abs (dio_clus_age dev) = dio_abs dev"
    by (simp add: dio_abs_def)
qed

end
