(* ===== verification/Dio_Cache.thy ===== *)
theory Dio_Cache
  imports Dio_Inv "HOL-Library.Multiset"
begin

text \<open>
  Eviction, shrinking and release of the cluster cache, and the refinement of a
  flat array of clusters by the whole interface: \<open>dio_step\<close> is the interface,
  \<open>flat_step\<close> its specification, which is defined only for operations that the
  contract of the interface allows.
\<close>

section \<open>Eviction\<close>

lemma unread_cong:
  assumes "\<And>j. map_option CLU_READ (RBT.lookup r j) = map_option CLU_READ (RBT.lookup (clus_root dev) j)"
  shows "unread (dev\<lparr>clus_root := r\<rparr>) = unread dev"
proof -
  have *: "unread d = {i. map_option CLU_READ (RBT.lookup (clus_root d) i) = Some False}" for d
    by (auto simp: unread_def)
  show ?thesis
    unfolding * by (simp add: assms del: map_option_eq_Some)
qed

lemma dio_ref_all_eq:
  assumes "distinct is" "\<And>i. i \<in> set is \<Longrightarrow> \<exists>c. RBT.lookup (clus_root dev) i = Some c \<and> 0 < clu_ref c"
  shows "\<exists>r. dio_ref_all is dev = Some (dev\<lparr>clus_root := r\<rparr>)
     \<and> RBT.lookup r = (\<lambda>j. map_option (\<lambda>c. if j \<in> set is then c\<lparr>clu_ref := clu_ref c + 1\<rparr> else c) (RBT.lookup (clus_root dev) j))"
  using assms
proof (induction "is" arbitrary: dev)
  case Nil
  show ?case by (intro exI [of _ "clus_root dev"]) (simp add: option.map_ident fun_eq_iff)
next
  case (Cons i "is")
  obtain c where c: "RBT.lookup (clus_root dev) i = Some c" "0 < clu_ref c"
    using Cons.prems(2) by auto
  let ?dev = "dev\<lparr>clus_root := RBT.insert i (c\<lparr>clu_ref := clu_ref c + 1\<rparr>) (clus_root dev)\<rparr>"
  have "dio_ref_index dev i = Some ?dev"
    using c by (simp add: dio_ref_index_def dio_clu_ref_def)
  moreover have "\<exists>c. RBT.lookup (clus_root ?dev) j = Some c \<and> 0 < clu_ref c" if "j \<in> set is" for j
    using that Cons.prems by (cases "j = i") auto
  then obtain r where "dio_ref_all is ?dev = Some (dev\<lparr>clus_root := r\<rparr>)"
    "RBT.lookup r = (\<lambda>j. map_option (\<lambda>c. if j \<in> set is then c\<lparr>clu_ref := clu_ref c + 1\<rparr> else c) (RBT.lookup (clus_root ?dev) j))"
    using Cons.IH [of ?dev] Cons.prems(1) by auto
  ultimately show ?case
    using c Cons.prems(1) by (intro exI [of _ r]) (auto simp: fun_eq_iff)
qed

definition batch_ex :: "u64 set \<Rightarrow> u64 \<Rightarrow> int" where
  "batch_ex N i = (if i \<in> N then 1 else 0)"

lemma dio_ref_all_ok:
  assumes "dio_wf dev" "distinct is" "set is \<subseteq> dom (RBT.lookup (clus_root dev))"
  obtains r where "dio_ref_all is dev = Some (dev\<lparr>clus_root := r\<rparr>)" "dio_wf_ex (batch_ex (set is)) (dev\<lparr>clus_root := r\<rparr>)"
    "dio_abs (dev\<lparr>clus_root := r\<rparr>) = dio_abs dev" "dio_lru_age (dev\<lparr>clus_root := r\<rparr>) = dio_lru_age dev"
    "dom (RBT.lookup r) = dom (RBT.lookup (clus_root dev))" "unread (dev\<lparr>clus_root := r\<rparr>) = unread dev"
proof -
  have "\<exists>c. RBT.lookup (clus_root dev) i = Some c \<and> 0 < clu_ref c" if "i \<in> set is" for i
    using that assms(1,3) by (fastforce simp: dio_wf_ex_def clu_ok_def clu_base_def)
  then obtain r where r: "dio_ref_all is dev = Some (dev\<lparr>clus_root := r\<rparr>)"
    and l: "RBT.lookup r = (\<lambda>j. map_option (\<lambda>c. if j \<in> set is then c\<lparr>clu_ref := clu_ref c + 1\<rparr> else c) (RBT.lookup (clus_root dev) j))"
    using dio_ref_all_eq [OF assms(2)] by blast
  have d: "dom (RBT.lookup r) = dom (RBT.lookup (clus_root dev))"
    by (auto simp: l)
  have "nr_clus (dev\<lparr>clus_root := r\<rparr>) = card (dom (RBT.lookup r))"
    using dio_wf_nr [OF assms(1)] unfolding d by simp
  then have "dio_wf_ex (batch_ex (set is)) (dev\<lparr>clus_root := r\<rparr>)"
    using assms(1) by (auto simp: dio_wf_ex_def l batch_ex_def clu_ok_def clu_base_def)
  moreover have "dio_view (dev\<lparr>clus_root := r\<rparr>) = dio_view dev" "dio_pins (dev\<lparr>clus_root := r\<rparr>) = dio_pins dev"
    by (auto simp: dio_view_def dio_pins_def clu_view_def fun_eq_iff l split: option.splits)
  moreover have "dio_lru_age (dev\<lparr>clus_root := r\<rparr>) = dio_lru_age dev"
    by (auto simp: dio_lru_age_def fun_eq_iff l split: option.splits)
  moreover have "unread (dev\<lparr>clus_root := r\<rparr>) = unread dev"
    by (rule unread_cong) (simp add: l option.map_comp comp_def if_distrib cong: if_cong)
  ultimately show thesis
    using that r d by (simp add: dio_abs_def)
qed

text \<open>
  A cluster leaves the tree and is synced: the device holds its bytes afterwards.
  The cluster may have other references and pins than the tree's copy had.
\<close>

lemma clu_removed_ok:
  assumes "dio_wf_ex ex dev" "env_ok dev" "RBT.lookup (clus_root dev) i = Some c"
    and "clu_base dev x i c2" "clu_pages c2 = clu_pages c" "CLU_READ c2 = CLU_READ c" "CLU_DIRTY c2 = CLU_DIRTY c"
    and "RBT.lookup r = (RBT.lookup (clus_root dev))(i := None)"
    and "dio_clu_sync (dev\<lparr>clus_root := r, nr_clus := nr_clus dev - 1\<rparr>) c2 = (err, dev', c')"
  shows "dio_wf_ex ex dev'" "env_ok dev'" "RBT.lookup (clus_root dev') = (RBT.lookup (clus_root dev))(i := None)"
    "nr_clus dev' = nr_clus dev - 1" "nr_max_clus dev' = nr_max_clus dev" "dev_clu_size dev' = dev_clu_size dev"
    "clu_ref c' = clu_ref c2" "\<not> CLU_DIRTY c'" "dio_abs dev' = (dio_abs dev)\<lparr>pins := (pins (dio_abs dev))(i := 0)\<rparr>"
proof -
  note w = dio_wf_lookup [OF assms(1,3)]
  let ?dev = "dev\<lparr>clus_root := r, nr_clus := nr_clus dev - 1\<rparr>"
  have d: "dev_ok ?dev" "clu_base ?dev x i c2" "env_ok ?dev"
    using assms(4) dio_wf_dev [OF assms(1)] assms(2) by (simp_all add: dev_ok_def clu_base_def env_ok_def)
  note y = dio_clu_sync_ok [OF d(1,2) assms(9)]
  show c': "\<not> CLU_DIRTY c'" and "clu_ref c' = clu_ref c2"
    using y(5) y(6) [OF d(3)] by simp_all
  have fr: "dio_frame i dev dev'"
    using y(1) dio_frame_trans [of i dev ?dev dev'] dio_frame_refl [OF dio_wf_dev [OF assms(1)], of i] by simp
  then show "env_ok dev'" and sz: "dev_clu_size dev' = dev_clu_size dev" and "nr_max_clus dev' = nr_max_clus dev"
    using dio_frame_env_ok [OF fr assms(2)] by (simp_all add: dio_frame_def)
  show l: "RBT.lookup (clus_root dev') = (RBT.lookup (clus_root dev))(i := None)" and nr: "nr_clus dev' = nr_clus dev - 1"
    using y(2,3) assms(8) by simp_all
  have "nr_clus dev' = card (dom (RBT.lookup (clus_root dev')))"
    using nr assms(3) dio_wf_nr [OF assms(1)] by (simp add: l domI)
  moreover have "clu_ok dev' (ex j) j k \<and> index_ok (dev_clu_size dev) j" if "RBT.lookup (clus_root dev') j = Some k" for j k
  proof -
    have "j \<noteq> i" "RBT.lookup (clus_root dev) j = Some k"
      using that l by (auto split: if_splits)
    then show ?thesis
      using dio_wf_lookup [OF assms(1)] clu_ok_frame [OF fr dio_wf_dev [OF assms(1)] w(2)] by metis
  qed
  ultimately show "dio_wf_ex ex dev'"
    using fr by (auto simp: dio_wf_ex_def dio_frame_def)
  have "concat (clu_pages c) = disk dev' (clu_sector (dev_clu_size dev) i)" if "CLU_READ c"
    using y(4,5) c' that sz assms(5,6) by (auto simp: clu_base_def)
  moreover have "disk dev' = disk dev" if "\<not> CLU_READ c"
    using assms(4,6,9) that by (auto simp: dio_clu_sync_def clu_base_def)
  ultimately have "dio_view dev' j = dio_view dev j" for j
    using clu_view_frame [OF fr dio_wf_dev [OF assms(1)] w(2), of j] sz assms(3)
    by (cases "j = i") (auto simp: dio_view_def l clu_view_def)
  moreover have "dio_pins dev' = (dio_pins dev)(i := 0)"
    by (auto simp: dio_pins_def l fun_eq_iff)
  ultimately show "dio_abs dev' = (dio_abs dev)\<lparr>pins := (pins (dio_abs dev))(i := 0)\<rparr>"
    by (simp add: dio_abs_def fun_eq_iff)
qed

lemma dio_lru_evict_ok:
  assumes "dio_wf_ex ex dev" "env_ok dev" "RBT.lookup (clus_root dev) i = Some c" "pin_count c = 0" "ex i = 1"
    and "nr_clus dev > nr_max_clus dev"
  obtains dev' c' where "dio_lru_evict i (dev, gone) = Some (dev', (i, c') # gone)" "dio_wf_ex ex dev'" "env_ok dev'"
    "RBT.lookup (clus_root dev') = (RBT.lookup (clus_root dev))(i := None)" "nr_clus dev' = nr_clus dev - 1"
    "nr_max_clus dev' = nr_max_clus dev" "clu_ref c' = 1" "\<not> CLU_DIRTY c'" "dio_abs dev' = dio_abs dev"
    "dev_clu_size dev' = dev_clu_size dev"
proof -
  note w = dio_wf_lookup [OF assms(1,3)]
  let ?r = "RBT.delete i (clus_root dev)"
  obtain err dev1 c1 where s: "dio_clu_sync (dev\<lparr>clus_root := ?r, nr_clus := nr_clus dev - 1\<rparr>) c = (err, dev1, c1)"
    using prod_cases3 by blast
  have l: "RBT.lookup ?r = (RBT.lookup (clus_root dev))(i := None)"
    by simp
  note y = clu_removed_ok [OF assms(1-3) w(3) refl refl refl l s]
  have c1: "clu_ref c1 = 3"
    using y(7) w(3) assms(4,5) by (simp add: clu_base_def)
  have e: "dio_lru_evict i (dev, gone) = Some (dev1, (i, c1\<lparr>clu_ref := 1\<rparr>) # gone)"
    using assms(3,4,6) w s c1
    by (simp add: dio_lru_evict_def dio_clu_remove_def dio_clu_pinned_def dio_clu_deref_def clu_base_def Let_def)
  have "(pins (dio_abs dev))(i := 0) = pins (dio_abs dev)"
    using assms(3,4) by (auto simp: pins_dio_abs fun_eq_iff)
  then show thesis
    using that [OF e y(1-5) _ _ _ y(6)] y(8,9) by simp
qed

lemma dio_lru_loop_ok:
  assumes "dio_wf_ex ex dev" "env_ok dev" "distinct is"
    and "\<And>i. i \<in> set is \<Longrightarrow> ex i = 1 \<and> (\<exists>c. RBT.lookup (clus_root dev) i = Some c \<and> pin_count c = 0)"
    and "\<And>i c. (i, c) \<in> set gone \<Longrightarrow> clu_ref c = 1 \<and> \<not> CLU_DIRTY c"
  defines "k \<equiv> min (length is) (nr_clus dev - nr_max_clus dev)"
  shows "\<exists>dev' gone'. dio_lru_loop is (dev, gone) = Some (dev', gone') \<and> dio_wf_ex ex dev' \<and> env_ok dev'
     \<and> RBT.lookup (clus_root dev') = (\<lambda>j. if j \<in> set (take k is) then None else RBT.lookup (clus_root dev) j)
     \<and> nr_clus dev' = nr_clus dev - k \<and> nr_max_clus dev' = nr_max_clus dev \<and> dio_abs dev' = dio_abs dev
     \<and> dev_clu_size dev' = dev_clu_size dev
     \<and> (\<forall>i c. (i, c) \<in> set gone' \<longrightarrow> clu_ref c = 1 \<and> \<not> CLU_DIRTY c) \<and> fst ` set gone' = set (take k is) \<union> fst ` set gone"
  using assms(1-5) unfolding k_def
proof (induction "is" arbitrary: dev gone)
  case Nil
  then show ?case by simp
next
  case (Cons i "is")
  show ?case
  proof (cases "nr_clus dev > nr_max_clus dev")
    case False
    then have "dio_lru_evict i (dev, gone) = Some (dev, gone)"
      by (simp add: dio_lru_evict_def)
    then show ?thesis
      using Cons.IH [of dev gone] Cons.prems False by simp
  next
    case True
    obtain c where c: "RBT.lookup (clus_root dev) i = Some c" "pin_count c = 0" "ex i = 1"
      using Cons.prems(4) by auto
    obtain dev1 c1 where e: "dio_lru_evict i (dev, gone) = Some (dev1, (i, c1) # gone)" "dio_wf_ex ex dev1" "env_ok dev1"
      and l: "RBT.lookup (clus_root dev1) = (RBT.lookup (clus_root dev))(i := None)"
      and n: "nr_clus dev1 = nr_clus dev - 1" "nr_max_clus dev1 = nr_max_clus dev" "dio_abs dev1 = dio_abs dev"
        "dev_clu_size dev1 = dev_clu_size dev"
      and c1: "clu_ref c1 = 1" "\<not> CLU_DIRTY c1"
      using dio_lru_evict_ok [OF Cons.prems(1,2) c(1,2) c(3) True] by metis
    let ?k = "min (length is) (nr_clus dev1 - nr_max_clus dev1)"
    have "\<exists>dev' gone'. dio_lru_loop is (dev1, (i, c1) # gone) = Some (dev', gone') \<and> dio_wf_ex ex dev' \<and> env_ok dev'
     \<and> RBT.lookup (clus_root dev') = (\<lambda>j. if j \<in> set (take ?k is) then None else RBT.lookup (clus_root dev1) j)
     \<and> nr_clus dev' = nr_clus dev1 - ?k \<and> nr_max_clus dev' = nr_max_clus dev1 \<and> dio_abs dev' = dio_abs dev1
     \<and> dev_clu_size dev' = dev_clu_size dev1
     \<and> (\<forall>i c. (i, c) \<in> set gone' \<longrightarrow> clu_ref c = 1 \<and> \<not> CLU_DIRTY c) \<and> fst ` set gone' = set (take ?k is) \<union> fst ` set ((i, c1) # gone)"
      by (rule Cons.IH) (use e l c1 Cons.prems in auto)
    moreover have "min (length (i # is)) (nr_clus dev - nr_max_clus dev) = Suc ?k"
      using True n by auto
    ultimately show ?thesis
      using e(1) n l by (auto simp: fun_eq_iff)
  qed
qed

lemma dio_deref_all_eq:
  assumes "distinct is" "\<And>i c. (i, c) \<in> set gone \<Longrightarrow> clu_ref c = 1 \<and> \<not> CLU_DIRTY c"
    and "\<And>i. i \<in> set is \<Longrightarrow> i \<notin> fst ` set gone \<Longrightarrow> \<exists>c. RBT.lookup (clus_root dev) i = Some c \<and> 2 \<le> clu_ref c"
  shows "\<exists>r. dio_deref_all gone is dev = Some (dev\<lparr>clus_root := r\<rparr>) \<and> RBT.lookup r = (\<lambda>j. map_option
      (\<lambda>c. if j \<in> set is \<and> j \<notin> fst ` set gone then c\<lparr>clu_ref := clu_ref c - 1\<rparr> else c) (RBT.lookup (clus_root dev) j))"
  using assms(1,3)
proof (induction "is" arbitrary: dev)
  case Nil
  show ?case by (intro exI [of _ "clus_root dev"]) (simp add: option.map_ident fun_eq_iff)
next
  case (Cons i "is")
  show ?case
  proof (cases "i \<in> fst ` set gone")
    case True
    then obtain c where c: "map_of gone i = Some c" "(i, c) \<in> set gone"
      by (metis map_of_SomeD map_of_eq_None_iff not_None_eq)
    then have "dio_deref_index gone i dev = Some dev"
      using assms(2) [OF c(2)] by (simp add: dio_deref_index_def dio_clu_deref_def Let_def)
    moreover obtain r where "dio_deref_all gone is dev = Some (dev\<lparr>clus_root := r\<rparr>)" "RBT.lookup r = (\<lambda>j. map_option
      (\<lambda>c. if j \<in> set is \<and> j \<notin> fst ` set gone then c\<lparr>clu_ref := clu_ref c - 1\<rparr> else c) (RBT.lookup (clus_root dev) j))"
      using Cons.IH [of dev] Cons.prems by auto
    ultimately show ?thesis
      using True by (intro exI [of _ r] conjI ext) (simp, simp, rule option.map_cong0, auto)
  next
    case False
    then obtain c where c: "RBT.lookup (clus_root dev) i = Some c" "2 \<le> clu_ref c"
      using Cons.prems(2) by auto
    let ?dev = "dev\<lparr>clus_root := RBT.insert i (c\<lparr>clu_ref := clu_ref c - 1\<rparr>) (clus_root dev)\<rparr>"
    have "map_of gone i = None"
      using False by (simp add: map_of_eq_None_iff)
    then have "dio_deref_index gone i dev = Some ?dev"
      using c by (simp add: dio_deref_index_def dio_clu_deref_def Let_def)
    moreover have "\<exists>c. RBT.lookup (clus_root ?dev) j = Some c \<and> 2 \<le> clu_ref c" if "j \<in> set is" "j \<notin> fst ` set gone" for j
      using that Cons.prems by (cases "j = i") auto
    then obtain r where "dio_deref_all gone is ?dev = Some (dev\<lparr>clus_root := r\<rparr>)" "RBT.lookup r = (\<lambda>j. map_option
      (\<lambda>c. if j \<in> set is \<and> j \<notin> fst ` set gone then c\<lparr>clu_ref := clu_ref c - 1\<rparr> else c) (RBT.lookup (clus_root ?dev) j))"
      using Cons.IH [of ?dev] Cons.prems(1) by auto
    ultimately show ?thesis
      using c False Cons.prems(1) by (intro exI [of _ r]) (auto simp: fun_eq_iff)
  qed
qed

lemma dio_deref_all_ok:
  assumes "dio_wf_ex (batch_ex N) dev" "distinct is" "set is = N"
    and "\<And>i c. (i, c) \<in> set gone \<Longrightarrow> clu_ref c = 1 \<and> \<not> CLU_DIRTY c"
    and "N \<inter> dom (RBT.lookup (clus_root dev)) = N - fst ` set gone"
  obtains r where "dio_deref_all gone is dev = Some (dev\<lparr>clus_root := r\<rparr>)" "dio_wf (dev\<lparr>clus_root := r\<rparr>)"
    "dio_abs (dev\<lparr>clus_root := r\<rparr>) = dio_abs dev" "dom (RBT.lookup r) = dom (RBT.lookup (clus_root dev))"
    "unread (dev\<lparr>clus_root := r\<rparr>) = unread dev"
proof -
  have "\<exists>c. RBT.lookup (clus_root dev) i = Some c \<and> 2 \<le> clu_ref c" if "i \<in> set is" "i \<notin> fst ` set gone" for i
  proof -
    have "i \<in> dom (RBT.lookup (clus_root dev))"
      using that assms(3,5) by auto
    then show ?thesis
      using assms(1) that(1) assms(3) by (fastforce simp: dio_wf_ex_def clu_ok_def clu_base_def batch_ex_def)
  qed
  then obtain r where r: "dio_deref_all gone is dev = Some (dev\<lparr>clus_root := r\<rparr>)"
    and l: "RBT.lookup r = (\<lambda>j. map_option
      (\<lambda>c. if j \<in> set is \<and> j \<notin> fst ` set gone then c\<lparr>clu_ref := clu_ref c - 1\<rparr> else c) (RBT.lookup (clus_root dev) j))"
    using dio_deref_all_eq [OF assms(2), of gone dev] assms(4) by blast
  have d: "dom (RBT.lookup r) = dom (RBT.lookup (clus_root dev))"
    by (auto simp: l)
  have g: "j \<notin> fst ` set gone" if "j \<in> N" "RBT.lookup (clus_root dev) j = Some c" for j c
    using that assms(5) by blast
  have "nr_clus (dev\<lparr>clus_root := r\<rparr>) = card (dom (RBT.lookup r))"
    using dio_wf_nr [OF assms(1)] unfolding d by simp
  moreover have "clu_ok dev 0 j c \<and> index_ok (dev_clu_size dev) j" if a: "RBT.lookup r j = Some c" for j c
  proof -
    obtain k where k: "RBT.lookup (clus_root dev) j = Some k"
      using a by (auto simp: l)
    then have c: "c = (if j \<in> N then k\<lparr>clu_ref := clu_ref k - 1\<rparr> else k)"
      using a g [OF _ k] by (cases "j \<in> N") (simp_all add: l assms(3))
    show ?thesis
      using dio_wf_lookup [OF assms(1) k] unfolding c by (simp add: batch_ex_def clu_ok_def clu_base_def)
  qed
  ultimately have "dio_wf (dev\<lparr>clus_root := r\<rparr>)"
    using dio_wf_dev [OF assms(1)] by (simp add: dio_wf_ex_def)
  moreover have "dio_view (dev\<lparr>clus_root := r\<rparr>) = dio_view dev" "dio_pins (dev\<lparr>clus_root := r\<rparr>) = dio_pins dev"
    by (auto simp: dio_view_def dio_pins_def clu_view_def fun_eq_iff l split: option.splits)
  moreover have "unread (dev\<lparr>clus_root := r\<rparr>) = unread dev"
    by (rule unread_cong) (simp add: l option.map_comp comp_def if_distrib cong: if_cong)
  ultimately show thesis
    using that r d by (simp add: dio_abs_def)
qed

text \<open>What the kernel's \<open>sort\<close> promises.\<close>

definition sort_law :: "((u64 \<Rightarrow> u64) \<Rightarrow> u64 list \<Rightarrow> u64 list) \<Rightarrow> bool" where
  "sort_law srt \<longleftrightarrow> (\<forall>age nodes. mset (srt age nodes) = mset nodes \<and> sorted (map age (srt age nodes)))"

lemma sort_law_set:
  assumes "sort_law srt"
  shows "set (srt age nodes) = set nodes" "length (srt age nodes) = length nodes" "distinct (srt age nodes) \<longleftrightarrow> distinct nodes"
    "sorted (map age (srt age nodes))"
proof -
  have m: "mset (srt age nodes) = mset nodes"
    using assms by (simp add: sort_law_def)
  show "set (srt age nodes) = set nodes" "length (srt age nodes) = length nodes"
    using m by (rule mset_eq_setD, rule mset_eq_length)
  show "distinct (srt age nodes) \<longleftrightarrow> distinct nodes"
    using m by (rule mset_eq_imp_distinct_iff)
  show "sorted (map age (srt age nodes))"
    using assms by (simp add: sort_law_def)
qed

definition unpinned :: "dio_dev \<Rightarrow> u64 set" where
  "unpinned dev = {i \<in> dom (RBT.lookup (clus_root dev)). pins (dio_abs dev) i = 0}"

lemma dio_lru_nodes_ok:
  assumes "dio_wf dev"
  shows "distinct (dio_lru_nodes dev)" "set (dio_lru_nodes dev) \<subseteq> unpinned dev"
    "length (dio_lru_nodes dev) = min 512 (card (unpinned dev))"
    "i \<in> set (dio_lru_nodes dev) \<Longrightarrow> \<exists>c. RBT.lookup (clus_root dev) i = Some c \<and> pin_count c = 0"
proof -
  let ?P = "\<lambda>i. case RBT.lookup (clus_root dev) i of None \<Rightarrow> False | Some c \<Rightarrow> \<not> dio_clu_pinned c"
  have set: "set (filter ?P (RBT.keys (clus_root dev))) = unpinned dev"
  proof -
    have "?P i \<longleftrightarrow> pins (dio_abs dev) i = 0" if "RBT.lookup (clus_root dev) i = Some c" for i c
      using that dio_wf_lookup(3) [OF assms that] by (auto simp: pins_dio_abs dio_clu_pinned_def clu_base_def)
    then show ?thesis
      by (auto simp: unpinned_def RBT.lookup_keys [symmetric])
  qed
  have dist: "distinct (filter ?P (RBT.keys (clus_root dev)))"
    by simp
  show "distinct (dio_lru_nodes dev)"
    unfolding dio_lru_nodes_def using dist by (rule distinct_take)
  show "set (dio_lru_nodes dev) \<subseteq> unpinned dev"
    using set_take_subset set unfolding dio_lru_nodes_def by metis
  show "length (dio_lru_nodes dev) = min 512 (card (unpinned dev))"
    using distinct_card [OF dist] unfolding set by (simp add: dio_lru_nodes_def)
  show "\<exists>c. RBT.lookup (clus_root dev) i = Some c \<and> pin_count c = 0" if "i \<in> set (dio_lru_nodes dev)"
    using in_set_takeD [OF that [unfolded dio_lru_nodes_def]]
    by (auto simp: dio_clu_pinned_def split: option.splits)
qed

text \<open>Eviction: the oldest unpinned clusters of the batch go, nothing that can be observed changes.\<close>

lemma dio_clus_lru_frees_ok:
  assumes "dio_wf dev" "env_ok dev" "sort_law srt" "nr_max_clus dev < nr_clus dev"
  defines "victims \<equiv> take (nr_clus dev - nr_max_clus dev) (srt (dio_lru_age dev) (dio_lru_nodes dev))"
  obtains dev' where "dio_clus_lru_frees srt dev = Some (0, dev')" "dio_wf dev'" "env_ok dev'" "dio_abs dev' = dio_abs dev"
    "nr_max_clus dev' = nr_max_clus dev" "dev_clu_size dev' = dev_clu_size dev"
    "dom (RBT.lookup (clus_root dev')) = dom (RBT.lookup (clus_root dev)) - set victims" "unread dev' \<subseteq> unread dev"
proof -
  let ?nodes = "dio_lru_nodes dev"
  let ?srt = "srt (dio_lru_age dev) ?nodes"
  let ?k = "min (length ?srt) (nr_clus dev - nr_max_clus dev)"
  note n = dio_lru_nodes_ok [OF assms(1)]
  note s = sort_law_set [OF assms(3), of "dio_lru_age dev" ?nodes]
  have v: "set (take ?k ?srt) = set victims"
    by (simp add: victims_def min_def)
  have mem: "next_mem dev = (True, dev)"
    using assms(2) by (simp add: next_mem_eq env_ok_def)
  have sub: "set ?nodes \<subseteq> dom (RBT.lookup (clus_root dev))"
    using n(2) by (auto simp: unpinned_def)
  obtain r where r: "dio_ref_all ?nodes dev = Some (dev\<lparr>clus_root := r\<rparr>)" "dio_wf_ex (batch_ex (set ?nodes)) (dev\<lparr>clus_root := r\<rparr>)"
    "dio_abs (dev\<lparr>clus_root := r\<rparr>) = dio_abs dev" "dio_lru_age (dev\<lparr>clus_root := r\<rparr>) = dio_lru_age dev"
    "dom (RBT.lookup r) = dom (RBT.lookup (clus_root dev))" "unread (dev\<lparr>clus_root := r\<rparr>) = unread dev"
    using dio_ref_all_ok [OF assms(1) n(1) sub] by blast
  let ?dev = "dev\<lparr>clus_root := r\<rparr>"
  have unp: "batch_ex (set ?nodes) i = 1 \<and> (\<exists>c. RBT.lookup (clus_root ?dev) i = Some c \<and> pin_count c = 0)" if "i \<in> set ?srt" for i
  proof -
    have i: "i \<in> set ?nodes" "i \<in> unpinned dev" "i \<in> dom (RBT.lookup r)"
      using that s(1) n(2) sub r(5) by auto
    then obtain c where c: "RBT.lookup r i = Some c" by auto
    have "pins (dio_abs ?dev) i = 0"
      using i(2) r(3) by (simp add: unpinned_def)
    then show ?thesis
      using i(1) c dio_wf_lookup(3) [OF r(2), of i c] by (simp add: batch_ex_def pins_dio_abs clu_base_def)
  qed
  obtain dev1 gone where l: "dio_lru_loop ?srt (?dev, []) = Some (dev1, gone)" "dio_wf_ex (batch_ex (set ?nodes)) dev1" "env_ok dev1"
     "RBT.lookup (clus_root dev1) = (\<lambda>j. if j \<in> set (take ?k ?srt) then None else RBT.lookup r j)"
     "nr_max_clus dev1 = nr_max_clus dev" "dio_abs dev1 = dio_abs dev" "dev_clu_size dev1 = dev_clu_size dev"
     "\<forall>i c. (i, c) \<in> set gone \<longrightarrow> clu_ref c = 1 \<and> \<not> CLU_DIRTY c" "fst ` set gone = set (take ?k ?srt)"
  proof -
    have e: "env_ok ?dev" "distinct ?srt"
      using assms(2) s(3) n(1) by (simp_all add: env_ok_def)
    have g: "\<And>i c. (i, c) \<in> set [] \<Longrightarrow> clu_ref c = 1 \<and> \<not> CLU_DIRTY c"
      by simp
    from dio_lru_loop_ok [of "batch_ex (set ?nodes)" ?dev ?srt "[]", OF r(2) e unp g] show thesis
      using that r(3) by (auto cong: if_cong)
  qed
  have dom1: "dom (RBT.lookup (clus_root dev1)) = dom (RBT.lookup (clus_root dev)) - set victims"
    using r(5) unfolding l(4) v by (auto simp: dom_def)
  have "set ?nodes \<inter> dom (RBT.lookup (clus_root dev1)) = set ?nodes - fst ` set gone"
    using sub dom1 v l(9) by auto
  from this obtain r2 where "dio_deref_all gone ?srt dev1 = Some (dev1\<lparr>clus_root := r2\<rparr>)" "dio_wf (dev1\<lparr>clus_root := r2\<rparr>)"
    "dio_abs (dev1\<lparr>clus_root := r2\<rparr>) = dio_abs dev1" "dom (RBT.lookup r2) = dom (RBT.lookup (clus_root dev1))"
    "unread (dev1\<lparr>clus_root := r2\<rparr>) = unread dev1"
    using dio_deref_all_ok [OF l(2) _ s(1), of gone] s(3) n(1) l(8) by blast
  moreover have "unread dev1 \<subseteq> unread ?dev"
    by (auto simp: unread_def l(4) split: if_splits)
  ultimately show thesis
    using that [of "dev1\<lparr>clus_root := r2\<rparr>"] assms(4) mem r l dom1
    by (simp add: dio_clus_lru_frees_def env_ok_def)
qed

text \<open>Shrinking ends as soon as the pinned clusters leave room, and never otherwise.\<close>

lemma card_unpinned:
  assumes "dio_wf dev"
  shows "card (unpinned dev) + card {i. 0 < pins (dio_abs dev) i} = nr_clus dev"
proof -
  have "dom (RBT.lookup (clus_root dev)) = unpinned dev \<union> {i. 0 < pins (dio_abs dev) i}"
    by (auto simp: unpinned_def pins_dio_abs split: option.splits)
  moreover have "finite (dom (RBT.lookup (clus_root dev)))"
    by simp
  moreover have "unpinned dev \<inter> {i. 0 < pins (dio_abs dev) i} = {}"
    by (auto simp: unpinned_def)
  ultimately show ?thesis
    using dio_wf_nr [OF assms] by (metis card_Un_disjoint finite_Un)
qed

lemma dio_clus_lru_frees_progress:
  assumes "dio_wf dev" "env_ok dev" "sort_law srt" "nr_max_clus dev < nr_clus dev"
  obtains dev' where "dio_clus_lru_frees srt dev = Some (0, dev')" "dio_wf dev'" "env_ok dev'" "dio_abs dev' = dio_abs dev"
    "nr_max_clus dev' = nr_max_clus dev" "dev_clu_size dev' = dev_clu_size dev"
    "nr_clus dev' = nr_clus dev - min (nr_clus dev - nr_max_clus dev) (min 512 (card (unpinned dev)))"
    "unread dev' \<subseteq> unread dev"
proof -
  let ?s = "srt (dio_lru_age dev) (dio_lru_nodes dev)"
  let ?v = "take (nr_clus dev - nr_max_clus dev) ?s"
  obtain dev' where d: "dio_clus_lru_frees srt dev = Some (0, dev')" "dio_wf dev'" "env_ok dev'" "dio_abs dev' = dio_abs dev"
    "nr_max_clus dev' = nr_max_clus dev" "dev_clu_size dev' = dev_clu_size dev"
    "dom (RBT.lookup (clus_root dev')) = dom (RBT.lookup (clus_root dev)) - set ?v" "unread dev' \<subseteq> unread dev"
    by (rule dio_clus_lru_frees_ok [OF assms])
  note n = dio_lru_nodes_ok [OF assms(1)] and s = sort_law_set [OF assms(3), of "dio_lru_age dev" "dio_lru_nodes dev"]
  have "set ?v \<subseteq> set ?s" by (rule set_take_subset)
  then have sub: "set ?v \<subseteq> dom (RBT.lookup (clus_root dev))"
    using s(1) n(2) by (auto simp: unpinned_def)
  have "card (set ?v) = min (nr_clus dev - nr_max_clus dev) (min 512 (card (unpinned dev)))"
    using distinct_card [of ?v] distinct_take [of ?s] s(2,3) n(1,3) by (simp add: min.commute)
  then have "nr_clus dev' = nr_clus dev - min (nr_clus dev - nr_max_clus dev) (min 512 (card (unpinned dev)))"
    using dio_wf_nr [OF d(2)] dio_wf_nr [OF assms(1)] card_Diff_subset [OF _ sub] unfolding d(7) by simp
  then show thesis
    using that d by blast
qed

lemma dio_clus_shrink_ok:
  assumes "dio_wf dev" "env_ok dev" "sort_law srt" "card {i. 0 < pins (dio_abs dev) i} \<le> nr_max_clus dev"
  shows "\<exists>dev'. dio_clus_shrink srt dev = Some dev' \<and> dio_wf dev' \<and> env_ok dev' \<and> dio_abs dev' = dio_abs dev
     \<and> nr_max_clus dev' = nr_max_clus dev \<and> nr_clus dev' = min (nr_clus dev) (nr_max_clus dev)"
  using assms
proof (induction "nr_clus dev" arbitrary: dev rule: less_induct)
  case less
  show ?case
  proof (cases "nr_max_clus dev < nr_clus dev")
    case False
    then have "dio_clus_shrink srt dev = Some dev"
      by (simp add: dio_clus_shrink.simps)
    then show ?thesis
      using False less.prems by simp
  next
    case True
    obtain dev1 where d: "dio_clus_lru_frees srt dev = Some (0, dev1)" "dio_wf dev1" "env_ok dev1" "dio_abs dev1 = dio_abs dev"
      "nr_max_clus dev1 = nr_max_clus dev"
      "nr_clus dev1 = nr_clus dev - min (nr_clus dev - nr_max_clus dev) (min 512 (card (unpinned dev)))"
      using dio_clus_lru_frees_progress [OF less.prems(1-3) True] by blast
    have "0 < card (unpinned dev)"
      using card_unpinned [OF less.prems(1)] less.prems(4) True by linarith
    then have lt: "nr_clus dev1 < nr_clus dev" and ge: "nr_max_clus dev \<le> nr_clus dev1"
      using d(6) True by auto
    have "card {i. 0 < pins (dio_abs dev1) i} \<le> nr_max_clus dev1"
      using d less.prems by simp
    from less.hyps [OF lt d(2,3) less.prems(3) this] obtain dev' where
      "dio_clus_shrink srt dev1 = Some dev'" "dio_wf dev'" "env_ok dev'" "dio_abs dev' = dio_abs dev1"
      "nr_max_clus dev' = nr_max_clus dev1" "nr_clus dev' = min (nr_clus dev1) (nr_max_clus dev1)"
      by blast
    moreover have "dio_clus_shrink srt dev = dio_clus_shrink srt dev1"
      by (subst dio_clus_shrink.simps) (simp add: True d(1))
    ultimately show ?thesis
      using d ge True by auto
  qed
qed

lemma dio_clus_shrink_room:
  assumes "dio_clus_shrink srt dev = Some dev'"
  shows "dio_wf dev \<and> env_ok dev \<and> sort_law srt \<longrightarrow> card {i. 0 < pins (dio_abs dev) i} \<le> nr_max_clus dev"
proof (rule dio_clus_shrink.raw_induct [where P = "\<lambda>srt dev dev'. dio_wf dev \<and> env_ok dev \<and> sort_law srt \<longrightarrow>
    card {i. 0 < pins (dio_abs dev) i} \<le> nr_max_clus dev", OF _ assms])
  fix shrink srt dev dev'
  assume IH: "\<And>srt dev dev'. shrink srt dev = Some dev' \<Longrightarrow> dio_wf dev \<and> env_ok dev \<and> sort_law srt \<longrightarrow>
      card {i. 0 < pins (dio_abs dev) i} \<le> nr_max_clus dev"
    and eq: "(if nr_max_clus dev < nr_clus dev then dio_clus_lru_frees srt dev \<bind> (\<lambda>(err, dev). shrink srt dev) else Some dev) = Some dev'"
  show "dio_wf dev \<and> env_ok dev \<and> sort_law srt \<longrightarrow> card {i. 0 < pins (dio_abs dev) i} \<le> nr_max_clus dev"
  proof (intro impI, elim conjE)
    assume a: "dio_wf dev" "env_ok dev" "sort_law srt"
    show "card {i. 0 < pins (dio_abs dev) i} \<le> nr_max_clus dev"
    proof (cases "nr_max_clus dev < nr_clus dev")
      case True
      obtain dev1 where d: "dio_clus_lru_frees srt dev = Some (0, dev1)" "dio_wf dev1" "env_ok dev1" "dio_abs dev1 = dio_abs dev"
        "nr_max_clus dev1 = nr_max_clus dev"
        using dio_clus_lru_frees_progress [OF a True] by blast
      then have "shrink srt dev1 = Some dev'"
        using eq True by simp
      from IH [OF this] show ?thesis
        using d a(3) by simp
    next
      case False
      then show ?thesis
        using card_unpinned [OF a(1)] by linarith
    qed
  qed
qed

section \<open>Release\<close>

lemma dio_clu_release_one_ok:
  assumes "dio_wf dev" "env_ok dev" "i \<in> dom (RBT.lookup (clus_root dev))"
  obtains dev' where "dio_clu_release_one i dev = Some dev'" "dio_wf dev'" "env_ok dev'" "dev_clu_size dev' = dev_clu_size dev"
    "RBT.lookup (clus_root dev') = (RBT.lookup (clus_root dev))(i := None)" "content (dio_abs dev') = content (dio_abs dev)"
proof -
  obtain c where c: "RBT.lookup (clus_root dev) i = Some c"
    using assms(3) by blast
  note w = dio_wf_lookup [OF assms(1) c]
  let ?r1 = "RBT.insert i (c\<lparr>clu_ref := clu_ref c + 1\<rparr>) (clus_root dev)"
  let ?c = "c\<lparr>clu_ref := clu_ref c + 1, pin_count := 0\<rparr>"
  let ?r = "RBT.delete i (RBT.insert i ?c ?r1)"
  have l: "RBT.lookup ?r = (RBT.lookup (clus_root dev))(i := None)"
    by auto
  obtain err dev1 c1 where s: "dio_clu_sync (dev\<lparr>clus_root := ?r, nr_clus := nr_clus dev - 1\<rparr>) ?c = (err, dev1, c1)"
    using prod_cases3 by blast
  have b: "clu_base dev (1 + pin_count c) i ?c"
    using w(3) by (simp add: clu_base_def)
  note y = clu_removed_ok [OF assms(1,2) c b _ _ _ l s]
  have ref: "clu_ref c1 = 3 + pin_count c" "0 \<le> pin_count c" "\<not> CLU_DIRTY c1" "0 < clu_ref c" and i: "clu_index c = i"
    using y(7,8) w(3) by (simp_all add: clu_base_def)
  have "dio_clu_release_one i dev = Some dev1"
    using c s ref i
    by (simp add: dio_clu_release_one_def dio_ref_index_def dio_clu_ref_def dio_clu_remove_def dio_clu_pinned_def
        dio_clu_deref_def Let_def)
  then show thesis
    using that y(1-6,9) by simp
qed

lemma dio_clus_release_loop_ok:
  assumes "dio_wf dev" "env_ok dev" "distinct is" "set is \<subseteq> dom (RBT.lookup (clus_root dev))"
  shows "\<exists>dev'. dio_clus_release_loop is dev = Some dev' \<and> dio_wf dev' \<and> dev_clu_size dev' = dev_clu_size dev
     \<and> dom (RBT.lookup (clus_root dev')) = dom (RBT.lookup (clus_root dev)) - set is \<and> content (dio_abs dev') = content (dio_abs dev)"
  using assms
proof (induction "is" arbitrary: dev)
  case (Cons i "is")
  obtain dev1 where r: "dio_clu_release_one i dev = Some dev1" "dio_wf dev1" "env_ok dev1" "dev_clu_size dev1 = dev_clu_size dev"
    "RBT.lookup (clus_root dev1) = (RBT.lookup (clus_root dev))(i := None)" "content (dio_abs dev1) = content (dio_abs dev)"
    using dio_clu_release_one_ok [OF Cons.prems(1,2), of i] Cons.prems(4) by auto
  have "distinct is" "set is \<subseteq> dom (RBT.lookup (clus_root dev1))"
    using Cons.prems r(5) by auto
  from Cons.IH [OF r(2,3) this] obtain dev' where d: "dio_clus_release_loop is dev1 = Some dev'" "dio_wf dev'"
    "dev_clu_size dev' = dev_clu_size dev1" "dom (RBT.lookup (clus_root dev')) = dom (RBT.lookup (clus_root dev1)) - set is"
    "content (dio_abs dev') = content (dio_abs dev1)"
    by blast
  have "dom (RBT.lookup (clus_root dev1)) = dom (RBT.lookup (clus_root dev)) - {i}"
    by (simp add: r(5))
  then show ?case
    using d r by auto
qed simp

lemma dio_clus_release_ok:
  assumes "dio_wf dev" "env_ok dev"
  obtains dev' where "dio_clus_release dev = Some dev'" "nr_clus dev' = 0" "dom (RBT.lookup (clus_root dev')) = {}"
    "\<And>i. index_ok (dev_clu_size dev) i \<Longrightarrow> disk dev' (clu_sector (dev_clu_size dev) i) = content (dio_abs dev) i"
proof -
  obtain dev' where r: "dio_clus_release_loop (RBT.keys (clus_root dev)) dev = Some dev'" "dio_wf dev'"
    "dev_clu_size dev' = dev_clu_size dev" "dom (RBT.lookup (clus_root dev')) = {}" "content (dio_abs dev') = content (dio_abs dev)"
    using dio_clus_release_loop_ok [OF assms, of "RBT.keys (clus_root dev)"] by (auto simp: RBT.lookup_keys)
  have nr: "nr_clus dev' = 0"
    using dio_wf_nr [OF r(2)] r(4) by simp
  have "disk dev' (clu_sector (dev_clu_size dev) i) = content (dio_abs dev) i" if "index_ok (dev_clu_size dev) i" for i
  proof -
    have "RBT.lookup (clus_root dev') i = None"
      using r(4) by auto
    from content_dio_abs [OF this] that show ?thesis
      by (simp add: r(3,5) clu_view_def)
  qed
  then show thesis
    using that r nr by (simp add: dio_clus_release_def)
qed

section \<open>The interface and its specification\<close>

datatype dio_op = DioGet u64 | DioPut u64 | DioRead u64 nat nat | DioWrite u64 "u8 list" nat | DioZero u64 | DioSync u64
  | DioAge | DioEvict

datatype dio_res = DioGot bool | DioErr int | DioBuf int "u8 list" | DioDone

fun dio_step :: "((u64 \<Rightarrow> u64) \<Rightarrow> u64 list \<Rightarrow> u64 list) \<Rightarrow> dio_op \<Rightarrow> dio_dev \<Rightarrow> (dio_res \<times> dio_dev) option" where
  "dio_step srt (DioGet i) dev = map_option (map_prod DioGot id) (dio_clu_get dev i)"
| "dio_step srt (DioPut i) dev = map_option (Pair DioDone) (dio_clu_put dev i)"
| "dio_step srt (DioRead i len off) dev = map_option (map_prod (case_prod DioBuf) id) (dio_clu_read dev i len off)"
| "dio_step srt (DioWrite i buf off) dev = map_option (map_prod DioErr id) (dio_clu_write dev i buf off)"
| "dio_step srt (DioZero i) dev = map_option (map_prod DioErr id) (dio_clu_zero dev i)"
| "dio_step srt (DioSync i) dev = map_option (map_prod DioErr id) (dio_clu_sync_index dev i)"
| "dio_step srt DioAge dev = Some (DioDone, dio_clus_age dev)"
| "dio_step srt DioEvict dev = map_option (map_prod DioErr id) (dio_clus_lru_frees srt dev)"

fun flat_step :: "nat \<Rightarrow> dio_op \<Rightarrow> flat_store \<Rightarrow> (dio_res \<times> flat_store) option" where
  "flat_step sz (DioGet i) a =
     (if index_ok sz i then Some (DioGot True, a\<lparr>pins := (pins a)(i := pins a i + 1)\<rparr>) else None)"
| "flat_step sz (DioPut i) a =
     (if 0 < pins a i then Some (DioDone, a\<lparr>pins := (pins a)(i := pins a i - 1)\<rparr>) else None)"
| "flat_step sz (DioRead i len off) a =
     (if 0 < pins a i \<and> off + len \<le> sz then Some (DioBuf 0 (take len (drop off (content a i))), a) else None)"
| "flat_step sz (DioWrite i buf off) a =
     (if 0 < pins a i \<and> off + length buf \<le> sz
      then Some (DioErr 0, a\<lparr>content := (content a)(i := memcpy_at (content a i) off buf)\<rparr>) else None)"
| "flat_step sz (DioZero i) a =
     (if 0 < pins a i then Some (DioErr 0, a\<lparr>content := (content a)(i := replicate sz 0)\<rparr>) else None)"
| "flat_step sz (DioSync i) a = (if 0 < pins a i then Some (DioErr 0, a) else None)"
| "flat_step sz DioAge a = Some (DioDone, a)"
| "flat_step sz DioEvict a = Some (DioErr 0, a)"

fun dio_failed :: "dio_res \<Rightarrow> bool" where
  "dio_failed (DioGot ok) \<longleftrightarrow> \<not> ok"
| "dio_failed (DioErr err) \<longleftrightarrow> err \<noteq> 0"
| "dio_failed (DioBuf err buf) \<longleftrightarrow> err \<noteq> 0"
| "dio_failed DioDone \<longleftrightarrow> False"

text \<open>
  An operation that the contract allows, whatever allocations and requests fail:
  it takes effect, or it reports a failure and has no effect.
\<close>

lemma dio_step_atomic:
  assumes "dio_wf dev" "flat_step (dev_clu_size dev) op (dio_abs dev) = Some (r0, a)" "op \<noteq> DioEvict"
    and "dio_step srt op dev = Some (r, dev')"
  shows "dio_wf dev' \<and> (r = r0 \<and> dio_abs dev' = a \<or> dio_failed r \<and> dio_abs dev' = dio_abs dev)"
proof (cases op)
  case (DioGet i)
  then show ?thesis
    using assms dio_clu_get_ok [OF assms(1), of i] by (auto simp: got_abs_def split: if_splits)
next
  case (DioPut i)
  then show ?thesis
    using assms dio_clu_put_ok [OF assms(1), of i] by (auto split: if_splits)
next
  case (DioRead i len off)
  then have c: "0 < pins (dio_abs dev) i" "off + len \<le> dev_clu_size dev"
    using assms(2) by (auto split: if_splits)
  show ?thesis
    by (rule dio_clu_read_ok [OF assms(1) c]) (use assms DioRead c in auto)
next
  case (DioWrite i buf off)
  then have c: "0 < pins (dio_abs dev) i" "off + length buf \<le> dev_clu_size dev"
    using assms(2) by (auto split: if_splits)
  show ?thesis
    by (rule dio_clu_write_ok [OF assms(1) c]) (use assms DioWrite c in auto)
next
  case (DioZero i)
  then have c: "0 < pins (dio_abs dev) i"
    using assms(2) by (auto split: if_splits)
  show ?thesis
    by (rule dio_clu_zero_ok [OF assms(1) c]) (use assms DioZero c in \<open>auto split: if_splits\<close>)
next
  case (DioSync i)
  then have c: "0 < pins (dio_abs dev) i"
    using assms(2) by (auto split: if_splits)
  show ?thesis
    by (rule dio_clu_sync_index_ok [OF assms(1) c]) (use assms DioSync c in auto)
next
  case DioAge
  then show ?thesis
    using assms dio_clus_age_ok [OF assms(1)] by auto
qed (use assms in simp)

text \<open>Without failures, no cluster unread and a sort that sorts, every allowed operation succeeds.\<close>

definition dio_ready :: "nat \<Rightarrow> ((u64 \<Rightarrow> u64) \<Rightarrow> u64 list \<Rightarrow> u64 list) \<Rightarrow> dio_dev \<Rightarrow> bool" where
  "dio_ready sz srt dev \<longleftrightarrow> dio_wf dev \<and> env_ok dev \<and> unread dev = {} \<and> dev_clu_size dev = sz \<and> sort_law srt"

lemma dio_ready_frame:
  "dio_ready sz srt dev \<Longrightarrow> dio_frame i dev dev' \<Longrightarrow> dio_wf dev' \<Longrightarrow> unread dev' \<subseteq> unread dev \<Longrightarrow> dio_ready sz srt dev'"
  by (auto simp: dio_ready_def dio_frame_def env_ok_def)

lemma dio_step_sim:
  assumes "dio_ready sz srt dev" "flat_step sz op (dio_abs dev) = Some (r, a)"
  shows "\<exists>dev'. dio_step srt op dev = Some (r, dev') \<and> dio_abs dev' = a \<and> dio_ready sz srt dev'"
proof -
  have d: "dio_wf dev" "env_ok dev" "unread dev = {}" "dev_clu_size dev = sz" "sort_law srt"
    using assms(1) by (auto simp: dio_ready_def)
  note fr = dio_ready_frame [OF assms(1)]
  show ?thesis
  proof (cases op)
    case (DioGet i)
    then have i: "index_ok (dev_clu_size dev) i"
      using assms(2) d(4) by (simp split: if_splits)
    obtain dev' where g: "dio_clu_get dev i = Some (True, dev')" "unread dev' \<subseteq> unread dev"
      by (rule dio_clu_get_total [OF d(1) i d(2)]) (use d(3) in auto)
    show ?thesis
      using g fr dio_clu_get_ok [OF d(1) i g(1)] assms(2) DioGet i d(4) by (auto simp: got_abs_def)
  next
    case (DioPut i)
    then show ?thesis
      using assms(2) dio_clu_put_ok [OF d(1), of i] fr by (fastforce split: if_splits)
  next
    case (DioRead i len off)
    then have c: "0 < pins (dio_abs dev) i" "off + len \<le> dev_clu_size dev"
      using assms(2) d(4) by (auto split: if_splits)
    show ?thesis
      by (rule dio_clu_read_ok [OF d(1) c]) (use assms(2) DioRead c d(4) fr in auto)
  next
    case (DioWrite i buf off)
    then have c: "0 < pins (dio_abs dev) i" "off + length buf \<le> dev_clu_size dev"
      using assms(2) d(4) by (auto split: if_splits)
    show ?thesis
      by (rule dio_clu_write_ok [OF d(1) c]) (use assms(2) DioWrite c d(4) fr in auto)
  next
    case (DioZero i)
    then have c: "0 < pins (dio_abs dev) i"
      using assms(2) by (auto split: if_splits)
    show ?thesis
      by (rule dio_clu_zero_ok [OF d(1) c]) (use assms(2) DioZero c d(2,4) fr in auto)
  next
    case (DioSync i)
    then have c: "0 < pins (dio_abs dev) i"
      using assms(2) by (auto split: if_splits)
    show ?thesis
      by (rule dio_clu_sync_index_ok [OF d(1) c]) (use assms(2) DioSync c d(2,4) fr in auto)
  next
    case DioAge
    then show ?thesis
      using assms(2) dio_clus_age_ok [OF d(1)] d by (auto simp: dio_ready_def env_ok_def dio_clus_age_def)
  next
    case DioEvict
    show ?thesis
    proof (cases "nr_max_clus dev < nr_clus dev")
      case True
      obtain dev' where l: "dio_clus_lru_frees srt dev = Some (0, dev')" "dio_wf dev'" "env_ok dev'" "dio_abs dev' = dio_abs dev"
        "nr_max_clus dev' = nr_max_clus dev" "dev_clu_size dev' = dev_clu_size dev"
        "nr_clus dev' = nr_clus dev - min (nr_clus dev - nr_max_clus dev) (min 512 (card (unpinned dev)))"
        "unread dev' \<subseteq> unread dev"
        by (rule dio_clus_lru_frees_progress [OF d(1,2,5) True])
      then show ?thesis
        using DioEvict assms(2) d by (auto simp: dio_ready_def)
    next
      case False
      then show ?thesis
        using DioEvict assms by (auto simp: dio_clus_lru_frees_def)
    qed
  qed
qed

interpretation dio_flat: forward_sim "dio_step srt" "flat_step sz" dio_abs "dio_ready sz srt"
  for srt sz
  by unfold_locales (rule dio_step_sim)

section \<open>A fresh device\<close>

lemma dio_dev_create_eq:
  "dio_dev_create mem bdev page sz max_clus = Some dev \<Longrightarrow>
   dev = \<lparr>dev_ref = 1, clus_root = RBT.empty, dev_clu_size = sz, nr_clus = 0, nr_max_clus = max_clus,
          disk = bdev, io_out = [], mem_out = [], fresh_page = page\<rparr>
   \<and> sz mod PAGE_SIZE = 0 \<and> sz \<le> DIO_CLU_MAX_PAGES * PAGE_SIZE"
  by (auto simp: dio_dev_create_def split: if_splits)

lemma dio_dev_create_ready:
  assumes "dio_dev_create mem bdev page sz max_clus = Some dev" "sort_law srt" "0 < sz" "length page = PAGE_SIZE"
    and "\<And>s. length (bdev s) = sz"
  shows "dio_ready sz srt dev" "content (dio_abs dev) i = (if index_ok sz i then bdev (clu_sector sz i) else [])"
    and "pins (dio_abs dev) i = 0"
proof -
  note d = dio_dev_create_eq [OF assms(1)]
  have "PAGE_SIZE \<le> sz"
    using d assms(3) by (metis dvd_imp_le mod_eq_0_iff_dvd)
  then show "dio_ready sz srt dev" "content (dio_abs dev) i = (if index_ok sz i then bdev (clu_sector sz i) else [])"
    "pins (dio_abs dev) i = 0"
    using d assms by (auto simp: dio_ready_def dio_wf_ex_def dev_ok_def env_ok_def unread_def dio_abs_def dio_view_def
        clu_view_def dio_pins_def)
qed

text \<open>A small device for the witnesses: one-page clusters of zero bytes.\<close>

definition zero_dev :: "nat \<Rightarrow> dio_dev" where
  "zero_dev max_clus = \<lparr>dev_ref = 1, clus_root = RBT.empty, dev_clu_size = PAGE_SIZE, nr_clus = 0, nr_max_clus = max_clus,
     disk = (\<lambda>s. replicate PAGE_SIZE 0), io_out = [], mem_out = [], fresh_page = replicate PAGE_SIZE 0\<rparr>"

definition sort_by :: "(u64 \<Rightarrow> u64) \<Rightarrow> u64 list \<Rightarrow> u64 list" where
  "sort_by age nodes = sort_key age nodes"

lemma sort_law_sort_by: "sort_law sort_by"
  by (simp add: sort_law_def sort_by_def)

lemma zero_dev_ready: "dio_ready PAGE_SIZE sort_by (zero_dev m)"
  by (simp add: zero_dev_def dio_ready_def dio_wf_ex_def dev_ok_def env_ok_def unread_def sort_law_sort_by)

lemma zero_dev_abs: "dio_abs (zero_dev m) = \<lparr>content = (\<lambda>i. if index_ok PAGE_SIZE i then replicate PAGE_SIZE 0 else []), pins = (\<lambda>i. 0)\<rparr>"
  by (simp add: zero_dev_def dio_abs_def dio_view_def clu_view_def dio_pins_def fun_eq_iff)

lemma index_ok_small: "unat i * (sz div 512) < 2 ^ 64 \<Longrightarrow> index_ok sz i"
  by (simp add: index_ok_def)

lemma dio_clu_get_after_failure:
  assumes "RBT.lookup (clus_root dev) i = Some c" "CLU_READ_START c" "\<not> CLU_READ c" "clu_err c \<noteq> 0" "0 < clu_ref c"
  shows "read_comp c = 0 \<Longrightarrow> dio_clu_get dev i = None"
    and "read_comp c \<noteq> 0 \<Longrightarrow> \<exists>dev'. dio_clu_get dev i = Some (False, dev') \<and> RBT.lookup (clus_root dev') i
      = Some (c\<lparr>clu_age := clu_age c OR push_bit 63 1, read_comp := read_comp c - 1\<rparr>)"
proof -
  show "read_comp c = 0 \<Longrightarrow> dio_clu_get dev i = None"
    using assms by (simp add: dio_clu_get_def dio_clu_lookup_create_def dio_clu_ref_def dio_clu_pin_def with_clu_def
        dio_clu_wait_read_eq)
  show "read_comp c \<noteq> 0 \<Longrightarrow> \<exists>dev'. dio_clu_get dev i = Some (False, dev') \<and> RBT.lookup (clus_root dev') i
      = Some (c\<lparr>clu_age := clu_age c OR push_bit 63 1, read_comp := read_comp c - 1\<rparr>)"
    using assms by (simp add: dio_clu_get_def dio_clu_lookup_create_def dio_clu_ref_def dio_clu_pin_def with_clu_def
        dio_clu_wait_read_eq dio_clu_put_eq)
qed

lemma dio_clu_get_failing:
  assumes "dev_ok dev" "RBT.lookup (clus_root dev) i = None" "mem_out dev = []" "io_out dev = (err, junk) # out" "err \<noteq> 0"
  obtains dev' c where "dio_clu_get dev i = Some (False, dev')" "RBT.lookup (clus_root dev') i = Some c"
    "CLU_READ_START c" "\<not> CLU_READ c" "clu_err c = err" "clu_ref c = 2" "read_comp c = 1"
proof -
  have "dio_clu_alloc dev = Some (Some (new_clu dev), dev)"
    using dio_clu_alloc_eq [OF assms(1)] assms(3) by auto
  then show thesis
    using assms(2-5) that
    by (simp add: dio_clu_get_def dio_clu_lookup_create_def next_mem_eq dio_clu_ref_def dio_clu_pin_def with_clu_def
        dio_clu_wait_read_eq dio_clu_put_eq new_clu_def io_err_def Let_def)
qed

text \<open>Two clusters, one of them pinned, where the limit is one.\<close>

definition demo_clu :: "u64 \<Rightarrow> int \<Rightarrow> u64 \<Rightarrow> dio_cluster" where
  "demo_clu i p age = \<lparr>clu_ref = 2 + p, pin_count = p, clu_index = i, CLU_INV = True, CLU_DIRTY = False, CLU_READ = True,
     CLU_READ_START = True, CLU_RELS = False, clu_pages = [replicate PAGE_SIZE 0], clu_clu_size = PAGE_SIZE, clu_age = age,
     read_comp = 1, clu_err = 0\<rparr>"

definition demo_dev :: dio_dev where
  "demo_dev = (zero_dev 1)\<lparr>clus_root := RBT.insert 3 (demo_clu 3 0 4) (RBT.insert 5 (demo_clu 5 1 9) RBT.empty), nr_clus := 2\<rparr>"

lemma demo_dev_ok: "dio_wf demo_dev" "env_ok demo_dev" "nr_max_clus demo_dev < nr_clus demo_dev" "dev_clu_size demo_dev = PAGE_SIZE"
  by (auto simp: demo_dev_def zero_dev_def demo_clu_def dio_wf_ex_def dev_ok_def env_ok_def clu_ok_def clu_base_def pages_wf_def
      index_ok_def)

lemma demo_dev_pins: "pins (dio_abs demo_dev) = (\<lambda>i. if i = 5 then 1 else 0)"
  by (auto simp: demo_dev_def dio_abs_def dio_pins_def demo_clu_def fun_eq_iff)

section \<open>Properties\<close>

text \<open>
  (C2) The cache refines a flat array of clusters.  For every sequence of
  operations that respects the contract of the interface (a cluster is used only
  while it is pinned, within its size), if no allocation and no request fails,
  the cache neither stops nor hangs and returns what the array returns, whatever
  it ages, writes back and evicts in between.
\<close>

theorem dio_refines_flat:
  assumes "dio_ready sz srt dev" "run_ops (flat_step sz) ops (dio_abs dev) = Some (rs, a)"
  shows "\<exists>dev'. run_ops (dio_step srt) ops dev = Some (rs, dev') \<and> dio_abs dev' = a \<and> dio_ready sz srt dev'"
  by (rule dio_flat.run_sim [OF assms])

theorem dio_refines_flat_witness:
  "\<exists>dev'. run_ops (dio_step sort_by) [DioGet 5, DioWrite 5 [1, 2] 7, DioPut 5, DioGet 6, DioAge, DioPut 6, DioEvict,
      DioGet 5, DioRead 5 2 7] (zero_dev 1)
    = Some ([DioGot True, DioErr 0, DioDone, DioGot True, DioDone, DioDone, DioErr 0, DioGot True, DioBuf 0 [1, 2]], dev')"
proof -
  have "index_ok PAGE_SIZE 5" "index_ok PAGE_SIZE 6"
    by (simp_all add: index_ok_def)
  then have "\<exists>a. run_ops (flat_step PAGE_SIZE) [DioGet 5, DioWrite 5 [1, 2] 7, DioPut 5, DioGet 6, DioAge, DioPut 6, DioEvict,
      DioGet 5, DioRead 5 2 7] (dio_abs (zero_dev 1))
    = Some ([DioGot True, DioErr 0, DioDone, DioGot True, DioDone, DioDone, DioErr 0, DioGot True, DioBuf 0 [1, 2]], a)"
    by (simp add: zero_dev_abs memcpy_at_def)
  then show ?thesis
    using dio_refines_flat [OF zero_dev_ready] by blast
qed



text \<open>
  (C19) The shrinker ends exactly when the pinned clusters leave room: with more
  pinned clusters than the limit its loop runs for ever.
\<close>

theorem dio_clus_shrink_ends:
  assumes "dio_wf dev" "env_ok dev" "sort_law srt"
  shows "dio_clus_shrink srt dev \<noteq> None \<longleftrightarrow> card {i. 0 < pins (dio_abs dev) i} \<le> nr_max_clus dev"
  using dio_clus_shrink_ok [OF assms] dio_clus_shrink_room assms by blast

theorem dio_clus_shrink_ends_witness: "dio_clus_shrink sort_by demo_dev \<noteq> None"
proof -
  have "nr_max_clus demo_dev = 1"
    by (simp add: demo_dev_def zero_dev_def)
  moreover have "{i. 0 < pins (dio_abs demo_dev) i} = {5}"
    by (simp add: demo_dev_pins)
  ultimately show ?thesis
    using dio_clus_shrink_ends [OF demo_dev_ok(1,2) sort_law_sort_by] by simp
qed





text \<open>
  (C22) A read that fails once makes the cluster unusable: the get that saw the
  error and the next one report it, the third waits for ever.
\<close>

theorem dio_failed_read_hangs:
  assumes "dio_wf dev" "RBT.lookup (clus_root dev) i = None" "mem_out dev = []" "io_out dev = [(err, junk)]" "err \<noteq> 0"
  shows "\<exists>dev1 dev2. dio_clu_get dev i = Some (False, dev1) \<and> dio_clu_get dev1 i = Some (False, dev2) \<and> dio_clu_get dev2 i = None"
proof (rule dio_clu_get_failing [OF dio_wf_dev [OF assms(1)] assms(2-5)])
  fix dev1 c
  assume 1: "dio_clu_get dev i = Some (False, dev1)" "RBT.lookup (clus_root dev1) i = Some c"
    "CLU_READ_START c" "\<not> CLU_READ c" "clu_err c = err" "clu_ref c = 2" "read_comp c = 1"
  obtain dev2 where 2: "dio_clu_get dev1 i = Some (False, dev2)"
    "RBT.lookup (clus_root dev2) i = Some (c\<lparr>clu_age := clu_age c OR push_bit 63 1, read_comp := 0\<rparr>)"
    using dio_clu_get_after_failure(2) [OF 1(2-4)] 1(5-7) assms(5) by auto
  have "dio_clu_get dev2 i = None"
    using dio_clu_get_after_failure(1) [OF 2(2)] 1(3-6) assms(5) by simp
  then show ?thesis
    using 1(1) 2(1) by blast
qed

theorem dio_failed_read_hangs_witness:
  "\<exists>dev1 dev2. dio_clu_get ((zero_dev 1)\<lparr>io_out := [(- EIO, replicate PAGE_SIZE 0)]\<rparr>) 9 = Some (False, dev1)
     \<and> dio_clu_get dev1 9 = Some (False, dev2) \<and> dio_clu_get dev2 9 = None"
proof (rule dio_failed_read_hangs [where err = "- EIO" and junk = "replicate PAGE_SIZE 0"])
  show "dio_wf ((zero_dev 1)\<lparr>io_out := [(- EIO, replicate PAGE_SIZE 0)]\<rparr>)"
    by (simp add: zero_dev_def dio_wf_ex_def dev_ok_def)
qed (simp_all add: zero_dev_def)

end
