(* ===== verification/Dio_Store.thy ===== *)
theory Dio_Store
  imports Dio_Cache
begin

text \<open>
  The cluster cache as the layers above it use it: memory of a mapped cluster,
  and rules for each operation when no allocation and no request fails
  (\<open>dio_good\<close>), stated over the array of clusters and the pins.
\<close>

section \<open>Mapped memory\<close>

text \<open>
  Reading and writing through the pointer that \<open>dio_clu_map\<close> returns.  An access
  that leaves the page is outside the model.
\<close>

definition dio_clu_peek :: "dio_dev \<Rightarrow> u64 \<Rightarrow> nat \<Rightarrow> nat \<Rightarrow> u8 list option" where
  "dio_clu_peek dev i off len = do {
     c \<leftarrow> RBT.lookup (clus_root dev) i;
     (pg_idx, pg_off) \<leftarrow> dio_clu_map c off;
     assert_that (pg_off + len \<le> PAGE_SIZE);
     Some (take len (drop pg_off (clu_pages c ! pg_idx)))
   }"

definition dio_clu_poke :: "dio_dev \<Rightarrow> u64 \<Rightarrow> nat \<Rightarrow> u8 list \<Rightarrow> dio_dev option" where
  "dio_clu_poke dev i off buf = do {
     c \<leftarrow> RBT.lookup (clus_root dev) i;
     (pg_idx, pg_off) \<leftarrow> dio_clu_map c off;
     assert_that (pg_off + length buf \<le> PAGE_SIZE);
     Some (dev\<lparr>clus_root := RBT.insert i
       (c\<lparr>clu_pages := (clu_pages c)[pg_idx := memcpy_at (clu_pages c ! pg_idx) pg_off buf]\<rparr>) (clus_root dev)\<rparr>)
   }"

section \<open>Rules without failures\<close>

definition dio_good :: "nat \<Rightarrow> dio_dev \<Rightarrow> bool" where
  "dio_good sz dev \<longleftrightarrow> dio_wf dev \<and> env_ok dev \<and> unread dev = {} \<and> dev_clu_size dev = sz"

lemma dio_good_frame:
  "dio_good sz dev \<Longrightarrow> dio_frame i dev dev' \<Longrightarrow> dio_wf dev' \<Longrightarrow> unread dev' \<subseteq> unread dev \<Longrightarrow> dio_good sz dev'"
  by (auto simp: dio_good_def dio_frame_def env_ok_def)

lemma wp_dio_clu_get [wp]:
  assumes "dio_good sz dev" "index_ok sz i"
    and "\<And>dev'. dio_good sz dev' \<Longrightarrow> content (dio_abs dev') = content (dio_abs dev) \<Longrightarrow>
      pins (dio_abs dev') = (pins (dio_abs dev))(i := pins (dio_abs dev) i + 1) \<Longrightarrow> Q (True, dev')"
  shows "wpo (dio_clu_get dev i) Q"
proof -
  have d: "dio_wf dev" "env_ok dev" "i \<notin> unread dev" "index_ok (dev_clu_size dev) i"
    using assms(1,2) by (auto simp: dio_good_def)
  obtain dev' where g: "dio_clu_get dev i = Some (True, dev')" "unread dev' \<subseteq> unread dev"
    by (rule dio_clu_get_total [OF d(1,4,2,3)])
  show ?thesis
    using g dio_clu_get_ok [OF d(1,4) g(1)] dio_good_frame [OF assms(1) _ _ g(2)]
    by (auto simp: wpo_def got_abs_def intro!: assms(3))
qed

lemma wp_dio_clu_put [wp]:
  assumes "dio_good sz dev" "0 < pins (dio_abs dev) i"
    and "\<And>dev'. dio_good sz dev' \<Longrightarrow> content (dio_abs dev') = content (dio_abs dev) \<Longrightarrow>
      pins (dio_abs dev') = (pins (dio_abs dev))(i := pins (dio_abs dev) i - 1) \<Longrightarrow> Q dev'"
  shows "wpo (dio_clu_put dev i) Q"
  using dio_clu_put_ok [OF _ assms(2)] dio_good_frame [OF assms(1)] assms
  by (fastforce simp: wpo_def dio_good_def)

lemma wp_dio_clu_read [wp]:
  assumes "dio_good sz dev" "0 < pins (dio_abs dev) i" "off + len \<le> sz"
    and "\<And>dev'. dio_good sz dev' \<Longrightarrow> dio_abs dev' = dio_abs dev \<Longrightarrow> Q ((0, take len (drop off (content (dio_abs dev) i))), dev')"
  shows "wpo (dio_clu_read dev i len off) Q"
proof -
  have d: "dio_wf dev" "off + len \<le> dev_clu_size dev"
    using assms by (simp_all add: dio_good_def)
  show ?thesis
    by (rule dio_clu_read_ok [OF d(1) assms(2) d(2)]) (use dio_good_frame [OF assms(1)] assms(4) in simp)
qed

lemma wp_dio_clu_write [wp]:
  assumes "dio_good sz dev" "0 < pins (dio_abs dev) i" "off + length buf \<le> sz"
    and "\<And>dev'. dio_good sz dev' \<Longrightarrow> pins (dio_abs dev') = pins (dio_abs dev) \<Longrightarrow>
      content (dio_abs dev') = (content (dio_abs dev))(i := memcpy_at (content (dio_abs dev) i) off buf) \<Longrightarrow> Q (0, dev')"
  shows "wpo (dio_clu_write dev i buf off) Q"
proof -
  have d: "dio_wf dev" "off + length buf \<le> dev_clu_size dev"
    using assms by (simp_all add: dio_good_def)
  show ?thesis
    by (rule dio_clu_write_ok [OF d(1) assms(2) d(2)]) (use dio_good_frame [OF assms(1)] assms(4) in simp)
qed

lemma wp_dio_clu_zero [wp]:
  assumes "dio_good sz dev" "0 < pins (dio_abs dev) i"
    and "\<And>dev'. dio_good sz dev' \<Longrightarrow> pins (dio_abs dev') = pins (dio_abs dev) \<Longrightarrow>
      content (dio_abs dev') = (content (dio_abs dev))(i := replicate sz 0) \<Longrightarrow> Q (0, dev')"
  shows "wpo (dio_clu_zero dev i) Q"
proof -
  have d: "dio_wf dev" "env_ok dev" "dev_clu_size dev = sz"
    using assms by (simp_all add: dio_good_def)
  show ?thesis
    by (rule dio_clu_zero_ok [OF d(1) assms(2)]) (use dio_good_frame [OF assms(1)] assms(3) d in simp)
qed

lemma wp_dio_clu_sync [wp]:
  assumes "dio_good sz dev" "0 < pins (dio_abs dev) i"
    and "\<And>dev'. dio_good sz dev' \<Longrightarrow> dio_abs dev' = dio_abs dev \<Longrightarrow>
      disk dev' (clu_sector sz i) = content (dio_abs dev) i \<Longrightarrow> Q (0, dev')"
  shows "wpo (dio_clu_sync_index dev i) Q"
proof -
  have d: "dio_wf dev" "env_ok dev" "dev_clu_size dev = sz"
    using assms by (simp_all add: dio_good_def)
  show ?thesis
    by (rule dio_clu_sync_index_ok [OF d(1) assms(2)]) (use dio_good_frame [OF assms(1)] assms(3) d in auto)
qed

lemma clu_map_flat:
  assumes "pages_wf pages" "off div PAGE_SIZE < length pages" "off mod PAGE_SIZE + len \<le> PAGE_SIZE"
  shows "take len (drop (off mod PAGE_SIZE) (pages ! (off div PAGE_SIZE))) = take len (drop off (concat pages))"
proof -
  have "length (pages ! (off div PAGE_SIZE)) = PAGE_SIZE"
    using assms(1,2) by (simp add: pages_wf_def)
  then show ?thesis
    using drop_concat_pages [OF assms(1,2), of "off mod PAGE_SIZE"] assms(3) by simp
qed

lemma dio_clu_map_ok:
  assumes "clu_base dev x i c" "off < dev_clu_size dev"
  shows "dio_clu_map c off = Some (off div PAGE_SIZE, off mod PAGE_SIZE)" "off div PAGE_SIZE < length (clu_pages c)"
proof -
  show "off div PAGE_SIZE < length (clu_pages c)"
    using assms by (simp add: clu_base_def less_mult_imp_div_less)
  then show "dio_clu_map c off = Some (off div PAGE_SIZE, off mod PAGE_SIZE)"
    using assms by (simp add: dio_clu_map_def clu_base_def)
qed

lemma wp_dio_clu_peek [wp]:
  assumes "dio_good sz dev" "0 < pins (dio_abs dev) i" "off mod PAGE_SIZE + len \<le> PAGE_SIZE" "off < sz"
    and "Q (take len (drop off (content (dio_abs dev) i)))"
  shows "wpo (dio_clu_peek dev i off len) Q"
proof -
  have d: "dio_wf dev" "off < dev_clu_size dev"
    using assms by (simp_all add: dio_good_def)
  obtain c where c: "RBT.lookup (clus_root dev) i = Some c" "clu_base dev 0 i c" "content (dio_abs dev) i = concat (clu_pages c)"
    using pinned_clu [OF d(1) assms(2)] by metis
  show ?thesis
    using assms(3,5) c dio_clu_map_ok [OF c(2) d(2)] clu_map_flat [of "clu_pages c" off len]
    by (simp add: dio_clu_peek_def clu_base_def)
qed

section \<open>Several stores before the cluster is marked dirty\<close>

text \<open>
  \<open>dio_poked dev i v dev'\<close>: the pages of cluster \<open>i\<close> now hold \<open>v\<close>, and it is
  not yet marked dirty.
\<close>

definition dio_poked :: "dio_dev \<Rightarrow> u64 \<Rightarrow> u8 list \<Rightarrow> dio_dev \<Rightarrow> bool" where
  "dio_poked dev i v dev' \<longleftrightarrow> (\<exists>c pages. RBT.lookup (clus_root dev) i = Some c \<and> dio_upd i (c\<lparr>clu_pages := pages\<rparr>) dev dev'
     \<and> pages_wf pages \<and> length pages = length (clu_pages c) \<and> concat pages = v)"

lemma dio_poked_refl:
  assumes "dio_good sz dev" "0 < pins (dio_abs dev) i"
  shows "dio_poked dev i (content (dio_abs dev) i) dev"
proof -
  have d: "dio_wf dev"
    using assms by (simp add: dio_good_def)
  obtain c where c: "RBT.lookup (clus_root dev) i = Some c" "clu_base dev 0 i c" "content (dio_abs dev) i = concat (clu_pages c)"
    using pinned_clu [OF d assms(2)] by metis
  have "dio_upd i (c\<lparr>clu_pages := clu_pages c\<rparr>) dev dev"
    using c(1) dio_wf_dev [OF d] dio_wf_nr [OF d] by (auto simp: dio_upd_def dio_frame_refl)
  then show ?thesis
    using c unfolding dio_poked_def clu_base_def by (intro exI [of _ c] exI [of _ "clu_pages c"]) simp
qed

lemma wp_dio_clu_poke [wp]:
  assumes "dio_good sz dev" "0 < pins (dio_abs dev) i" "dio_poked dev i v dev'" "off mod PAGE_SIZE + length buf \<le> PAGE_SIZE" "off < sz"
    and "\<And>dev''. dio_poked dev i (memcpy_at v off buf) dev'' \<Longrightarrow> Q dev''"
  shows "wpo (dio_clu_poke dev' i off buf) Q"
proof -
  have d: "dio_wf dev" "off < dev_clu_size dev"
    using assms by (simp_all add: dio_good_def)
  obtain c pages where c: "RBT.lookup (clus_root dev) i = Some c" "dio_upd i (c\<lparr>clu_pages := pages\<rparr>) dev dev'" "pages_wf pages"
    "length pages = length (clu_pages c)" "concat pages = v"
    using assms(3) by (auto simp: dio_poked_def)
  have "CLU_READ c"
    using pinned_clu [OF d(1) assms(2)] c(1) by (metis option.inject)
  then have b: "clu_base dev 0 i (c\<lparr>clu_pages := pages, CLU_DIRTY := True\<rparr>)"
    using dio_wf_lookup(3) [OF d(1) c(1)] c(3,4) by (simp add: clu_base_def)
  have m: "dio_clu_map (c\<lparr>clu_pages := pages\<rparr>) off = Some (off div PAGE_SIZE, off mod PAGE_SIZE)" "off div PAGE_SIZE < length pages"
    using dio_clu_map_ok [OF b d(2)] by (simp_all add: dio_clu_map_def)
  have m2: "off div PAGE_SIZE < length pages"
    using m(2) by simp
  let ?pages = "pages[off div PAGE_SIZE := memcpy_at (pages ! (off div PAGE_SIZE)) (off mod PAGE_SIZE) buf]"
  have "dio_poked dev i (memcpy_at v off buf) (dev'\<lparr>clus_root := RBT.insert i (c\<lparr>clu_pages := ?pages\<rparr>) (clus_root dev')\<rparr>)"
    unfolding dio_poked_def
    using c(1,4,5) dio_upd_again [OF c(2), of "c\<lparr>clu_pages := ?pages\<rparr>"] pages_wf_update [OF c(3) m2 assms(4)] concat_update_page [OF c(3) m2 assms(4)]
    by (intro exI [of _ c] exI [of _ ?pages]) simp
  then show ?thesis
    using dio_upd_lookup [OF c(2)] m(1) assms(4,6) by (simp add: dio_clu_poke_def)
qed

lemma wp_dio_clu_dirty [wp]:
  assumes "dio_good sz dev" "0 < pins (dio_abs dev) i" "dio_poked dev i v dev1"
    and "\<And>dev'. dio_good sz dev' \<Longrightarrow> pins (dio_abs dev') = pins (dio_abs dev) \<Longrightarrow>
      content (dio_abs dev') = (content (dio_abs dev))(i := v) \<Longrightarrow> Q ((), dev')"
  shows "wpo (dio_clu_set_dirty dev1 i) Q"
proof -
  have d: "dio_wf dev"
    using assms by (simp_all add: dio_good_def)
  obtain c where c: "RBT.lookup (clus_root dev) i = Some c" "clu_ok dev 0 i c" "CLU_READ c"  "index_ok (dev_clu_size dev) i"
    using pinned_clu [OF d(1) assms(2)] by metis
  obtain pages where p: "dio_upd i (c\<lparr>clu_pages := pages\<rparr>) dev dev1" "pages_wf pages"
    "length pages = length (clu_pages c)" "concat pages = v"
    using assms(3) c(1) by (auto simp: dio_poked_def)
  let ?c2 = "c\<lparr>clu_pages := pages, CLU_DIRTY := True\<rparr>"
  let ?dev2 = "dev1\<lparr>clus_root := RBT.insert i ?c2 (clus_root dev1)\<rparr>"
  note u2 = dio_upd_again [OF p(1), of ?c2]
  have k: "clu_ok ?dev2 0 i ?c2"
    using c(2,3) p(2,3) u2 by (auto simp: clu_ok_def clu_base_def dio_upd_def dio_frame_def)
  have v: "clu_view ?dev2 i (Some ?c2) = v"
    using c(3) p(4) by (simp add: clu_view_def)
  have n: "nat (pin_count ?c2) = pins (dio_abs dev) i"
    using c(1) by (simp add: pins_dio_abs)
  note s = dio_step_upd [OF d u2 k c(4) v n]
  have fr: "dio_frame i dev ?dev2" "unread ?dev2 \<subseteq> unread dev"
    using u2 unread_upd [OF u2] c(3) by (simp_all add: dio_upd_def)
  have "Q ((), ?dev2)"
    by (rule assms(4) [OF dio_good_frame [OF assms(1) fr(1) s(1) fr(2)]]) (use s(2) in simp_all)
  then show ?thesis
    using dio_upd_lookup [OF p(1)] by (simp add: dio_clu_set_dirty_def with_clu_def)
qed

lemma wp_dio_clu_poke_dirty [wp]:
  assumes "dio_good sz dev" "0 < pins (dio_abs dev) i" "off mod PAGE_SIZE + length buf \<le> PAGE_SIZE" "off < sz"
    and "\<And>dev'. dio_good sz dev' \<Longrightarrow> pins (dio_abs dev') = pins (dio_abs dev) \<Longrightarrow>
      content (dio_abs dev') = (content (dio_abs dev))(i := memcpy_at (content (dio_abs dev) i) off buf) \<Longrightarrow> Q ((), dev')"
  shows "wpo (dio_clu_poke dev i off buf) (\<lambda>dev. wpo (dio_clu_set_dirty dev i) Q)"
  by (rule wp_dio_clu_poke [OF assms(1,2) dio_poked_refl [OF assms(1,2)] assms(3,4)],
      rule wp_dio_clu_dirty [OF assms(1,2)]) (use assms(5) in auto)

end
