(* ===== verification/Balloc.thy ===== *)
theory Balloc
  imports Dio_Store
begin

text \<open>
  The superblock's state (\<open>src/core/super.h\<close>) and the block allocator
  (\<open>src/core/balloc.c\<close>): a bitmap in the blocks from \<open>bm_block\<close> on, one bit
  for each block of the device, changed in the mapped memory of the cluster cache
  and synced at once.  \<open>bm_used\<close> reads the bitmap; \<open>bm_changed\<close> says that one
  bit, and the count, change and nothing else.

  The locks are not modelled; the source releases \<open>rw_lock\<close> without having taken
  it in \<open>nkfs_balloc_block_mark\<close> and keeps the cluster's read lock on two paths
  of \<open>nkfs_balloc_block_find_set_free_bit\<close>.
\<close>

declare le_word_zeros [simp]

section \<open>The superblock\<close>

record nkfs_sb =
  ddev :: dio_dev
  sb_refs :: int
  sb_id :: nkfs_obj_id
  nr_blocks :: u64
  sb_magic :: u32
  sb_version :: u32
  sb_size :: u64
  bm_block :: u64
  bm_blocks :: u64
  inodes_tree_block :: u64
  used_blocks :: u64
  bsize :: u32
  sb_stopping :: bool

text \<open>An operation on the superblock's device.\<close>

definition on_dev :: "(dio_dev \<Rightarrow> ('r \<times> dio_dev) option) \<Rightarrow> 'a nkfs_sb_scheme \<Rightarrow> ('r \<times> 'a nkfs_sb_scheme) option" where
  "on_dev f sb = do {
     (r, dev) \<leftarrow> f (ddev sb);
     Some (r, sb\<lparr>ddev := dev\<rparr>)
   }"

definition sb_clu_put :: "u64 \<Rightarrow> 'a nkfs_sb_scheme \<Rightarrow> 'a nkfs_sb_scheme option" where
  "sb_clu_put i sb = do {
     dev \<leftarrow> dio_clu_put (ddev sb) i;
     Some (sb\<lparr>ddev := dev\<rparr>)
   }"

section \<open>Operations\<close>

text \<open>The indices from \<open>bm_block\<close> to below \<open>bm_block + bm_blocks\<close>.\<close>

definition bm_indices :: "'a nkfs_sb_scheme \<Rightarrow> u64 list" where
  "bm_indices sb = map of_nat [unat (bm_block sb)..<unat (bm_block sb + bm_blocks sb)]"

primrec nkfs_balloc_bm_clear_loop :: "u64 list \<Rightarrow> 'a nkfs_sb_scheme \<Rightarrow> (int \<times> 'a nkfs_sb_scheme) option" where
  "nkfs_balloc_bm_clear_loop [] sb = Some (0, sb\<lparr>used_blocks := 0\<rparr>)"
| "nkfs_balloc_bm_clear_loop (i # is) sb = do {
     (ok, sb) \<leftarrow> on_dev (\<lambda>dev. dio_clu_get dev i) sb;
     if \<not> ok then Some (- EIO, sb)
     else do {
       (err, sb) \<leftarrow> on_dev (\<lambda>dev. dio_clu_zero dev i) sb;
       if err \<noteq> 0 then do {
         sb \<leftarrow> sb_clu_put i sb;
         Some (err, sb)
       } else do {
         (err, sb) \<leftarrow> on_dev (\<lambda>dev. dio_clu_sync_index dev i) sb;
         sb \<leftarrow> sb_clu_put i sb;
         if err \<noteq> 0 then Some (err, sb) else nkfs_balloc_bm_clear_loop is sb
       }
     }
   }"

definition nkfs_balloc_bm_clear :: "'a nkfs_sb_scheme \<Rightarrow> (int \<times> 'a nkfs_sb_scheme) option" where
  "nkfs_balloc_bm_clear sb = nkfs_balloc_bm_clear_loop (bm_indices sb) sb"

text \<open>The bitmap block, the offset of the long in it and the bit in the long.\<close>

definition nkfs_balloc_block_bm_bit :: "'a nkfs_sb_scheme \<Rightarrow> u64 \<Rightarrow> int + u64 \<times> nat \<times> nat" where
  "nkfs_balloc_block_bm_bit sb block =
     (if block \<ge> nr_blocks sb then Inl (- EINVAL)
      else let long_num = nkfs_div block 64 in
        Inr (bm_block sb + nkfs_div (long_num * 8) (ucast (bsize sb)),
             unat (nkfs_mod (long_num * 8) (ucast (bsize sb))),
             unat (nkfs_mod block 64)))"

definition nkfs_balloc_block_mark :: "'a nkfs_sb_scheme \<Rightarrow> u64 \<Rightarrow> bool \<Rightarrow> (int \<times> 'a nkfs_sb_scheme) option" where
  "nkfs_balloc_block_mark sb block use =
     (case nkfs_balloc_block_bm_bit sb block of
        Inl err \<Rightarrow> Some (err, sb)
      | Inr (bm, long_off, n) \<Rightarrow> do {
          (ok, sb) \<leftarrow> on_dev (\<lambda>dev. dio_clu_get dev bm) sb;
          if \<not> ok then Some (- EIO, sb)
          else do {
            bytes \<leftarrow> dio_clu_peek (ddev sb) bm long_off 8;
            let w = (le_word bytes :: u64);
            assert_that (bit w n \<noteq> use);
            dev \<leftarrow> dio_clu_poke (ddev sb) bm long_off (le_bytes 8 (if use then set_bit n w else unset_bit n w));
            let sb = sb\<lparr>ddev := dev, used_blocks := (if use then used_blocks sb + 1 else used_blocks sb - 1)\<rparr>;
            (_, sb) \<leftarrow> on_dev (\<lambda>dev. dio_clu_set_dirty dev bm) sb;
            (err, sb) \<leftarrow> on_dev (\<lambda>dev. dio_clu_sync_index dev bm) sb;
            sb \<leftarrow> sb_clu_put bm sb;
            Some (err, sb)
          }
        })"

definition nkfs_balloc_block_free :: "'a nkfs_sb_scheme \<Rightarrow> u64 \<Rightarrow> (int \<times> 'a nkfs_sb_scheme) option" where
  "nkfs_balloc_block_free sb block = nkfs_balloc_block_mark sb block False"

datatype bm_scan = ScanNoSpace | ScanNext | ScanBit nat

primrec nkfs_balloc_scan_bits :: "u64 \<Rightarrow> u64 \<Rightarrow> u64 \<Rightarrow> nat list \<Rightarrow> bm_scan" where
  "nkfs_balloc_scan_bits nr block w [] = ScanNext"
| "nkfs_balloc_scan_bits nr block w (b # bs) =
     (if block + of_nat b \<ge> nr then ScanNoSpace
      else if \<not> bit w b then ScanBit b
      else nkfs_balloc_scan_bits nr block w bs)"

primrec nkfs_balloc_scan_longs ::
  "u64 \<Rightarrow> nat list \<Rightarrow> 'a nkfs_sb_scheme \<Rightarrow> ((int + nat \<times> nat) \<times> 'a nkfs_sb_scheme) option" where
  "nkfs_balloc_scan_longs bm [] sb = Some (Inl (- ENOENT), sb)"
| "nkfs_balloc_scan_longs bm (i # is) sb =
     (let block = 8 * (bm - bm_block sb) * ucast (bsize sb) + 8 * of_nat i in
      if block \<ge> nr_blocks sb then Some (Inl (- ENOENT), sb)
      else do {
        bytes \<leftarrow> dio_clu_peek (ddev sb) bm i 8;
        let w = (le_word bytes :: u64);
        if w = -1 then nkfs_balloc_scan_longs bm is sb
        else case nkfs_balloc_scan_bits (nr_blocks sb) block w [0..<64] of
          ScanNoSpace \<Rightarrow> Some (Inl (- ENOENT), sb)
        | ScanNext \<Rightarrow> nkfs_balloc_scan_longs bm is sb
        | ScanBit n \<Rightarrow> do {
            dev \<leftarrow> dio_clu_poke (ddev sb) bm i (le_bytes 8 (set_bit n w));
            let sb = sb\<lparr>ddev := dev, used_blocks := used_blocks sb + 1\<rparr>;
            (_, sb) \<leftarrow> on_dev (\<lambda>dev. dio_clu_set_dirty dev bm) sb;
            (err, sb) \<leftarrow> on_dev (\<lambda>dev. dio_clu_sync_index dev bm) sb;
            Some (if err \<noteq> 0 then Inl err else Inr (i, n), sb)
          }
      })"

definition nkfs_balloc_block_find_set_free_bit ::
  "'a nkfs_sb_scheme \<Rightarrow> u64 \<Rightarrow> ((int + nat \<times> nat) \<times> 'a nkfs_sb_scheme) option" where
  "nkfs_balloc_block_find_set_free_bit sb bm = do {
     c \<leftarrow> RBT.lookup (clus_root (ddev sb)) bm;
     assert_that (clu_clu_size c mod PAGE_SIZE = 0);
     nkfs_balloc_scan_longs bm (map (\<lambda>k. 8 * k) [0..<clu_clu_size c div 8]) sb
   }"

primrec nkfs_balloc_block_alloc_loop ::
  "u64 list \<Rightarrow> 'a nkfs_sb_scheme \<Rightarrow> ((int \<times> u64) \<times> 'a nkfs_sb_scheme) option" where
  "nkfs_balloc_block_alloc_loop [] sb = Some ((- ENOSPC, 0), sb)"
| "nkfs_balloc_block_alloc_loop (i # is) sb = do {
     (ok, sb) \<leftarrow> on_dev (\<lambda>dev. dio_clu_get dev i) sb;
     if \<not> ok then Some ((- EIO, 0), sb)
     else do {
       (r, sb) \<leftarrow> nkfs_balloc_block_find_set_free_bit sb i;
       sb \<leftarrow> sb_clu_put i sb;
       case r of
         Inr (long_off, n) \<Rightarrow>
           Some ((0, 8 * (i - bm_block sb) * ucast (bsize sb) + 8 * of_nat long_off + of_nat n), sb)
       | Inl err \<Rightarrow> nkfs_balloc_block_alloc_loop is sb
     }
   }"

definition nkfs_balloc_block_alloc :: "'a nkfs_sb_scheme \<Rightarrow> ((int \<times> u64) \<times> 'a nkfs_sb_scheme) option" where
  "nkfs_balloc_block_alloc sb = nkfs_balloc_block_alloc_loop (bm_indices sb) sb"

section \<open>The bitmap\<close>

text \<open>The long and the bit of a block, as numbers.\<close>

definition bm_long :: "'a nkfs_sb_scheme \<Rightarrow> nat \<Rightarrow> u64" where
  "bm_long sb k = le_word (take 8 (drop (8 * k mod unat (bsize sb))
     (content (dio_abs (ddev sb)) (bm_block sb + of_nat (8 * k div unat (bsize sb))))))"

definition bm_used :: "'a nkfs_sb_scheme \<Rightarrow> nat \<Rightarrow> bool" where
  "bm_used sb b = bit (bm_long sb (b div 64)) (b mod 64)"

definition sb_ok :: "'a nkfs_sb_scheme \<Rightarrow> bool" where
  "sb_ok sb \<longleftrightarrow> dio_good (unat (bsize sb)) (ddev sb)
     \<and> unat (bm_block sb) + unat (bm_blocks sb) < 2 ^ 64
     \<and> (unat (bm_block sb) + unat (bm_blocks sb)) * (unat (bsize sb) div 512) \<le> 2 ^ 64
     \<and> unat (bm_blocks sb) * (8 * unat (bsize sb)) < 2 ^ 64
     \<and> unat (nr_blocks sb) \<le> unat (bm_blocks sb) * (8 * unat (bsize sb))"

lemma sb_upd_comm [simp]: "sb\<lparr>used_blocks := u, ddev := d\<rparr> = sb\<lparr>ddev := d, used_blocks := u\<rparr>"
  by simp

lemma wpo_on_dev [simp]: "wpo (on_dev f sb) Q \<longleftrightarrow> wpo (f (ddev sb)) (\<lambda>(r, dev). Q (r, sb\<lparr>ddev := dev\<rparr>))"
  by (simp add: on_dev_def case_prod_unfold)

lemma wpo_sb_clu_put [simp]: "wpo (sb_clu_put i sb) Q \<longleftrightarrow> wpo (dio_clu_put (ddev sb) i) (\<lambda>dev. Q (sb\<lparr>ddev := dev\<rparr>))"
  by (simp add: sb_clu_put_def)

lemma sb_ok_bsize:
  assumes "sb_ok sb"
  shows "unat (bsize sb) mod 4096 = 0" "4096 \<le> unat (bsize sb)" "unat (bsize sb) \<le> 65536"
  using assms by (auto simp: sb_ok_def dio_good_def dio_wf_ex_def dev_ok_def)

lemma scan_bits:
  assumes "unat block + 64 \<le> 2 ^ 64" "n \<le> 64" "\<forall>b < n. bit w b \<and> unat block + b < unat nr"
  shows "case nkfs_balloc_scan_bits nr block w [n..<64] of
      ScanNoSpace \<Rightarrow> (\<exists>b < 64. unat nr \<le> unat block + b \<and> (\<forall>b' < b. bit w b'))
    | ScanNext \<Rightarrow> w = -1
    | ScanBit b \<Rightarrow> b < 64 \<and> unat block + b < unat nr \<and> \<not> bit w b \<and> (\<forall>b' < b. bit w b')"
  using assms(2,3)
proof (induction "64 - n" arbitrary: n)
  case 0
  then have "w = -1" by (intro bit_word_eqI) auto
  then show ?case using 0 by simp
next
  case (Suc m)
  then have u: "[n..<64] = n # [Suc n..<64]" by (simp add: upt_conv_Cons)
  have "unat (block + of_nat n) = unat block + n"
    using assms(1) Suc by (simp add: unat_word_ariths unat_of_nat)
  then have le: "nr \<le> block + of_nat n \<longleftrightarrow> unat nr \<le> unat block + n"
    by (simp add: word_le_nat_alt)
  have n: "n < 64" using Suc by linarith
  consider (no) "nr \<le> block + of_nat n" | (hit) "\<not> nr \<le> block + of_nat n" "\<not> bit w n"
    | (go) "\<not> nr \<le> block + of_nat n" "bit w n"
    by blast
  then show ?case
  proof cases
    case no
    then show ?thesis
      using Suc.prems le n unfolding u by (auto intro: exI [of _ n])
  next
    case hit
    then show ?thesis
      using Suc.prems le n unfolding u by simp
  next
    case go
    then have "nkfs_balloc_scan_bits nr block w [n..<64] = nkfs_balloc_scan_bits nr block w [Suc n..<64]"
      unfolding u by simp
    then show ?thesis
      using Suc.hyps(1) [of "Suc n"] Suc.hyps(2) Suc.prems go le n by (simp add: less_Suc_eq)
  qed
qed

text \<open>The word of the bitmap that a long of a bitmap block is, and what changing it changes.\<close>

lemma bm_long_at:
  assumes "8 * i < unat (bsize sb)" "unat (bsize sb) mod 8 = 0"
  shows "bm_long sb (j * (unat (bsize sb) div 8) + i)
    = le_word (take 8 (drop (8 * i) (content (dio_abs (ddev sb)) (bm_block sb + of_nat j))))"
proof -
  have e: "8 * (j * (unat (bsize sb) div 8) + i) = j * unat (bsize sb) + 8 * i"
    using assms(2) by (simp add: algebra_simps mod_eq_0_iff_dvd)
  show ?thesis
    unfolding bm_long_def e using assms(1) by simp
qed

lemma mod8_of_page: "n mod 4096 = 0 \<Longrightarrow> n mod 8 = (0 :: nat)"
  using mod_mod_cancel [of 8 4096 n] by simp

lemma long_off_fits: "8 * i mod 4096 + 8 \<le> (4096 :: nat)"
proof -
  have "8 * i mod (8 * 512) = 8 * (i mod 512)"
    by (rule mod_mult_mult1)
  moreover have "i mod 512 < 512"
    by simp
  ultimately show ?thesis
    by simp
qed

lemma take_drop_memcpy_at:
  assumes "i mod 8 = 0" "j mod 8 = 0" "i + 8 \<le> length dst" "length src = 8"
  shows "take 8 (drop j (memcpy_at dst i src)) = (if j = i then src else take 8 (drop j dst))"
proof (cases "j + 8 \<le> length dst")
  case True
  have "j = i \<or> j + 8 \<le> i \<or> i + 8 \<le> j"
    using assms(1,2) by presburger
  then show ?thesis
    using assms True by (auto intro!: nth_equalityI simp: nth_memcpy_at)
next
  case False
  then have "i + 8 \<le> j \<or> i < j"
    using assms(3) by linarith
  then have "i + 8 \<le> j"
    using assms(1,2) by presburger
  then show ?thesis
    using assms(3,4) by (simp add: memcpy_at_def)
qed

lemma bm_index_inj:
  assumes "sb_ok sb" "j < unat (bm_blocks sb)" "j' < unat (bm_blocks sb)"
  shows "bm_block sb + of_nat j = bm_block sb + of_nat j' \<longleftrightarrow> j = j'"
proof -
  have "j < 2 ^ 64" "j' < 2 ^ 64"
    using assms unsigned_less [of "bm_blocks sb"] by (auto intro: order_less_trans)
  then show ?thesis
    by (simp add: word_of_nat_eq_iff take_bit_nat_eq_self)
qed

lemma bm_long_update:
  assumes "sb_ok sb" "0 < pins (dio_abs (ddev sb)) (bm_block sb + of_nat j)" "j < unat (bm_blocks sb)" "8 * i < unat (bsize sb)"
    and "bsize sb' = bsize sb" "bm_block sb' = bm_block sb"
    and "content (dio_abs (ddev sb')) = (content (dio_abs (ddev sb)))(bm_block sb + of_nat j :=
      memcpy_at (content (dio_abs (ddev sb)) (bm_block sb + of_nat j)) (8 * i) (le_bytes 8 (v :: u64)))"
    and "k < unat (bm_blocks sb) * (unat (bsize sb) div 8)"
  shows "bm_long sb' k = (if k = j * (unat (bsize sb) div 8) + i then v else bm_long sb k)"
proof -
  note b = sb_ok_bsize [OF assms(1)]
  let ?q = "unat (bsize sb) div 8"
  have m8: "unat (bsize sb) mod 8 = 0"
    using b(1) by (rule mod8_of_page)
  have q: "0 < ?q" "8 * ?q = unat (bsize sb)"
    using b(2) m8 by auto
  have i: "i < ?q" using assms(4) q by linarith
  have k: "k = (k div ?q) * ?q + k mod ?q" "8 * (k mod ?q) < unat (bsize sb)" "k div ?q < unat (bm_blocks sb)"
  proof -
    show "k = (k div ?q) * ?q + k mod ?q"
      by (simp only: div_mult_mod_eq)
    show "8 * (k mod ?q) < unat (bsize sb)"
      using mod_less_divisor [OF q(1), of k] q(2) by linarith
    show "k div ?q < unat (bm_blocks sb)"
      using assms(8) by (simp add: less_mult_imp_div_less)
  qed
  have eq: "k = j * ?q + i \<longleftrightarrow> k div ?q = j \<and> k mod ?q = i"
  proof
    assume "k = j * ?q + i"
    then show "k div ?q = j \<and> k mod ?q = i" using i by simp
  next
    assume "k div ?q = j \<and> k mod ?q = i"
    then show "k = j * ?q + i" using k(1) by metis
  qed
  have len: "length (content (dio_abs (ddev sb)) (bm_block sb + of_nat j)) = unat (bsize sb)"
    using length_content [OF _ assms(2)] assms(1) by (simp add: sb_ok_def dio_good_def)
  have l: "bm_long s k = le_word (take 8 (drop (8 * (k mod ?q)) (content (dio_abs (ddev s)) (bm_block sb + of_nat (k div ?q)))))"
    if "bsize s = bsize sb" "bm_block s = bm_block sb" for s :: "'c nkfs_sb_scheme"
    using bm_long_at [of "k mod ?q" s "k div ?q"] k m8 that by simp
  show ?thesis
  proof (cases "k div ?q = j")
    case True
    have "take 8 (drop (8 * (k mod ?q)) (memcpy_at (content (dio_abs (ddev sb)) (bm_block sb + of_nat j)) (8 * i) (le_bytes 8 v)))
      = (if 8 * (k mod ?q) = 8 * i then le_bytes 8 v else take 8 (drop (8 * (k mod ?q)) (content (dio_abs (ddev sb)) (bm_block sb + of_nat j))))"
      by (rule take_drop_memcpy_at) (use i q len in auto)
    then show ?thesis
      using True eq by (simp add: l assms(5-7))
  next
    case False
    then show ?thesis
      using eq bm_index_inj [OF assms(1) k(3) assms(3)] by (simp add: l assms(5-7))
  qed
qed

text \<open>One bit of the bitmap changes, and nothing else but the count.\<close>

definition bm_changed :: "'a nkfs_sb_scheme \<Rightarrow> nat \<Rightarrow> bool \<Rightarrow> 'a nkfs_sb_scheme \<Rightarrow> bool" where
  "bm_changed sb b use sb' \<longleftrightarrow> sb_ok sb'
     \<and> sb' = sb\<lparr>ddev := ddev sb', used_blocks := used_blocks sb'\<rparr>
     \<and> used_blocks sb' = (if use then used_blocks sb + 1 else used_blocks sb - 1)
     \<and> (\<forall>b' < unat (bm_blocks sb) * (8 * unat (bsize sb)). bm_used sb' b' = (if b' = b then use else bm_used sb b'))
     \<and> (\<forall>i. i \<notin> set (bm_indices sb) \<longrightarrow> content (dio_abs (ddev sb')) i = content (dio_abs (ddev sb)) i)"

lemma bm_indices_eq:
  "sb_ok sb \<Longrightarrow> bm_indices sb = map (\<lambda>j. bm_block sb + of_nat j) [0..<unat (bm_blocks sb)]"
proof -
  assume "sb_ok sb"
  then have "unat (bm_block sb + bm_blocks sb) = unat (bm_block sb) + unat (bm_blocks sb)"
    by (simp add: sb_ok_def unat_word_ariths)
  then have "bm_indices sb = map of_nat (map (\<lambda>j. j + unat (bm_block sb)) [0..<unat (bm_blocks sb)])"
    unfolding bm_indices_def map_add_upt by (simp add: add.commute)
  then show ?thesis
    by (simp add: add.commute)
qed

lemma wp_bm_poke:
  assumes "sb_ok sb" "bm = bm_block sb + of_nat j" "0 < pins (dio_abs (ddev sb)) bm" "j < unat (bm_blocks sb)"
    and "8 * i < unat (bsize sb)" "n < 64"
  defines "K \<equiv> j * (unat (bsize sb) div 8) + i"
  assumes Q: "\<And>dev. bm_changed sb (64 * K + n) use
        (sb\<lparr>ddev := dev, used_blocks := (if use then used_blocks sb + 1 else used_blocks sb - 1)\<rparr>) \<Longrightarrow>
      pins (dio_abs dev) = pins (dio_abs (ddev sb)) \<Longrightarrow> Q (0, dev)"
  shows "wpo (dio_clu_poke (ddev sb) bm (8 * i) (le_bytes 8 (if use then set_bit n (bm_long sb K) else unset_bit n (bm_long sb K))))
    (\<lambda>dev. wpo (dio_clu_set_dirty dev bm) (\<lambda>(u, dev). wpo (dio_clu_sync_index dev bm) Q))"
proof -
  note b = sb_ok_bsize [OF assms(1)]
  let ?v = "if use then set_bit n (bm_long sb K) else unset_bit n (bm_long sb K)"
  let ?sb = "\<lambda>dev. sb\<lparr>ddev := dev, used_blocks := (if use then used_blocks sb + 1 else used_blocks sb - 1)\<rparr>"
  have good: "dio_good (unat (bsize sb)) (ddev sb)"
    using assms(1) by (simp add: sb_ok_def)
  have off: "8 * i mod 4096 + 8 \<le> 4096"
    by (rule long_off_fits)
  have ch: "bm_changed sb (64 * K + n) use (?sb dev)"
    if g: "dio_good (unat (bsize sb)) dev" and c: "content (dio_abs dev) = (content (dio_abs (ddev sb)))(bm :=
        memcpy_at (content (dio_abs (ddev sb)) bm) (8 * i) (le_bytes 8 ?v))" for dev
  proof -
    have "bm_used (?sb dev) b' = (if b' = 64 * K + n then use else bm_used sb b')"
      if "b' < unat (bm_blocks sb) * (8 * unat (bsize sb))" for b'
    proof -
      have "unat (bsize sb) mod 8 = 0"
        using b(1) by (rule mod8_of_page)
      then have k: "b' div 64 < unat (bm_blocks sb) * (unat (bsize sb) div 8)"
        using that by (auto simp: less_mult_imp_div_less elim!: dvdE dest!: mod_0_imp_dvd)
      have l: "bm_long (?sb dev) (b' div 64) = (if b' div 64 = K then ?v else bm_long sb (b' div 64))"
        by (rule bm_long_update [OF assms(1) _ assms(4,5), where v = ?v, folded K_def])
          (use assms(2,3) c k in simp_all)
      have "b' = 64 * K + n \<longleftrightarrow> b' div 64 = K \<and> b' mod 64 = n"
        using assms(6) by auto
      then show ?thesis
        using assms(6) by (auto simp: bm_used_def l bit_set_bit_iff bit_unset_bit_iff)
    qed
    moreover have "bm \<in> set (bm_indices sb)"
      using assms(2,4) by (simp add: bm_indices_eq [OF assms(1)])
    moreover have "sb_ok (?sb dev)"
      using assms(1) g by (simp add: sb_ok_def)
    ultimately show ?thesis
      using c by (auto simp: bm_changed_def)
  qed
  show ?thesis
    by (rule wp_dio_clu_poke_dirty [OF good assms(3)])
      (use off assms(3,5) ch Q in \<open>auto intro!: wp_dio_clu_sync\<close>)
qed

declare ucast_u32_u64_u32 [simp] unat_ucast_u32 [simp]

lemma nkfs_div_u32: "nkfs_div x (ucast (y :: u32)) = x div ucast y"
  and nkfs_mod_u32: "nkfs_mod x (ucast (y :: u32)) = ucast (x mod ucast y)"
  by (simp_all add: nkfs_div_def nkfs_mod_def do_div_def Let_def)

lemma nkfs_div_64: "nkfs_div x 64 = x div 64" and nkfs_mod_64: "nkfs_mod x 64 = ucast (x mod 64)"
  by (simp_all add: nkfs_div_def nkfs_mod_def do_div_def Let_def)

lemma bm_bit_ok:
  assumes "sb_ok sb" "unat block < unat (nr_blocks sb)"
  defines "q \<equiv> unat (bsize sb) div 8"
  defines "j \<equiv> unat block div 64 div q" and "i \<equiv> unat block div 64 mod q"
  shows "nkfs_balloc_block_bm_bit sb block = Inr (bm_block sb + of_nat j, 8 * i, unat block mod 64)"
    and "j < unat (bm_blocks sb)" "8 * i < unat (bsize sb)" "64 * (j * q + i) + unat block mod 64 = unat block"
proof -
  note b = sb_ok_bsize [OF assms(1)]
  have "unat (bsize sb) mod 8 = 0"
    using b(1) by (rule mod8_of_page)
  then have q: "0 < q" "8 * q = unat (bsize sb)"
    using b(2) by (auto simp: q_def)
  show "64 * (j * q + i) + unat block mod 64 = unat block"
    by (simp add: i_def j_def)
  show "8 * i < unat (bsize sb)"
    using q mod_less_divisor [OF q(1), of "unat block div 64"] unfolding i_def by linarith
  have "unat block < unat (bm_blocks sb) * (8 * unat (bsize sb))"
    using assms(1,2) by (simp add: sb_ok_def)
  then have "unat block < (unat (bm_blocks sb) * q) * 64"
    unfolding q(2) [symmetric] by simp
  then have "unat block div 64 < unat (bm_blocks sb) * q"
    by (rule less_mult_imp_div_less)
  then show "j < unat (bm_blocks sb)"
    unfolding j_def by (rule less_mult_imp_div_less)
  let ?L = "block div 64 * 8"
  have "unat ?L = (unat block div 64) * 8 mod 2 ^ 64"
    by (simp add: unat_word_ariths mod_mult_left_eq)
  moreover have "(unat block div 64) * 8 < 2 ^ 64"
    using unat_lt64 [of block] by simp
  ultimately have L: "unat ?L = 8 * (unat block div 64)"
    by simp
  have d: "8 * (unat block div 64) div unat (bsize sb) = j"
    unfolding j_def q(2) [symmetric] by simp
  have m: "8 * (unat block div 64) mod unat (bsize sb) = 8 * i"
    unfolding i_def q(2) [symmetric] by (rule mod_mult_mult1)
  have "unat (?L div ucast (bsize sb)) = j"
    by (simp add: unat_div L d)
  from arg_cong [OF this, of "of_nat :: nat \<Rightarrow> u64"] have 1: "?L div ucast (bsize sb) = of_nat j"
    by simp
  have "unat (?L mod ucast (bsize sb)) = 8 * i"
    by (simp add: unat_mod L m)
  moreover have "8 * i < 2 ^ 32"
    using \<open>8 * i < unat (bsize sb)\<close> b(3) by simp
  ultimately have 2: "unat (nkfs_mod ?L (ucast (bsize sb))) = 8 * i"
    by (simp add: nkfs_mod_u32 unat_ucast_small)
  have "unat (block mod 64) = unat block mod 64"
    by (simp add: unat_mod)
  then have 3: "unat (nkfs_mod block 64) = unat block mod 64"
    by (simp add: nkfs_mod_64 unat_ucast_small)
  show "nkfs_balloc_block_bm_bit sb block = Inr (bm_block sb + of_nat j, 8 * i, unat block mod 64)"
    using assms(2) 1 2 3 by (simp add: nkfs_balloc_block_bm_bit_def word_le_nat_alt nkfs_div_u32 nkfs_div_64 Let_def)
qed

lemma bm_used_cong:
  "content (dio_abs dev) = content (dio_abs (ddev sb)) \<Longrightarrow> bm_used (sb\<lparr>ddev := dev\<rparr>) = bm_used sb"
  "content (dio_abs dev) = content (dio_abs (ddev sb)) \<Longrightarrow> bm_long (sb\<lparr>ddev := dev\<rparr>) = bm_long sb"
  by (simp_all add: bm_used_def bm_long_def fun_eq_iff)

lemma bm_indices_cong [simp]: "bm_indices (sb\<lparr>ddev := dev\<rparr>) = bm_indices sb"
  by (simp add: bm_indices_def)

text \<open>The same change seen from before the cluster was pinned and after it was released.\<close>

lemma bm_changed_around:
  assumes "bm_changed (sb\<lparr>ddev := dev1\<rparr>) b use (sb\<lparr>ddev := dev2, used_blocks := u\<rparr>)"
    and "content (dio_abs dev1) = content (dio_abs (ddev sb))" "content (dio_abs dev3) = content (dio_abs dev2)"
    and "dio_good (unat (bsize sb)) dev3"
  shows "bm_changed sb b use (sb\<lparr>ddev := dev3, used_blocks := u\<rparr>)"
proof -
  have "bm_used (sb\<lparr>ddev := dev3, used_blocks := u\<rparr>) = bm_used (sb\<lparr>ddev := dev2, used_blocks := u\<rparr>)"
    using assms(3) by (simp add: bm_used_def bm_long_def fun_eq_iff)
  then show ?thesis
    using assms(1,3,4) bm_used_cong(1) [OF assms(2)] assms(2) by (auto simp: bm_changed_def sb_ok_def)
qed

lemma sb_ok_dev: "sb_ok sb \<Longrightarrow> dio_good (unat (bsize sb)) dev \<Longrightarrow> sb_ok (sb\<lparr>ddev := dev\<rparr>)"
  by (simp add: sb_ok_def)

lemma bm_index_ok:
  assumes "sb_ok sb" "j < unat (bm_blocks sb)"
  shows "index_ok (unat (bsize sb)) (bm_block sb + of_nat j)"
proof -
  have lt: "unat (bm_block sb) + j < 2 ^ 64" "j < 2 ^ 64"
    using assms by (simp_all add: sb_ok_def)
  then have "unat (bm_block sb + of_nat j) = unat (bm_block sb) + j"
    by (simp add: unat_word_ariths unat_of_nat)
  moreover have "(unat (bm_block sb) + j) * (unat (bsize sb) div 512) < (unat (bm_block sb) + unat (bm_blocks sb)) * (unat (bsize sb) div 512)"
    using assms(2) sb_ok_bsize [OF assms(1)] by (simp add: div_greater_zero_iff)
  ultimately have "unat (bm_block sb + of_nat j) * (unat (bsize sb) div 512) < (unat (bm_block sb) + unat (bm_blocks sb)) * (unat (bsize sb) div 512)"
    by simp
  also have "\<dots> \<le> 2 ^ 64"
    using assms(1) by (simp only: sb_ok_def)
  finally show ?thesis
    unfolding index_ok_def .
qed

lemma sb_ok_bsize8: "sb_ok sb \<Longrightarrow> unat (bsize sb) mod 8 = 0"
  using sb_ok_bsize(1) [of sb] by (simp add: mod8_of_page)

lemma bm_bit_cases:
  assumes "sb_ok sb" "unat block < unat (nr_blocks sb)"
  obtains j i n where "nkfs_balloc_block_bm_bit sb block = Inr (bm_block sb + of_nat j, 8 * i, n)"
    "j < unat (bm_blocks sb)" "8 * i < unat (bsize sb)" "n < 64" "64 * (j * (unat (bsize sb) div 8) + i) + n = unat block"
  using bm_bit_ok [OF assms] by (metis mod_less_divisor zero_less_numeral)

lemma bm_used_at: "n < 64 \<Longrightarrow> 64 * K + n = b \<Longrightarrow> bm_used sb b = bit (bm_long sb K) n"
  by (auto simp: bm_used_def)

lemma wp_bm_poke_pinned:
  assumes "sb_ok sb" "dio_good (unat (bsize sb)) dev1" "content (dio_abs dev1) = content (dio_abs (ddev sb))"
    and "bm = bm_block sb + of_nat j" "0 < pins (dio_abs dev1) bm" "j < unat (bm_blocks sb)"
    and "8 * i < unat (bsize sb)" "n < 64"
  defines "w \<equiv> bm_long sb (j * (unat (bsize sb) div 8) + i)"
  assumes Q: "\<And>dev. (\<And>dev2. content (dio_abs dev2) = content (dio_abs dev) \<Longrightarrow> dio_good (unat (bsize sb)) dev2 \<Longrightarrow>
        bm_changed sb (64 * (j * (unat (bsize sb) div 8) + i) + n) use
        (sb\<lparr>ddev := dev2, used_blocks := (if use then used_blocks sb + 1 else used_blocks sb - 1)\<rparr>)) \<Longrightarrow>
      dio_good (unat (bsize sb)) dev \<Longrightarrow> pins (dio_abs dev) = pins (dio_abs dev1) \<Longrightarrow> Q (0, dev)"
  shows "wpo (dio_clu_poke dev1 bm (8 * i) (le_bytes 8 (if use then set_bit n w else unset_bit n w)))
    (\<lambda>dev. wpo (dio_clu_set_dirty dev bm) (\<lambda>(u, dev). wpo (dio_clu_sync_index dev bm) Q))"
proof -
  let ?sb1 = "sb\<lparr>ddev := dev1\<rparr>"
  let ?u = "if use then used_blocks ?sb1 + 1 else used_blocks ?sb1 - 1"
  have ok: "sb_ok ?sb1"
    by (rule sb_ok_dev [OF assms(1,2)])
  have w: "bm_long ?sb1 (j * (unat (bsize ?sb1) div 8) + i) = w"
    using bm_used_cong(2) [OF assms(3)] by (simp add: w_def)
  have "wpo (dio_clu_poke (ddev ?sb1) bm (8 * i) (le_bytes 8 (if use then set_bit n (bm_long ?sb1 (j * (unat (bsize ?sb1) div 8) + i))
        else unset_bit n (bm_long ?sb1 (j * (unat (bsize ?sb1) div 8) + i)))))
    (\<lambda>dev. wpo (dio_clu_set_dirty dev bm) (\<lambda>(u, dev). wpo (dio_clu_sync_index dev bm) Q))"
  proof (rule wp_bm_poke [OF ok], goal_cases)
    case (6 dev)
    have "dio_good (unat (bsize sb)) dev"
      using 6(1) by (simp add: bm_changed_def sb_ok_def)
    then show ?case
    proof (rule Q [rotated])
      fix dev2
      assume "content (dio_abs dev2) = content (dio_abs dev)" "dio_good (unat (bsize sb)) dev2"
      then show "bm_changed sb (64 * (j * (unat (bsize sb) div 8) + i) + n) use
          (sb\<lparr>ddev := dev2, used_blocks := (if use then used_blocks sb + 1 else used_blocks sb - 1)\<rparr>)"
        using 6(1) by (intro bm_changed_around [OF _ assms(3)]) (simp_all split del: if_split cong: if_cong)
    qed (use 6(2) in simp)
  qed (use assms in simp_all)
  then show ?thesis
    unfolding w by simp
qed

lemma wp_block_mark:
  assumes "sb_ok sb" "unat block < unat (nr_blocks sb)" "bm_used sb (unat block) \<noteq> use"
    and Q: "\<And>sb'. bm_changed sb (unat block) use sb' \<Longrightarrow> pins (dio_abs (ddev sb')) = pins (dio_abs (ddev sb)) \<Longrightarrow> Q (0, sb')"
  shows "wpo (nkfs_balloc_block_mark sb block use) Q"
proof (rule bm_bit_cases [OF assms(1,2)])
  fix j i n
  assume m: "nkfs_balloc_block_bm_bit sb block = Inr (bm_block sb + of_nat j, 8 * i, n)"
    "j < unat (bm_blocks sb)" "8 * i < unat (bsize sb)" "n < 64" "64 * (j * (unat (bsize sb) div 8) + i) + n = unat block"
  let ?bm = "bm_block sb + of_nat j"
  let ?K = "j * (unat (bsize sb) div 8) + i"
  let ?u = "if use then used_blocks sb + 1 else used_blocks sb - 1"
  have good: "dio_good (unat (bsize sb)) (ddev sb)"
    using assms(1) by (simp add: sb_ok_def)
  have "wpo (dio_clu_peek dev1 ?bm (8 * i) 8) (\<lambda>x. bit (le_word x :: u64) n \<noteq> use \<and>
         wpo (dio_clu_poke dev1 ?bm (8 * i) (le_bytes 8 (if use then set_bit n (le_word x :: u64) else unset_bit n (le_word x))))
           (\<lambda>dev. wpo (dio_clu_set_dirty dev ?bm) (\<lambda>(u, dev). wpo (dio_clu_sync_index dev ?bm) (\<lambda>(err, dev).
              wpo (dio_clu_put dev ?bm) (\<lambda>dev. Q (err, sb\<lparr>ddev := dev, used_blocks := ?u\<rparr>))))))"
    if g: "dio_good (unat (bsize sb)) dev1" and c: "content (dio_abs dev1) = content (dio_abs (ddev sb))"
      and p: "pins (dio_abs dev1) = (pins (dio_abs (ddev sb)))(?bm := pins (dio_abs (ddev sb)) ?bm + 1)" for dev1
  proof (rule wp_dio_clu_peek [OF g _ long_off_fits m(3)], goal_cases)
    case 2
    have w: "le_word (take 8 (drop (8 * i) (content (dio_abs dev1) ?bm))) = bm_long sb ?K"
      using bm_long_at [OF m(3) sb_ok_bsize8 [OF assms(1)], of j] c by simp
    have "wpo (dio_clu_poke dev1 ?bm (8 * i) (le_bytes 8 (if use then set_bit n (bm_long sb ?K) else unset_bit n (bm_long sb ?K))))
           (\<lambda>dev. wpo (dio_clu_set_dirty dev ?bm) (\<lambda>(u, dev). wpo (dio_clu_sync_index dev ?bm) (\<lambda>(err, dev).
              wpo (dio_clu_put dev ?bm) (\<lambda>dev. Q (err, sb\<lparr>ddev := dev, used_blocks := ?u\<rparr>)))))"
    proof (rule wp_bm_poke_pinned [OF assms(1) g c refl _ m(2,3,4)], goal_cases)
      case (2 dev)
      show ?case
        using 2 p m(5) by (auto intro!: wp_dio_clu_put [OF 2(2)] Q split del: if_split cong: if_cong)
    qed (use p in simp)
    then show ?case
      unfolding w using assms(3) bm_used_at [OF m(4,5), of sb] by (simp split del: if_split cong: if_cong)
  qed (use p in simp)
  then show ?thesis
    unfolding nkfs_balloc_block_mark_def m(1)
    apply (simp add: Let_def case_prod_unfold split del: if_split cong: if_cong)
    apply (rule wp_dio_clu_get [OF good bm_index_ok [OF assms(1) m(2)]])
    apply (simp split del: if_split cong: if_cong)
    done
qed

lemma block_number:
  assumes "sb_ok sb" "j < unat (bm_blocks sb)" "8 * i < unat (bsize sb)"
  shows "unat (8 * of_nat j * ucast (bsize sb) + 8 * of_nat (8 * i) :: u64) = 64 * (j * (unat (bsize sb) div 8) + i)"
    and "64 * (j * (unat (bsize sb) div 8) + i) + 64 \<le> unat (bm_blocks sb) * (8 * unat (bsize sb))"
    and "64 * (j * (unat (bsize sb) div 8) + i) + 64 \<le> 2 ^ 64"
proof -
  obtain q where q: "unat (bsize sb) = 8 * q"
    using sb_ok_bsize8 [OF assms(1)] by (auto elim!: dvdE dest!: mod_0_imp_dvd)
  have d: "unat (bsize sb) div 8 = q" and i: "i < q"
    using assms(3) by (simp_all add: q)
  have "j * q + i + 1 \<le> (j + 1) * q"
    using i by simp
  also have "\<dots> \<le> unat (bm_blocks sb) * q"
    using assms(2) by (intro mult_le_mono1) simp
  finally have "64 * (j * q + i + 1) \<le> 64 * (unat (bm_blocks sb) * q)"
    by (rule mult_le_mono2)
  then show le: "64 * (j * (unat (bsize sb) div 8) + i) + 64 \<le> unat (bm_blocks sb) * (8 * unat (bsize sb))"
    unfolding d q by simp
  also have "\<dots> < 2 ^ 64"
    using assms(1) by (simp only: sb_ok_def)
  finally show lt: "64 * (j * (unat (bsize sb) div 8) + i) + 64 \<le> 2 ^ 64"
    by simp
  have "(8 * of_nat j * ucast (bsize sb) + 8 * of_nat (8 * i) :: u64) = of_nat (8 * j * unat (bsize sb) + 8 * (8 * i))"
    by simp
  also have "8 * j * unat (bsize sb) + 8 * (8 * i) = 64 * (j * (unat (bsize sb) div 8) + i)"
    unfolding d q by simp
  finally have e: "(8 * of_nat j * ucast (bsize sb) + 8 * of_nat (8 * i) :: u64) = of_nat (64 * (j * (unat (bsize sb) div 8) + i))" .
  show "unat (8 * of_nat j * ucast (bsize sb) + 8 * of_nat (8 * i) :: u64) = 64 * (j * (unat (bsize sb) div 8) + i)"
    unfolding e by (rule unat_of_nat_small) (use lt in simp)
qed

lemma block_number_bit:
  assumes "sb_ok sb" "j < unat (bm_blocks sb)" "8 * i < unat (bsize sb)" "n < 64"
  shows "unat (8 * of_nat j * ucast (bsize sb) + 8 * of_nat (8 * i) + of_nat n :: u64)
    = 64 * (j * (unat (bsize sb) div 8) + i) + n"
proof -
  let ?b = "8 * of_nat j * ucast (bsize sb) + 8 * of_nat (8 * i) :: u64"
  note b = block_number [OF assms(1-3)]
  have "?b + of_nat n = of_nat (unat ?b + n)"
    by (simp only: of_nat_add of_nat_unat ucast_id)
  then have "?b + of_nat n = of_nat (64 * (j * (unat (bsize sb) div 8) + i) + n)"
    unfolding b(1) .
  moreover have "64 * (j * (unat (bsize sb) div 8) + i) + n < 2 ^ 64"
    using b(3) assms(4) by linarith
  ultimately show ?thesis
    by (simp only: unat_of_nat_small)
qed

lemma wp_scan_longs:
  assumes "sb_ok sb" "dio_good (unat (bsize sb)) dev1" "content (dio_abs dev1) = content (dio_abs (ddev sb))"
    and "bm = bm_block sb + of_nat j" "0 < pins (dio_abs dev1) bm" "j < unat (bm_blocks sb)"
  defines "q \<equiv> unat (bsize sb) div 8"
  assumes full: "\<forall>b < 64 * ((j + 1) * q). b < unat (nr_blocks sb) \<longrightarrow> bm_used sb b \<Longrightarrow> Q (Inl (- ENOENT), sb\<lparr>ddev := dev1\<rparr>)"
    and found: "\<And>i n dev. 8 * i < unat (bsize sb) \<Longrightarrow> n < 64 \<Longrightarrow> 64 * (j * q + i) + n < unat (nr_blocks sb) \<Longrightarrow>
      \<not> bm_used sb (64 * (j * q + i) + n) \<Longrightarrow> (\<forall>b < 64 * (j * q + i) + n. bm_used sb b) \<Longrightarrow>
      (\<And>dev2. content (dio_abs dev2) = content (dio_abs dev) \<Longrightarrow> dio_good (unat (bsize sb)) dev2 \<Longrightarrow>
        bm_changed sb (64 * (j * q + i) + n) True (sb\<lparr>ddev := dev2, used_blocks := used_blocks sb + 1\<rparr>)) \<Longrightarrow>
      dio_good (unat (bsize sb)) dev \<Longrightarrow> pins (dio_abs dev) = pins (dio_abs dev1) \<Longrightarrow>
      Q (Inr (8 * i, n), sb\<lparr>ddev := dev, used_blocks := used_blocks sb + 1\<rparr>)"
    and "i \<le> q" "\<forall>b < 64 * (j * q + i). b < unat (nr_blocks sb) \<longrightarrow> bm_used sb b"
  shows "wpo (nkfs_balloc_scan_longs bm (map (\<lambda>k. 8 * k) [i..<q]) (sb\<lparr>ddev := dev1\<rparr>)) Q"
  using assms(10,11)
proof (induction "q - i" arbitrary: i)
  case 0
  then show ?case
    using full by (simp add: algebra_simps)
next
  case (Suc m)
  then have i: "i < q" "8 * i < unat (bsize sb)" and u: "[i..<q] = i # [Suc i..<q]"
    by (auto simp: upt_conv_Cons q_def)
  note bn = block_number [OF assms(1,6) i(2), folded q_def]
  let ?sb1 = "sb\<lparr>ddev := dev1\<rparr>"
  let ?K = "j * q + i"
  define block where "block = 8 * (bm - bm_block ?sb1) * ucast (bsize ?sb1) + 8 * (of_nat (8 * i) :: u64)"
  have block: "unat block = 64 * ?K"
    using bn(1) by (simp add: block_def assms(4))
  have w: "le_word (take 8 (drop (8 * i) (content (dio_abs dev1) bm))) = bm_long sb ?K"
    using bm_long_at [OF i(2) sb_ok_bsize8 [OF assms(1)], of j] assms(3,4) by (simp add: q_def)
  let ?rest = "nkfs_balloc_scan_longs bm (map (\<lambda>k. 8 * k) [Suc i..<q]) ?sb1"
  have longs: "nkfs_balloc_scan_longs bm (map (\<lambda>k. 8 * k) [i..<q]) ?sb1 =
      (if block \<ge> nr_blocks ?sb1 then Some (Inl (- ENOENT), ?sb1)
       else do {
        bytes \<leftarrow> dio_clu_peek (ddev ?sb1) bm (8 * i) 8;
        if (le_word bytes :: u64) = -1 then ?rest
        else case nkfs_balloc_scan_bits (nr_blocks ?sb1) block (le_word bytes) [0..<64] of
          ScanNoSpace \<Rightarrow> Some (Inl (- ENOENT), ?sb1)
        | ScanNext \<Rightarrow> ?rest
        | ScanBit n \<Rightarrow> do {
            dev \<leftarrow> dio_clu_poke (ddev ?sb1) bm (8 * i) (le_bytes 8 (set_bit n (le_word bytes :: u64)));
            (_, sb) \<leftarrow> on_dev (\<lambda>dev. dio_clu_set_dirty dev bm) (?sb1\<lparr>ddev := dev, used_blocks := used_blocks ?sb1 + 1\<rparr>);
            (err, sb) \<leftarrow> on_dev (\<lambda>dev. dio_clu_sync_index dev bm) sb;
            Some (if err \<noteq> 0 then Inl err else Inr (8 * i, n), sb)
          }
      })"
    unfolding u list.map nkfs_balloc_scan_longs.simps block_def [symmetric] Let_def ..
  show ?case
  proof (cases "unat (nr_blocks sb) \<le> 64 * ?K")
    case True
    then show ?thesis
      using full Suc.prems(2) block unfolding longs by (simp add: word_le_nat_alt)
  next
    case False
    have bits: "b < 64 * ?K + m \<Longrightarrow> b < unat (nr_blocks sb) \<Longrightarrow> bm_used sb b"
      if "m \<le> 64" "\<forall>n < m. bit (bm_long sb ?K) n" for b m
      using Suc.prems(2) that bm_used_at [of "b - 64 * ?K" ?K b sb] by (cases "b < 64 * ?K") auto
    have rest: "wpo ?rest Q" if "bm_long sb ?K = -1"
    proof (rule Suc.hyps(1))
      show "\<forall>b<64 * (j * q + Suc i). b < unat (nr_blocks sb) \<longrightarrow> bm_used sb b"
        using bits [of 64] that by simp
    qed (use Suc.hyps(2) i in auto)
    have sc: "case nkfs_balloc_scan_bits (nr_blocks sb) block (bm_long sb ?K) [0..<64] of
      ScanNoSpace \<Rightarrow> (\<exists>b < 64. unat (nr_blocks sb) \<le> 64 * ?K + b \<and> (\<forall>b' < b. bit (bm_long sb ?K) b'))
    | ScanNext \<Rightarrow> bm_long sb ?K = -1
    | ScanBit b \<Rightarrow> b < 64 \<and> 64 * ?K + b < unat (nr_blocks sb) \<and> \<not> bit (bm_long sb ?K) b \<and> (\<forall>b' < b. bit (bm_long sb ?K) b')"
      using scan_bits [of block 0 "bm_long sb ?K" "nr_blocks sb"] bn(3) unfolding block by simp
    have "wpo (case nkfs_balloc_scan_bits (nr_blocks sb) block (bm_long sb ?K) [0..<64] of
          ScanNoSpace \<Rightarrow> Some (Inl (- ENOENT), ?sb1)
        | ScanNext \<Rightarrow> ?rest
        | ScanBit n \<Rightarrow> do {
            dev \<leftarrow> dio_clu_poke dev1 bm (8 * i) (le_bytes 8 (set_bit n (bm_long sb ?K)));
            (_, sb) \<leftarrow> on_dev (\<lambda>dev. dio_clu_set_dirty dev bm) (sb\<lparr>ddev := dev, used_blocks := used_blocks sb + 1\<rparr>);
            (err, sb) \<leftarrow> on_dev (\<lambda>dev. dio_clu_sync_index dev bm) sb;
            Some (if err \<noteq> 0 then Inl err else Inr (8 * i, n), sb)
          }) Q"
    proof (cases "nkfs_balloc_scan_bits (nr_blocks sb) block (bm_long sb ?K) [0..<64]")
      case ScanNoSpace
      then obtain n where n: "n < 64" "unat (nr_blocks sb) \<le> 64 * ?K + n" "\<forall>b' < n. bit (bm_long sb ?K) b'"
        using sc by auto
      have "\<forall>b < 64 * ((j + 1) * q). b < unat (nr_blocks sb) \<longrightarrow> bm_used sb b"
        using bits [of n] n by (meson less_imp_le_nat order_less_le_trans)
      then show ?thesis
        using full ScanNoSpace by simp
    next
      case ScanNext
      then show ?thesis
        using sc rest by simp
    next
      case (ScanBit n)
      then have n: "n < 64" "64 * ?K + n < unat (nr_blocks sb)" "\<not> bm_used sb (64 * ?K + n)" "\<forall>b < 64 * ?K + n. bm_used sb b"
        using sc bits [of n] bm_used_at [of n ?K "64 * ?K + n" sb] by auto
      have "wpo (dio_clu_poke dev1 bm (8 * i) (le_bytes 8 (if True then set_bit n (bm_long sb (j * (unat (bsize sb) div 8) + i)) else unset_bit n (bm_long sb (j * (unat (bsize sb) div 8) + i)))))
    (\<lambda>dev. wpo (dio_clu_set_dirty dev bm) (\<lambda>(u, dev). wpo (dio_clu_sync_index dev bm)
       (\<lambda>(err, dev). Q (if err \<noteq> 0 then Inl err else Inr (8 * i, n), sb\<lparr>ddev := dev, used_blocks := used_blocks sb + 1\<rparr>))))"
        by (rule wp_bm_poke_pinned [OF assms(1-6) i(2) n(1)]) (use found [OF i(2) n] in \<open>simp add: q_def\<close>)
      then show ?thesis
        using ScanBit by (simp add: q_def case_prod_unfold split del: if_split cong: if_cong)
    qed
    then show ?thesis
      using False block rest unfolding longs
      by (auto simp: word_le_nat_alt w intro!: wp_dio_clu_peek [OF assms(2,5) long_off_fits i(2)] cong: bm_scan.case_cong)
  qed
qed

text \<open>The first free block below the end, if there is one.\<close>

lemma wp_find_set_free_bit:
  assumes "sb_ok sb" "dio_good (unat (bsize sb)) dev1" "content (dio_abs dev1) = content (dio_abs (ddev sb))"
    and "bm = bm_block sb + of_nat j" "0 < pins (dio_abs dev1) bm" "j < unat (bm_blocks sb)"
    and "\<forall>b < 64 * (j * (unat (bsize sb) div 8)). b < unat (nr_blocks sb) \<longrightarrow> bm_used sb b"
    and "wpo (nkfs_balloc_scan_longs bm (map (\<lambda>k. 8 * k) [0..<unat (bsize sb) div 8]) (sb\<lparr>ddev := dev1\<rparr>)) Q"
  shows "wpo (nkfs_balloc_block_find_set_free_bit (sb\<lparr>ddev := dev1\<rparr>) bm) Q"
proof -
  have d: "dio_wf dev1" "dev_clu_size dev1 = unat (bsize sb)"
    using assms(2) by (simp_all add: dio_good_def)
  obtain c where "RBT.lookup (clus_root dev1) bm = Some c" "clu_base dev1 0 bm c"
    using pinned_clu [OF d(1) assms(5)] by metis
  then show ?thesis
    using assms(8) d(2) sb_ok_bsize [OF assms(1)]
    by (simp add: nkfs_balloc_block_find_set_free_bit_def clu_base_def)
qed

lemma nr_blocks_le: "sb_ok sb \<Longrightarrow> unat (nr_blocks sb) \<le> 64 * (unat (bm_blocks sb) * (unat (bsize sb) div 8))"
proof -
  assume ok: "sb_ok sb"
  obtain q where q: "unat (bsize sb) = 8 * q"
    using sb_ok_bsize8 [OF ok] by (auto elim!: dvdE dest!: mod_0_imp_dvd)
  have "unat (nr_blocks sb) \<le> unat (bm_blocks sb) * (8 * unat (bsize sb))"
    using ok by (simp add: sb_ok_def)
  then show ?thesis
    unfolding q by simp
qed

lemma wp_block_alloc_loop:
  assumes "sb_ok sb" "dio_good (unat (bsize sb)) dev1" "content (dio_abs dev1) = content (dio_abs (ddev sb))"
    and "pins (dio_abs dev1) = pins (dio_abs (ddev sb))"
    and full: "\<And>dev. \<forall>b < unat (nr_blocks sb). bm_used sb b \<Longrightarrow> dio_good (unat (bsize sb)) dev \<Longrightarrow>
      content (dio_abs dev) = content (dio_abs (ddev sb)) \<Longrightarrow> pins (dio_abs dev) = pins (dio_abs (ddev sb)) \<Longrightarrow>
      Q ((- ENOSPC, 0), sb\<lparr>ddev := dev\<rparr>)"
    and found: "\<And>block sb'. unat block < unat (nr_blocks sb) \<Longrightarrow> \<not> bm_used sb (unat block) \<Longrightarrow>
      \<forall>b < unat block. bm_used sb b \<Longrightarrow> bm_changed sb (unat block) True sb' \<Longrightarrow>
      pins (dio_abs (ddev sb')) = pins (dio_abs (ddev sb)) \<Longrightarrow> Q ((0, block), sb')"
    and "j \<le> unat (bm_blocks sb)" "\<forall>b < 64 * (j * (unat (bsize sb) div 8)). b < unat (nr_blocks sb) \<longrightarrow> bm_used sb b"
  shows "wpo (nkfs_balloc_block_alloc_loop (map (\<lambda>j. bm_block sb + of_nat j) [j..<unat (bm_blocks sb)]) (sb\<lparr>ddev := dev1\<rparr>)) Q"
  using assms(2-4,7,8)
proof (induction "unat (bm_blocks sb) - j" arbitrary: j dev1)
  case 0
  then show ?case
    using full nr_blocks_le [OF assms(1)] by simp
next
  case (Suc m)
  then have j: "j < unat (bm_blocks sb)" and u: "[j..<unat (bm_blocks sb)] = j # [Suc j..<unat (bm_blocks sb)]"
    by (auto simp: upt_conv_Cons)
  let ?bm = "bm_block sb + of_nat j"
  let ?q = "unat (bsize sb) div 8"
  let ?rest = "nkfs_balloc_block_alloc_loop (map (\<lambda>j. bm_block sb + of_nat j) [Suc j..<unat (bm_blocks sb)])"
  let ?next = "\<lambda>(r, sb'). wpo (dio_clu_put (ddev sb') ?bm) (\<lambda>dev. wpo (case r of
      Inr (long_off, n) \<Rightarrow> Some ((0, 8 * (?bm - bm_block sb') * ucast (bsize sb') + 8 * of_nat long_off + of_nat n), sb'\<lparr>ddev := dev\<rparr>)
    | Inl err \<Rightarrow> ?rest (sb'\<lparr>ddev := dev\<rparr>)) Q)"
  have "wpo (nkfs_balloc_block_find_set_free_bit (sb\<lparr>ddev := dev2\<rparr>) ?bm) ?next"
    if g: "dio_good (unat (bsize sb)) dev2" and c: "content (dio_abs dev2) = content (dio_abs dev1)"
      and p: "pins (dio_abs dev2) = (pins (dio_abs dev1))(?bm := pins (dio_abs dev1) ?bm + 1)" for dev2
  proof -
    have c': "content (dio_abs dev2) = content (dio_abs (ddev sb))" and p': "0 < pins (dio_abs dev2) ?bm"
      using c p Suc.prems(2) by simp_all
    show ?thesis
    proof (rule wp_find_set_free_bit [OF assms(1) g c' refl p' j Suc.prems(5)],
        rule wp_scan_longs [OF assms(1) g c' refl p' j], goal_cases)
      case 1
      show ?case
        using Suc.hyps(1) [of "Suc j"] Suc.hyps(2) j 1 c' p p' Suc.prems(3)
        by (auto intro!: wp_dio_clu_put [OF g])
    next
      case (2 i n dev)
      let ?block = "8 * of_nat j * ucast (bsize sb) + 8 * of_nat (8 * i) + of_nat n :: u64"
      have b: "unat ?block = 64 * (j * ?q + i) + n"
        by (rule block_number_bit [OF assms(1) j 2(1,2)])
      have "Q ((0, ?block), sb\<lparr>ddev := dev', used_blocks := used_blocks sb + 1\<rparr>)"
        if "dio_good (unat (bsize sb)) dev'" "content (dio_abs dev') = content (dio_abs dev)"
          "pins (dio_abs dev') = pins (dio_abs (ddev sb))" for dev'
        by (rule found) (use 2 that b in simp_all)
      then show ?case
        using 2(8) p p' Suc.prems(3) by (auto intro!: wp_dio_clu_put [OF 2(7)])
    qed (use Suc.prems(5) in auto)
  qed
  then show ?case
    unfolding u by (auto simp: case_prod_unfold cong: sum.case_cong
        intro!: wp_dio_clu_get [OF Suc.prems(1) bm_index_ok [OF assms(1) j]])
qed

lemma bm_clear_loop:
  assumes "sb_ok sb" "dio_good (unat (bsize sb)) dev1" "pins (dio_abs dev1) = pins (dio_abs (ddev sb))"
    and "content (dio_abs dev1) = (\<lambda>i. if \<exists>j' < j. i = bm_block sb + of_nat j' then replicate (unat (bsize sb)) 0
       else content (dio_abs (ddev sb)) i)"
    and "\<And>dev. dio_good (unat (bsize sb)) dev \<Longrightarrow> pins (dio_abs dev) = pins (dio_abs (ddev sb)) \<Longrightarrow>
      content (dio_abs dev) = (\<lambda>i. if \<exists>j' < unat (bm_blocks sb). i = bm_block sb + of_nat j' then replicate (unat (bsize sb)) 0
         else content (dio_abs (ddev sb)) i) \<Longrightarrow> Q (0, sb\<lparr>ddev := dev, used_blocks := 0\<rparr>)"
    and "j \<le> unat (bm_blocks sb)"
  shows "wpo (nkfs_balloc_bm_clear_loop (map (\<lambda>j. bm_block sb + of_nat j) [j..<unat (bm_blocks sb)]) (sb\<lparr>ddev := dev1\<rparr>)) Q"
  using assms(2-4,6)
proof (induction "unat (bm_blocks sb) - j" arbitrary: j dev1)
  case 0
  then show ?case
    using assms(5) by simp
next
  case (Suc m)
  then have j: "j < unat (bm_blocks sb)" and u: "[j..<unat (bm_blocks sb)] = j # [Suc j..<unat (bm_blocks sb)]"
    by (auto simp: upt_conv_Cons)
  let ?bm = "bm_block sb + of_nat j"
  have IH: "wpo (nkfs_balloc_bm_clear_loop (map (\<lambda>j. bm_block sb + of_nat j) [Suc j..<unat (bm_blocks sb)]) (sb\<lparr>ddev := dev\<rparr>)) Q"
    if "dio_good (unat (bsize sb)) dev" "pins (dio_abs dev) = pins (dio_abs (ddev sb))"
      "content (dio_abs dev) = (content (dio_abs dev1))(?bm := replicate (unat (bsize sb)) 0)" for dev
    by (rule Suc.hyps(1)) (use Suc.hyps(2) that j Suc.prems(3) in \<open>auto simp: fun_eq_iff less_Suc_eq\<close>)
  show ?case
    unfolding u using Suc.prems(2)
    by (auto simp: case_prod_unfold intro!: wp_dio_clu_get [OF Suc.prems(1) bm_index_ok [OF assms(1) j]]
        wp_dio_clu_zero [where sz = "unat (bsize sb)"] wp_dio_clu_sync [where sz = "unat (bsize sb)"]
        wp_dio_clu_put [where sz = "unat (bsize sb)"] IH)
qed

lemma wp_block_alloc:
  assumes "sb_ok sb"
    and "\<And>dev. \<forall>b < unat (nr_blocks sb). bm_used sb b \<Longrightarrow> dio_good (unat (bsize sb)) dev \<Longrightarrow>
      content (dio_abs dev) = content (dio_abs (ddev sb)) \<Longrightarrow> pins (dio_abs dev) = pins (dio_abs (ddev sb)) \<Longrightarrow>
      Q ((- ENOSPC, 0), sb\<lparr>ddev := dev\<rparr>)"
    and "\<And>block sb'. unat block < unat (nr_blocks sb) \<Longrightarrow> \<not> bm_used sb (unat block) \<Longrightarrow>
      \<forall>b < unat block. bm_used sb b \<Longrightarrow> bm_changed sb (unat block) True sb' \<Longrightarrow>
      pins (dio_abs (ddev sb')) = pins (dio_abs (ddev sb)) \<Longrightarrow> Q ((0, block), sb')"
  shows "wpo (nkfs_balloc_block_alloc sb) Q"
proof -
  have good: "dio_good (unat (bsize sb)) (ddev sb)"
    using assms(1) by (simp add: sb_ok_def)
  have "wpo (nkfs_balloc_block_alloc_loop (map (\<lambda>j. bm_block sb + of_nat j) [0..<unat (bm_blocks sb)]) (sb\<lparr>ddev := ddev sb\<rparr>)) Q"
    by (rule wp_block_alloc_loop [OF assms(1) good refl refl assms(2,3)]) simp_all
  then show ?thesis
    by (simp add: nkfs_balloc_block_alloc_def bm_indices_eq [OF assms(1)])
qed

lemma bm_used_bound: "sb_ok sb \<Longrightarrow> b < unat (nr_blocks sb) \<Longrightarrow> b < unat (bm_blocks sb) * (8 * unat (bsize sb))"
  by (simp add: sb_ok_def)

text \<open>The count of used blocks agrees with the bitmap.\<close>

definition sb_counted :: "'a nkfs_sb_scheme \<Rightarrow> bool" where
  "sb_counted sb \<longleftrightarrow> sb_ok sb \<and> unat (used_blocks sb) = card {b. b < unat (nr_blocks sb) \<and> bm_used sb b}"

lemma bm_changed_counted:
  assumes "sb_counted sb" "bm_changed sb b use sb'" "b < unat (nr_blocks sb)" "bm_used sb b \<noteq> use"
  shows "sb_counted sb'"
proof -
  let ?S = "\<lambda>s. {b. b < unat (nr_blocks s) \<and> bm_used s b}"
  have ok: "sb_ok sb" and cnt: "unat (used_blocks sb) = card (?S sb)"
    using assms(1) by (auto simp: sb_counted_def)
  obtain dev u where sb': "sb' = sb\<lparr>ddev := dev, used_blocks := u\<rparr>" and u: "u = (if use then used_blocks sb + 1 else used_blocks sb - 1)"
    and ok': "sb_ok sb'" and bits: "\<forall>b' < unat (bm_blocks sb) * (8 * unat (bsize sb)). bm_used sb' b' = (if b' = b then use else bm_used sb b')"
    using assms(2) unfolding bm_changed_def by blast
  have S: "?S sb' = (if use then insert b (?S sb) else ?S sb - {b})"
    using bits bm_used_bound [OF ok] assms(3) by (auto simp: sb' split: if_splits)
  have fin: "finite (?S sb)" by simp
  have sub: "?S sb \<subseteq> {..<unat (nr_blocks sb)}" by auto
  show ?thesis
  proof (cases use)
    case True
    then have "b \<notin> ?S sb" using assms(4) by simp
    moreover from this have "card (?S sb) < unat (nr_blocks sb)"
      using psubset_card_mono [of "{..<unat (nr_blocks sb)}" "?S sb"] sub assms(3) by (auto simp: psubset_eq)
    then have "unat (used_blocks sb + 1) = unat (used_blocks sb) + 1"
      using cnt unat_lt64 [of "nr_blocks sb"] by (simp add: unat_word_ariths)
    ultimately show ?thesis
      using ok' cnt True unfolding sb_counted_def S by (simp add: sb' u)
  next
    case False
    then have b: "b \<in> ?S sb" using assms(3,4) by simp
    then have "0 < card (?S sb)"
      using fin by (auto simp: card_gt_0_iff)
    then have "unat (used_blocks sb - 1) = unat (used_blocks sb) - 1"
      using cnt by (simp add: unat_sub word_le_nat_alt)
    then show ?thesis
      using ok' cnt False b unfolding sb_counted_def S by (simp add: sb' u)
  qed
qed

lemma bm_changed_fields:
  assumes "bm_changed sb b use sb'"
  shows "nr_blocks sb' = nr_blocks sb" "bm_blocks sb' = bm_blocks sb" "bsize sb' = bsize sb" "bm_block sb' = bm_block sb"
proof -
  obtain dev u where e: "sb' = sb\<lparr>ddev := dev, used_blocks := u\<rparr>"
    using assms unfolding bm_changed_def by blast
  show "nr_blocks sb' = nr_blocks sb" "bm_blocks sb' = bm_blocks sb" "bsize sb' = bsize sb" "bm_block sb' = bm_block sb"
    by (simp_all add: e)
qed

lemma block_alloc_ok:
  assumes "sb_ok sb" "nkfs_balloc_block_alloc sb = Some ((0, block), sb')"
  shows "unat block < unat (nr_blocks sb) \<and> \<not> bm_used sb (unat block) \<and> bm_changed sb (unat block) True sb'"
proof -
  have "wpo (nkfs_balloc_block_alloc sb) (\<lambda>((err, block), sb'). err = 0 \<longrightarrow>
      unat block < unat (nr_blocks sb) \<and> \<not> bm_used sb (unat block) \<and> bm_changed sb (unat block) True sb')"
    by (rule wp_block_alloc [OF assms(1)]) auto
  then show ?thesis
    using assms(2) by simp
qed

lemma block_alloc_some:
  assumes "sb_ok sb" "b < unat (nr_blocks sb)" "\<not> bm_used sb b"
  shows "\<exists>block sb'. nkfs_balloc_block_alloc sb = Some ((0, block), sb')"
proof -
  have "wpo (nkfs_balloc_block_alloc sb) (\<lambda>((err, block), sb'). err = 0)"
    by (rule wp_block_alloc [OF assms(1)]) (use assms(2,3) in auto)
  then show ?thesis
    by (auto simp: wpo_def)
qed

lemma block_alloc_counted:
  assumes "sb_counted sb" "nkfs_balloc_block_alloc sb = Some (r, sb')"
  shows "sb_counted sb'"
proof -
  have ok: "sb_ok sb"
    using assms(1) by (simp add: sb_counted_def)
  have "wpo (nkfs_balloc_block_alloc sb) (\<lambda>(r, sb'). sb_counted sb')"
  proof (rule wp_block_alloc [OF ok], goal_cases)
    case (1 dev)
    then show ?case
      using assms(1) sb_ok_dev [OF ok 1(2)] bm_used_cong(1) [OF 1(3)] by (simp add: sb_counted_def)
  next
    case (2 block sb')
    then show ?case
      using bm_changed_counted [OF assms(1) 2(4,1)] by simp
  qed
  then show ?thesis
    using assms(2) by simp
qed

lemma block_mark_outside:
  "unat (nr_blocks sb) \<le> unat block \<Longrightarrow> nkfs_balloc_block_mark sb block use = Some (- EINVAL, sb)"
  by (simp add: nkfs_balloc_block_mark_def nkfs_balloc_block_bm_bit_def word_le_nat_alt)

lemma block_mark_ok:
  assumes "sb_ok sb" "unat block < unat (nr_blocks sb)" "bm_used sb (unat block) \<noteq> use"
  shows "\<exists>sb'. nkfs_balloc_block_mark sb block use = Some (0, sb') \<and> bm_changed sb (unat block) use sb'"
proof -
  have "wpo (nkfs_balloc_block_mark sb block use) (\<lambda>(err, sb'). err = 0 \<and> bm_changed sb (unat block) use sb')"
    by (rule wp_block_mark [OF assms]) simp
  then show ?thesis
    by (auto simp: wpo_def)
qed

lemma block_mark_again:
  assumes "sb_ok sb" "unat block < unat (nr_blocks sb)" "bm_used sb (unat block) = use"
  shows "nkfs_balloc_block_mark sb block use = None"
proof (rule bm_bit_cases [OF assms(1,2)])
  fix j i n
  assume m: "nkfs_balloc_block_bm_bit sb block = Inr (bm_block sb + of_nat j, 8 * i, n)"
    "j < unat (bm_blocks sb)" "8 * i < unat (bsize sb)" "n < 64" "64 * (j * (unat (bsize sb) div 8) + i) + n = unat block"
  let ?bm = "bm_block sb + of_nat j"
  have good: "dio_good (unat (bsize sb)) (ddev sb)"
    using assms(1) by (simp add: sb_ok_def)
  have "wpo (dio_clu_get (ddev sb) ?bm) (\<lambda>(ok, dev). ok \<and> wpo (dio_clu_peek dev ?bm (8 * i) 8)
      (\<lambda>bytes. bit (le_word bytes :: u64) n = use))"
  proof (rule wp_dio_clu_get [OF good bm_index_ok [OF assms(1) m(2)]], simp, rule wp_dio_clu_peek [OF _ _ long_off_fits m(3)])
    fix dev
    assume "content (dio_abs dev) = content (dio_abs (ddev sb))"
    then show "bit (le_word (take 8 (drop (8 * i) (content (dio_abs dev) ?bm))) :: u64) n = use"
      using bm_long_at [OF m(3) sb_ok_bsize8 [OF assms(1)], of j] bm_used_at [OF m(4,5), of sb] assms(3) by simp
  qed auto
  then show ?thesis
    by (auto simp: wpo_def nkfs_balloc_block_mark_def m(1) on_dev_def)
qed

lemma block_mark_counted:
  assumes "sb_counted sb" "nkfs_balloc_block_mark sb block use = Some (err, sb')"
  shows "sb_counted sb'"
proof -
  have ok: "sb_ok sb"
    using assms(1) by (simp add: sb_counted_def)
  show ?thesis
  proof (cases "unat block < unat (nr_blocks sb)")
    case True
    have u: "bm_used sb (unat block) \<noteq> use"
    proof
      assume "bm_used sb (unat block) = use"
      then show False
        using block_mark_again [OF ok True] assms(2) by simp
    qed
    then show ?thesis
      using block_mark_ok [OF ok True u] assms(2) bm_changed_counted [OF assms(1) _ True u] by auto
  next
    case False
    then show ?thesis
      using block_mark_outside [of sb block use] assms by auto
  qed
qed

lemma bm_clear_ok:
  assumes "sb_ok sb"
  obtains dev where "nkfs_balloc_bm_clear sb = Some (0, sb\<lparr>ddev := dev, used_blocks := 0\<rparr>)" "sb_ok (sb\<lparr>ddev := dev, used_blocks := 0\<rparr>)"
    "pins (dio_abs dev) = pins (dio_abs (ddev sb))" "\<forall>b < unat (nr_blocks sb). \<not> bm_used (sb\<lparr>ddev := dev, used_blocks := 0\<rparr>) b"
    "\<forall>i. i \<notin> set (bm_indices sb) \<longrightarrow> content (dio_abs dev) i = content (dio_abs (ddev sb)) i"
proof -
  have good: "dio_good (unat (bsize sb)) (ddev sb)"
    using assms(1) by (simp add: sb_ok_def)
  have "wpo (nkfs_balloc_bm_clear_loop (map (\<lambda>j. bm_block sb + of_nat j) [0..<unat (bm_blocks sb)]) (sb\<lparr>ddev := ddev sb\<rparr>))
    (\<lambda>(err, sb'). err = 0 \<and> (\<exists>dev. sb' = sb\<lparr>ddev := dev, used_blocks := 0\<rparr> \<and> sb_ok sb' \<and> pins (dio_abs dev) = pins (dio_abs (ddev sb))
      \<and> (\<forall>b < unat (nr_blocks sb). \<not> bm_used sb' b) \<and> (\<forall>i. i \<notin> set (bm_indices sb) \<longrightarrow> content (dio_abs dev) i = content (dio_abs (ddev sb)) i)))"
  proof (rule bm_clear_loop [OF assms good refl], goal_cases)
    case (2 dev)
    let ?sb = "sb\<lparr>ddev := dev, used_blocks := 0\<rparr>"
    have ok: "sb_ok ?sb"
      using assms 2(1) by (simp add: sb_ok_def)
    have "\<not> bm_used ?sb b" if "b < unat (nr_blocks sb)" for b
    proof (rule bm_bit_cases [OF ok, of "of_nat b"])
      show "unat (of_nat b :: u64) < unat (nr_blocks ?sb)"
        using that unat_lt64 [of "nr_blocks sb"] by (simp add: unat_of_nat)
    next
      fix j i n
      assume m: "j < unat (bm_blocks ?sb)" "8 * i < unat (bsize ?sb)" "n < 64"
        "64 * (j * (unat (bsize ?sb) div 8) + i) + n = unat (of_nat b :: u64)"
      have "content (dio_abs dev) (bm_block sb + of_nat j) = replicate (unat (bsize sb)) 0"
        using 2(3) m(1) by auto
      then have "bm_long ?sb (j * (unat (bsize sb) div 8) + i) = le_word (take 8 (drop (8 * i) (replicate (unat (bsize sb)) 0)))"
        using bm_long_at [of i ?sb j] m(2) sb_ok_bsize8 [OF assms] by simp
      then have "bm_long ?sb (j * (unat (bsize sb) div 8) + i) = 0"
        by (simp add: le_word_zeros)
      then show ?thesis
        using bm_used_at [OF m(3,4), of ?sb] that unat_lt64 [of "nr_blocks sb"] by (simp add: unat_of_nat)
    qed
    moreover have "content (dio_abs dev) i = content (dio_abs (ddev sb)) i" if "i \<notin> set (bm_indices sb)" for i
      using that 2(3) by (auto simp: bm_indices_eq [OF assms])
    ultimately show ?case
      using ok 2(2) by blast
  qed simp_all
  then show ?thesis
    using that by (auto simp: wpo_def nkfs_balloc_bm_clear_def bm_indices_eq [OF assms])
qed

lemma bm_clear_counted:
  assumes "sb_ok sb"
  shows "\<exists>sb'. nkfs_balloc_bm_clear sb = Some (0, sb') \<and> sb_counted sb' \<and> used_blocks sb' = 0"
proof -
  obtain dev where "nkfs_balloc_bm_clear sb = Some (0, sb\<lparr>ddev := dev, used_blocks := 0\<rparr>)" "sb_ok (sb\<lparr>ddev := dev, used_blocks := 0\<rparr>)"
    "\<forall>b < unat (nr_blocks sb). \<not> bm_used (sb\<lparr>ddev := dev, used_blocks := 0\<rparr>) b"
    by (rule bm_clear_ok [OF assms])
  then show ?thesis
    by (simp add: sb_counted_def cong: conj_cong)
qed

text \<open>A small device for the witnesses: a hundred blocks, all free.\<close>

definition demo_sb :: nkfs_sb where
  "demo_sb = \<lparr>ddev = zero_dev 4, sb_refs = 1, sb_id = nkfs_obj_id_zero, nr_blocks = 100, sb_magic = 0, sb_version = 1,
     sb_size = 409600, bm_block = 1, bm_blocks = 1, inodes_tree_block = 0, used_blocks = 0, bsize = 4096, sb_stopping = False\<rparr>"

lemma demo_sb_ok: "sb_ok demo_sb"
  using zero_dev_ready [of 4] by (simp add: demo_sb_def sb_ok_def dio_good_def dio_ready_def)

lemma demo_sb_nr [simp]: "nr_blocks demo_sb = 100" "used_blocks demo_sb = 0"
  by (simp_all add: demo_sb_def)

lemma demo_sb_unused [simp]: "\<not> bm_used demo_sb b"
proof -
  have "bm_long demo_sb k = 0" for k
    by (simp add: bm_long_def demo_sb_def zero_dev_abs le_word_zeros)
  then show ?thesis
    by (simp add: bm_used_def)
qed

section \<open>Properties\<close>

text \<open>
  (C1) Allocation takes the first free block: if a block is free, the lowest one
  is returned and its bit, no other, is set and counted; otherwise the answer is
  \<open>-ENOSPC\<close> and no bit changes.
\<close>

theorem nkfs_balloc_block_alloc_first_free:
  assumes "sb_ok sb"
  shows "\<exists>err block sb'. nkfs_balloc_block_alloc sb = Some ((err, block), sb') \<and> sb_ok sb' \<and>
    (if \<forall>b < unat (nr_blocks sb). bm_used sb b
     then err = - ENOSPC \<and> (\<forall>b. bm_used sb' b = bm_used sb b) \<and> used_blocks sb' = used_blocks sb
     else err = 0 \<and> unat block < unat (nr_blocks sb) \<and> \<not> bm_used sb (unat block)
       \<and> (\<forall>b < unat block. bm_used sb b) \<and> bm_changed sb (unat block) True sb')"
proof -
  have "wpo (nkfs_balloc_block_alloc sb) (\<lambda>((err, block), sb'). sb_ok sb' \<and>
    (if \<forall>b < unat (nr_blocks sb). bm_used sb b
     then err = - ENOSPC \<and> (\<forall>b. bm_used sb' b = bm_used sb b) \<and> used_blocks sb' = used_blocks sb
     else err = 0 \<and> unat block < unat (nr_blocks sb) \<and> \<not> bm_used sb (unat block)
       \<and> (\<forall>b < unat block. bm_used sb b) \<and> bm_changed sb (unat block) True sb'))"
  proof (rule wp_block_alloc [OF assms], goal_cases)
    case (1 dev)
    then show ?case
      using sb_ok_dev [OF assms 1(2)] bm_used_cong(1) [OF 1(3)] by simp
  next
    case (2 block sb')
    then show ?case
      by (auto simp: bm_changed_def)
  qed
  then show ?thesis
    by (auto simp: wpo_def)
qed

theorem nkfs_balloc_block_alloc_first_free_witness:
  "\<exists>sb'. nkfs_balloc_block_alloc demo_sb = Some ((0, 0), sb') \<and> bm_changed demo_sb 0 True sb'"
proof -
  obtain err block sb' where a: "nkfs_balloc_block_alloc demo_sb = Some ((err, block), sb')" "err = 0"
    "\<forall>b < unat block. bm_used demo_sb b" "bm_changed demo_sb (unat block) True sb'"
  proof -
    have "\<not> (\<forall>b < unat (nr_blocks demo_sb). bm_used demo_sb b)"
      by (auto intro: exI [of _ 0])
    then show thesis
      using nkfs_balloc_block_alloc_first_free [OF demo_sb_ok] that by (simp only: if_False) blast
  qed
  then have "unat block = 0"
    by (auto simp: demo_sb_unused)
  then have "block = 0"
    by (simp add: unat_eq_zero)
  then show ?thesis
    using a by simp
qed

text \<open>
  (C23) Marking a block: outside the device it is refused, setting a set bit or
  clearing a clear one stops the machine, and otherwise exactly that bit changes
  and is counted.
\<close>

theorem nkfs_balloc_block_mark_cases:
  assumes "sb_ok sb"
  shows "if unat (nr_blocks sb) \<le> unat block then nkfs_balloc_block_mark sb block use = Some (- EINVAL, sb)
    else if bm_used sb (unat block) = use then nkfs_balloc_block_mark sb block use = None
    else \<exists>sb'. nkfs_balloc_block_mark sb block use = Some (0, sb') \<and> bm_changed sb (unat block) use sb'"
proof (cases "unat block < unat (nr_blocks sb)")
  case True
  then show ?thesis
    using block_mark_again [OF assms True] block_mark_ok [OF assms True] by (cases "bm_used sb (unat block) = use") simp_all
qed (simp add: block_mark_outside)

theorem nkfs_balloc_block_mark_cases_witness:
  "nkfs_balloc_block_mark demo_sb 100 True = Some (- EINVAL, demo_sb)
   \<and> nkfs_balloc_block_mark demo_sb 99 False = None
   \<and> (\<exists>sb'. nkfs_balloc_block_mark demo_sb 99 True = Some (0, sb') \<and> bm_changed demo_sb 99 True sb')"
  using nkfs_balloc_block_mark_cases [OF demo_sb_ok, of 100 True] nkfs_balloc_block_mark_cases [OF demo_sb_ok, of 99 False]
    nkfs_balloc_block_mark_cases [OF demo_sb_ok, of 99 True]
  by (simp add: demo_sb_unused demo_sb_nr)



text \<open>
  (C25) The count of used blocks is the number of set bits: clearing the bitmap
  establishes it, and every allocation and every mark that returns keeps it.
\<close>

theorem nkfs_balloc_counted:
  assumes "sb_ok sb"
  shows "(\<exists>sb'. nkfs_balloc_bm_clear sb = Some (0, sb') \<and> sb_counted sb' \<and> used_blocks sb' = 0)
    \<and> (sb_counted sb \<longrightarrow> (\<forall>r sb'. nkfs_balloc_block_alloc sb = Some (r, sb') \<longrightarrow> sb_counted sb')
      \<and> (\<forall>block use err sb'. nkfs_balloc_block_mark sb block use = Some (err, sb') \<longrightarrow> sb_counted sb'))"
  using bm_clear_counted [OF assms] block_alloc_counted block_mark_counted by blast

theorem nkfs_balloc_counted_witness:
  "sb_counted demo_sb \<and> (\<exists>r sb'. nkfs_balloc_block_alloc demo_sb = Some (r, sb') \<and> sb_counted sb')"
proof -
  have c: "sb_counted demo_sb"
    by (simp add: sb_counted_def demo_sb_ok demo_sb_unused demo_sb_nr)
  obtain block sb1 where "nkfs_balloc_block_alloc demo_sb = Some ((0, block), sb1)"
    using block_alloc_some [OF demo_sb_ok, of 0] by (auto simp: demo_sb_unused demo_sb_nr)
  then show ?thesis
    using nkfs_balloc_counted [OF demo_sb_ok] c by blast
qed

end
