(* ===== verification/Btree_Disk.thy ===== *)
theory Btree_Disk
  imports Btree_Node Balloc Xxhash
begin

text \<open>
  The image of a B-tree node in its block (\<open>src/include/nkfs_image.h\<close>, the
  \<open>ondisk\<close> functions of \<open>src/core/btree.c\<close>) and its checksum.  The image has
  room for four of the seven key pages: \<open>reread\<close> is the node that comes back, and
  \<open>node_disk_ok\<close> says when it is the node that was written.
\<close>

section \<open>The image on disk\<close>

text \<open>
  The node on disk, \<open>struct nkfs_btree_node_disk\<close>: the offsets of its members.
  The source declares \<open>keys[NKFS_BTREE_VALUE_PAGES]\<close>, four pages.
\<close>

definition disk_header_off :: nat where
  "disk_header_off = 0"

definition disk_keys_off :: "nat \<Rightarrow> nat" where
  "disk_keys_off i = PAGE_SIZE + i * PAGE_SIZE"

definition disk_children_off :: "nat \<Rightarrow> nat" where
  "disk_children_off i = PAGE_SIZE + NKFS_BTREE_VALUE_PAGES * PAGE_SIZE + i * PAGE_SIZE"

definition disk_values_off :: "nat \<Rightarrow> nat" where
  "disk_values_off i = PAGE_SIZE + NKFS_BTREE_VALUE_PAGES * PAGE_SIZE + NKFS_BTREE_CHILD_PAGES * PAGE_SIZE + i * PAGE_SIZE"

definition node_disk_size :: nat where
  "node_disk_size = disk_values_off NKFS_BTREE_VALUE_PAGES"

definition chunks :: "nat \<Rightarrow> nat \<Rightarrow> 'a list \<Rightarrow> 'a list list" where
  "chunks k n xs = map (\<lambda>j. take k (drop (j * k) xs)) [0..<n]"

text \<open>The bytes of the header page in memory, and a header page in memory bytes.\<close>

definition header_page_bytes :: "nkfs_btree_header_page \<Rightarrow> u8 list" where
  "header_page_bytes h =
     le_bytes 4 (h_sig1 h) @ le_bytes 4 (h_leaf h) @ le_bytes 4 (h_nr_keys h) @ h_pad h
       @ le_bytes 8 (h_sum h) @ le_bytes 4 (h_sig2 h)"

definition header_page_of_bytes :: "u8 list \<Rightarrow> nkfs_btree_header_page" where
  "header_page_of_bytes bs =
     \<lparr>h_sig1 = le_word (take 4 bs), h_leaf = le_word (take 4 (drop 4 bs)), h_nr_keys = le_word (take 4 (drop 8 bs)),
      h_pad = take 4072 (drop 12 bs), h_sum = le_word (take 8 (drop 4084 bs)), h_sig2 = le_word (take 4 (drop 4092 bs))\<rparr>"

definition words_bytes :: "u64 list \<Rightarrow> u8 list" where
  "words_bytes ws = concat (map (le_bytes 8) ws)"

definition words_of_bytes :: "u8 list \<Rightarrow> u64 list" where
  "words_of_bytes bs = map le_word (chunks 8 512 bs)"

definition nkfs_btree_node_child_page_by_ondisk :: "u64 list \<Rightarrow> u64 list" where
  "nkfs_btree_node_child_page_by_ondisk src = map be64_to_cpu src"

definition nkfs_btree_node_value_page_by_ondisk :: "u64 list \<Rightarrow> u64 list" where
  "nkfs_btree_node_value_page_by_ondisk src = map be64_to_cpu src"

definition nkfs_btree_node_child_page_to_ondisk :: "u64 list \<Rightarrow> u64 list" where
  "nkfs_btree_node_child_page_to_ondisk src = map cpu_to_be64 src"

definition nkfs_btree_node_value_page_to_ondisk :: "u64 list \<Rightarrow> u64 list" where
  "nkfs_btree_node_value_page_to_ondisk src = map cpu_to_be64 src"

definition nkfs_btree_node_header_page_to_ondisk :: "nkfs_btree_header_page \<Rightarrow> nkfs_btree_header_page" where
  "nkfs_btree_node_header_page_to_ondisk src =
     src\<lparr>h_sig1 := cpu_to_be32 (h_sig1 src), h_leaf := cpu_to_be32 (h_leaf src),
         h_nr_keys := cpu_to_be32 (h_nr_keys src), h_sig2 := cpu_to_be32 (h_sig2 src)\<rparr>"

definition nkfs_btree_node_header_page_by_ondisk :: "nkfs_btree_header_page \<Rightarrow> nkfs_btree_header_page" where
  "nkfs_btree_node_header_page_by_ondisk src =
     src\<lparr>h_sig1 := be32_to_cpu (h_sig1 src), h_leaf := be32_to_cpu (h_leaf src),
         h_nr_keys := be32_to_cpu (h_nr_keys src), h_sig2 := be32_to_cpu (h_sig2 src)\<rparr>"

definition map_pages :: "(nat \<Rightarrow> 'a option) \<Rightarrow> nat \<Rightarrow> 'a list option" where
  "map_pages f n = fold_opt (\<lambda>i ps. do { p \<leftarrow> f i; Some (ps @ [p]) }) [0..<n] []"

definition nkfs_btree_node_by_ondisk :: "nkfs_btree_node \<Rightarrow> dio_dev \<Rightarrow> u64 \<Rightarrow> nkfs_btree_node option" where
  "nkfs_btree_node_by_ondisk node dev clu = do {
     hb \<leftarrow> dio_clu_peek dev clu disk_header_off PAGE_SIZE;
     ks \<leftarrow> map_pages (\<lambda>i. dio_clu_peek dev clu (disk_keys_off i) PAGE_SIZE) NKFS_BTREE_KEY_PAGES;
     cs \<leftarrow> map_pages (\<lambda>i. dio_clu_peek dev clu (disk_children_off i) PAGE_SIZE) NKFS_BTREE_CHILD_PAGES;
     vs \<leftarrow> map_pages (\<lambda>i. dio_clu_peek dev clu (disk_values_off i) PAGE_SIZE) NKFS_BTREE_VALUE_PAGES;
     Some (node\<lparr>
       n_header := nkfs_btree_node_header_page_by_ondisk (header_page_of_bytes hb),
       n_keys := map (chunks 16 256) ks,
       n_children := map (\<lambda>b. Some (nkfs_btree_node_child_page_by_ondisk (words_of_bytes b))) cs,
       n_values := map (\<lambda>b. nkfs_btree_node_value_page_by_ondisk (words_of_bytes b)) vs\<rparr>)
   }"

definition nkfs_btree_node_to_ondisk :: "nkfs_btree_node \<Rightarrow> dio_dev \<Rightarrow> u64 \<Rightarrow> dio_dev option" where
  "nkfs_btree_node_to_ondisk node dev clu = do {
     dev \<leftarrow> dio_clu_poke dev clu disk_header_off
       (header_page_bytes (nkfs_btree_node_header_page_to_ondisk (n_header node)));
     dev \<leftarrow> fold_opt (\<lambda>i dev. dio_clu_poke dev clu (disk_keys_off i) (concat (n_keys node ! i)))
       [0..<NKFS_BTREE_KEY_PAGES] dev;
     dev \<leftarrow> fold_opt (\<lambda>i dev. do {
         page \<leftarrow> n_children node ! i;
         dio_clu_poke dev clu (disk_children_off i) (words_bytes (nkfs_btree_node_child_page_to_ondisk page))
       }) [0..<NKFS_BTREE_CHILD_PAGES] dev;
     fold_opt (\<lambda>i dev.
         dio_clu_poke dev clu (disk_values_off i) (words_bytes (nkfs_btree_node_value_page_to_ondisk (n_values node ! i))))
       [0..<NKFS_BTREE_VALUE_PAGES] dev
   }"

text \<open>The checksum: the header page up to the sum, then the key, child and value pages.\<close>

definition csum_pieces :: "u8 list list \<Rightarrow> u64" where
  "csum_pieces cs = csum_digest (fold (\<lambda>c ctx. csum_update ctx c) cs
     (csum_reset \<lparr>csum_state = \<lparr>total_len64 = 0, seed64 = 0, v64 = (0, 0, 0, 0), mem64 = replicate 32 0, memsize64 = 0\<rparr>\<rparr>))"

definition nkfs_btree_node_calc_sum :: "nkfs_btree_node \<Rightarrow> u64 option" where
  "nkfs_btree_node_calc_sum node = do {
     assert_that (None \<notin> set (n_children node));
     Some (csum_pieces (take 4084 (header_page_bytes (n_header node)) # map concat (n_keys node)
       @ map (\<lambda>p. words_bytes (the p)) (n_children node) @ map words_bytes (n_values node)))
   }"

section \<open>Encoding and decoding\<close>

lemma chunks_concat:
  "(\<And>x. x \<in> set xs \<Longrightarrow> length x = k) \<Longrightarrow> chunks k (length xs) (concat xs) = xs"
proof (induction xs)
  case (Cons x xs)
  have "chunks k (Suc (length xs)) (x @ concat xs) = x # chunks k (length xs) (concat xs)"
    using Cons.prems [of x] by (simp add: chunks_def upt_conv_Cons map_Suc_upt [symmetric] comp_def del: upt_Suc)
  then show ?case
    using Cons by simp
qed (simp add: chunks_def)

lemma length_chunks [simp]: "length (chunks k n xs) = n"
  by (simp add: chunks_def)

lemma concat_chunks_all: "length xs = n * k \<Longrightarrow> concat (chunks k n xs) = xs"
  using concat_chunks [of n k xs] by (simp add: chunks_def)

lemma length_chunk: "length xs = n * k \<Longrightarrow> c \<in> set (chunks k n xs) \<Longrightarrow> length c = k"
proof -
  assume l: "length xs = n * k" "c \<in> set (chunks k n xs)"
  then obtain j where "j < n" "c = take k (drop (j * k) xs)"
    by (auto simp: chunks_def)
  moreover have "j * k + k \<le> n * k"
    using \<open>j < n\<close> mult_le_mono1 [of "Suc j" n k] by simp
  ultimately show ?thesis
    using l by simp
qed

lemma length_words_bytes [simp]: "length (words_bytes ws) = 8 * length ws"
  by (induction ws) (simp_all add: words_bytes_def)

lemma words_of_words_bytes: "length ws = 512 \<Longrightarrow> words_of_bytes (words_bytes ws) = ws"
proof -
  assume l: "length ws = 512"
  have "chunks 8 (length (map (le_bytes 8) ws)) (concat (map (le_bytes 8) ws)) = map (le_bytes 8) ws"
    by (rule chunks_concat) auto
  then show ?thesis
    using l by (simp add: words_of_bytes_def words_bytes_def comp_def)
qed

lemma words_bytes_of_bytes: "length bs = 4096 \<Longrightarrow> words_bytes (words_of_bytes bs) = bs"
proof -
  assume l: "length bs = 4096"
  have "le_bytes 8 (le_word c :: u64) = c" if "c \<in> set (chunks 8 512 bs)" for c
    using length_chunk [OF _ that] l le_bytes_le_word [of c, where 'a = 64] by simp
  then have "map (le_bytes 8) (words_of_bytes bs) = chunks 8 512 bs"
    unfolding words_of_bytes_def map_map comp_def by (rule map_idI)
  then show ?thesis
    using l concat_chunks_all [of bs 512 8] by (simp add: words_bytes_def)
qed

lemma length_words_of_bytes [simp]: "length (words_of_bytes bs) = 512"
  by (simp add: words_of_bytes_def)

lemma length_header_page_bytes: "length (h_pad h) = 4072 \<Longrightarrow> length (header_page_bytes h) = 4096"
  by (simp add: header_page_bytes_def)

lemma header_page_of_header_bytes: "length (h_pad h) = 4072 \<Longrightarrow> header_page_of_bytes (header_page_bytes h) = h"
  by (simp add: header_page_of_bytes_def header_page_bytes_def)

lemma page_codec [simp]:
  "nkfs_btree_node_child_page_by_ondisk (nkfs_btree_node_child_page_to_ondisk ws) = ws"
  "nkfs_btree_node_child_page_to_ondisk (nkfs_btree_node_child_page_by_ondisk ws) = ws"
  "nkfs_btree_node_value_page_by_ondisk (nkfs_btree_node_value_page_to_ondisk ws) = ws"
  "nkfs_btree_node_header_page_by_ondisk (nkfs_btree_node_header_page_to_ondisk h) = h"
  "length (nkfs_btree_node_child_page_to_ondisk ws) = length ws"
  "length (nkfs_btree_node_child_page_by_ondisk ws) = length ws"
  "length (nkfs_btree_node_value_page_to_ondisk ws) = length ws"
  "length (nkfs_btree_node_value_page_by_ondisk ws) = length ws"
  "h_pad (nkfs_btree_node_header_page_to_ondisk h) = h_pad h"
  by (simp_all add: nkfs_btree_node_child_page_by_ondisk_def nkfs_btree_node_child_page_to_ondisk_def
      nkfs_btree_node_value_page_by_ondisk_def nkfs_btree_node_value_page_to_ondisk_def
      nkfs_btree_node_header_page_by_ondisk_def nkfs_btree_node_header_page_to_ondisk_def comp_def)

section \<open>Pages of a cluster\<close>

definition page_at :: "u8 list \<Rightarrow> nat \<Rightarrow> u8 list" where
  "page_at c k = take 4096 (drop (k * 4096) c)"

lemma page_at_memcpy:
  assumes "length buf = 4096" "j * 4096 + 4096 \<le> length c" "k * 4096 + 4096 \<le> length c"
  shows "page_at (memcpy_at c (j * 4096) buf) k = (if k = j then buf else page_at c k)"
proof -
  have "k = j \<or> k * 4096 + 4096 \<le> j * 4096 \<or> j * 4096 + 4096 \<le> k * 4096"
    by (cases k j rule: linorder_cases) auto
  then show ?thesis
    using assms by (auto simp: page_at_def nth_memcpy_at intro!: nth_equalityI)
qed

text \<open>The sixteen pages of a block; the stores of \<open>nkfs_btree_node_to_ondisk\<close> as page stores.\<close>

definition block_pages :: "u8 list \<Rightarrow> (nat \<Rightarrow> u8 list) \<Rightarrow> bool" where
  "block_pages c f \<longleftrightarrow> length c = 65536 \<and> (\<forall>k < 16. page_at c k = f k)"

lemma block_pages_store:
  assumes "block_pages c f" "length buf = 4096" "j < 16"
  shows "block_pages (memcpy_at c (j * 4096) buf) (f(j := buf))"
proof -
  have "j * 4096 + 4096 \<le> length c" "\<And>k. k < 16 \<Longrightarrow> k * 4096 + 4096 \<le> length c"
    using assms(1,3) by (auto simp: block_pages_def)
  then show ?thesis
    using assms by (auto simp: block_pages_def page_at_memcpy)
qed

lemma wp_poke_pages:
  assumes "dio_good 65536 dev" "0 < pins (dio_abs dev) clu" "dio_poked dev clu v dev1" "block_pages v f" "base + m \<le> 16"
    and "\<And>i. i < m \<Longrightarrow> length (b i) = 4096"
    and "\<And>i dev. i < m \<Longrightarrow> g i dev = dio_clu_poke dev clu ((base + i) * 4096) (b i)"
    and "\<And>v' dev'. dio_poked dev clu v' dev' \<Longrightarrow>
      block_pages v' (\<lambda>k. if base \<le> k \<and> k < base + m then b (k - base) else f k) \<Longrightarrow> Q dev'"
  shows "wpo (fold_opt g [0..<m] dev1) Q"
proof -
  let ?P = "\<lambda>m dev'. \<exists>v'. dio_poked dev clu v' dev' \<and> block_pages v' (\<lambda>k. if base \<le> k \<and> k < base + m then b (k - base) else f k)"
  have "wpo (fold_opt g [0..<m] dev1) (?P m)"
  proof (rule wpo_fold_upt, goal_cases)
    case 2
    have "(\<lambda>k. if base \<le> k \<and> k < base + 0 then b (k - base) else f k) = f"
      by (auto simp: fun_eq_iff)
    then show ?case
      using assms(3,4) by metis
  next
    case (3 i dev2)
    then obtain v2 where v2: "dio_poked dev clu v2 dev2" "block_pages v2 (\<lambda>k. if base \<le> k \<and> k < base + i then b (k - base) else f k)"
      by blast
    have l: "length (b i) = 4096" "base + i < 16"
      using assms(5,6) 3(2) by simp_all
    have "(\<lambda>k. if base \<le> k \<and> k < base + i then b (k - base) else f k)(base + i := b i)
      = (\<lambda>k. if base \<le> k \<and> k < base + Suc i then b (k - base) else f k)"
      by (auto simp: fun_eq_iff)
    then have v3: "block_pages (memcpy_at v2 ((base + i) * 4096) (b i)) (\<lambda>k. if base \<le> k \<and> k < base + Suc i then b (k - base) else f k)"
      using block_pages_store [OF v2(2) l] by simp
    show ?case
      unfolding assms(7) [OF 3(2)]
    proof (rule wp_dio_clu_poke [OF assms(1,2) v2(1)])
      fix dev' assume "dio_poked dev clu (memcpy_at v2 ((base + i) * 4096) (b i)) dev'"
      then show "?P (Suc i) dev'"
        using v3 by blast
    qed (use l in auto)
  qed simp
  then show ?thesis
    by (rule wpo_mono) (use assms(8) in blast)
qed

lemma wp_map_pages:
  assumes "\<And>i. i < n \<Longrightarrow> f i = Some (g i)"
  shows "map_pages f n = Some (map g [0..<n])"
proof -
  have "wpo (fold_opt (\<lambda>i ps. do { p \<leftarrow> f i; Some (ps @ [p]) }) [0..<n] []) (\<lambda>ps. ps = map g [0..<n])"
    by (rule wpo_fold_upt) (use assms in auto)
  then show ?thesis
    by (auto simp: map_pages_def wpo_def)
qed

text \<open>The pages of a node's image, over what the block held.\<close>

definition image_page :: "nkfs_btree_node \<Rightarrow> (nat \<Rightarrow> u8 list) \<Rightarrow> nat \<Rightarrow> u8 list" where
  "image_page n f k =
     (if 9 \<le> k \<and> k < 13 then words_bytes (nkfs_btree_node_value_page_to_ondisk (n_values n ! (k - 9)))
      else if 5 \<le> k \<and> k < 9 then words_bytes (nkfs_btree_node_child_page_to_ondisk (the (n_children n ! (k - 5))))
      else if 1 \<le> k \<and> k < 8 then concat (n_keys n ! (k - 1))
      else if k = 0 then header_page_bytes (nkfs_btree_node_header_page_to_ondisk (n_header n))
      else f k)"

lemma length_concat_const: "(\<And>x. x \<in> set xs \<Longrightarrow> length x = k) \<Longrightarrow> length (concat xs) = k * length xs"
  by (induction xs) auto

lemma node_wf_pages:
  assumes "node_wf n"
  shows "i < 7 \<Longrightarrow> length (n_keys n ! i) = 256" "i < 7 \<Longrightarrow> k \<in> set (n_keys n ! i) \<Longrightarrow> length k = 16"
    "i < 7 \<Longrightarrow> length (concat (n_keys n ! i)) = 4096"
    "i < 4 \<Longrightarrow> length (n_values n ! i) = 512" "i < 4 \<Longrightarrow> \<exists>ws. n_children n ! i = Some ws \<and> length ws = 512"
proof -
  show k: "length (n_keys n ! i) = 256" "k \<in> set (n_keys n ! i) \<Longrightarrow> length k = 16" if "i < 7" for i k
    using assms nth_mem [of i "n_keys n"] that by (auto simp: node_wf_def)
  show "i < 7 \<Longrightarrow> length (concat (n_keys n ! i)) = 4096"
    using k length_concat_const [of "n_keys n ! i" 16] by simp
  show "i < 4 \<Longrightarrow> length (n_values n ! i) = 512" "i < 4 \<Longrightarrow> \<exists>ws. n_children n ! i = Some ws \<and> length ws = 512"
    using assms nth_mem [of i "n_values n"] nth_mem [of i "n_children n"] by (auto simp: node_wf_def)
qed

lemma wp_to_ondisk [wp]:
  assumes "dio_good 65536 dev" "0 < pins (dio_abs dev) clu" "node_wf n"
    and "\<And>v dev'. dio_poked dev clu v dev' \<Longrightarrow> block_pages v (image_page n (page_at (content (dio_abs dev) clu))) \<Longrightarrow> Q dev'"
  shows "wpo (nkfs_btree_node_to_ondisk n dev clu) Q"
proof -
  note w = node_wf_pages [OF assms(3)]
  have len: "length (content (dio_abs dev) clu) = 65536"
    using assms(1,2) length_content [of dev clu] by (simp add: dio_good_def)
  then have b0: "block_pages (content (dio_abs dev) clu) (page_at (content (dio_abs dev) clu))"
    by (simp add: block_pages_def)
  have hl: "length (header_page_bytes (nkfs_btree_node_header_page_to_ondisk (n_header n))) = 4096"
    using assms(3) by (simp add: length_header_page_bytes node_wf_def)
  show ?thesis
    unfolding nkfs_btree_node_to_ondisk_def wpo_bind disk_header_off_def
  proof (rule wp_dio_clu_poke [OF assms(1,2) dio_poked_refl [OF assms(1,2)]])
    fix dev1 assume 1: "dio_poked dev clu (memcpy_at (content (dio_abs dev) clu) 0
        (header_page_bytes (nkfs_btree_node_header_page_to_ondisk (n_header n)))) dev1"
    note b1 = block_pages_store [OF b0 hl, of 0, simplified]
    show "wpo (fold_opt (\<lambda>i dev. dio_clu_poke dev clu (disk_keys_off i) (concat (n_keys n ! i))) [0..<7] dev1)
      (\<lambda>dev. wpo (fold_opt (\<lambda>i dev. n_children n ! i \<bind> (\<lambda>page. dio_clu_poke dev clu (disk_children_off i)
          (words_bytes (nkfs_btree_node_child_page_to_ondisk page)))) [0..<4] dev)
        (\<lambda>dev. wpo (fold_opt (\<lambda>i dev. dio_clu_poke dev clu (disk_values_off i)
            (words_bytes (nkfs_btree_node_value_page_to_ondisk (n_values n ! i)))) [0..<4] dev) Q))"
    proof (rule wp_poke_pages [OF assms(1,2) 1 b1, where base = 1 and b = "\<lambda>i. concat (n_keys n ! i)"])
      fix v2 dev2
      assume 2: "dio_poked dev clu v2 dev2" "block_pages v2 (\<lambda>k. if 1 \<le> k \<and> k < 1 + 7 then concat (n_keys n ! (k - 1))
        else ((page_at (content (dio_abs dev) clu))(0 := header_page_bytes (nkfs_btree_node_header_page_to_ondisk (n_header n)))) k)"
      show "wpo (fold_opt (\<lambda>i dev. n_children n ! i \<bind> (\<lambda>page. dio_clu_poke dev clu (disk_children_off i)
            (words_bytes (nkfs_btree_node_child_page_to_ondisk page)))) [0..<4] dev2)
        (\<lambda>dev. wpo (fold_opt (\<lambda>i dev. dio_clu_poke dev clu (disk_values_off i)
            (words_bytes (nkfs_btree_node_value_page_to_ondisk (n_values n ! i)))) [0..<4] dev) Q)"
      proof (rule wp_poke_pages [OF assms(1,2) 2, where base = 5
            and b = "\<lambda>i. words_bytes (nkfs_btree_node_child_page_to_ondisk (the (n_children n ! i)))"])
        fix v3 dev3
        assume 3: "dio_poked dev clu v3 dev3" "block_pages v3 (\<lambda>k. if 5 \<le> k \<and> k < 5 + 4
          then words_bytes (nkfs_btree_node_child_page_to_ondisk (the (n_children n ! (k - 5))))
          else if 1 \<le> k \<and> k < 1 + 7 then concat (n_keys n ! (k - 1))
          else ((page_at (content (dio_abs dev) clu))(0 := header_page_bytes (nkfs_btree_node_header_page_to_ondisk (n_header n)))) k)"
        show "wpo (fold_opt (\<lambda>i dev. dio_clu_poke dev clu (disk_values_off i)
            (words_bytes (nkfs_btree_node_value_page_to_ondisk (n_values n ! i)))) [0..<4] dev3) Q"
        proof (rule wp_poke_pages [OF assms(1,2) 3, where base = 9
              and b = "\<lambda>i. words_bytes (nkfs_btree_node_value_page_to_ondisk (n_values n ! i))"])
          fix v4 dev4
          assume 4: "dio_poked dev clu v4 dev4" "block_pages v4 (\<lambda>k. if 9 \<le> k \<and> k < 9 + 4
            then words_bytes (nkfs_btree_node_value_page_to_ondisk (n_values n ! (k - 9)))
            else if 5 \<le> k \<and> k < 5 + 4 then words_bytes (nkfs_btree_node_child_page_to_ondisk (the (n_children n ! (k - 5))))
            else if 1 \<le> k \<and> k < 1 + 7 then concat (n_keys n ! (k - 1))
            else ((page_at (content (dio_abs dev) clu))(0 := header_page_bytes (nkfs_btree_node_header_page_to_ondisk (n_header n)))) k)"
          show "Q dev4"
          proof (rule assms(4) [OF 4(1)])
            show "block_pages v4 (image_page n (page_at (content (dio_abs dev) clu)))"
              using 4(2) by (auto simp: block_pages_def image_page_def)
          qed
        qed (use w(4) in \<open>auto simp: disk_values_off_def\<close>)
      qed (use w(5) in \<open>force simp: disk_children_off_def\<close>)+
    qed (use w(3) in \<open>auto simp: disk_keys_off_def\<close>)
  qed (use hl in auto)
qed

definition decode_pages :: "nkfs_btree_node \<Rightarrow> (nat \<Rightarrow> u8 list) \<Rightarrow> nkfs_btree_node" where
  "decode_pages n f = n\<lparr>
     n_header := nkfs_btree_node_header_page_by_ondisk (header_page_of_bytes (f 0)),
     n_keys := map (\<lambda>i. chunks 16 256 (f (1 + i))) [0..<7],
     n_children := map (\<lambda>i. Some (nkfs_btree_node_child_page_by_ondisk (words_of_bytes (f (5 + i))))) [0..<4],
     n_values := map (\<lambda>i. nkfs_btree_node_value_page_by_ondisk (words_of_bytes (f (9 + i)))) [0..<4]\<rparr>"

lemma peek_page:
  assumes "dio_good 65536 dev" "0 < pins (dio_abs dev) clu" "k < 16"
  shows "dio_clu_peek dev clu (k * 4096) 4096 = Some (page_at (content (dio_abs dev) clu) k)"
proof -
  have "wpo (dio_clu_peek dev clu (k * 4096) 4096) (\<lambda>p. p = page_at (content (dio_abs dev) clu) k)"
    by (rule wp_dio_clu_peek [OF assms(1,2)]) (use assms(3) in \<open>simp_all add: page_at_def\<close>)
  then show ?thesis
    by (auto simp: wpo_def)
qed

lemma by_ondisk_ok:
  assumes "dio_good 65536 dev" "0 < pins (dio_abs dev) clu"
  shows "nkfs_btree_node_by_ondisk n dev clu = Some (decode_pages n (page_at (content (dio_abs dev) clu)))"
proof -
  note p = peek_page [OF assms]
  let ?f = "page_at (content (dio_abs dev) clu)"
  have "map_pages (\<lambda>i. dio_clu_peek dev clu (disk_keys_off i) 4096) 7 = Some (map (\<lambda>i. ?f (1 + i)) [0..<7])"
    by (rule wp_map_pages) (simp add: disk_keys_off_def p [of "1 + _", simplified])
  moreover have "map_pages (\<lambda>i. dio_clu_peek dev clu (disk_children_off i) 4096) 4 = Some (map (\<lambda>i. ?f (5 + i)) [0..<4])"
    by (rule wp_map_pages) (simp add: disk_children_off_def p [of "5 + _", simplified])
  moreover have "map_pages (\<lambda>i. dio_clu_peek dev clu (disk_values_off i) 4096) 4 = Some (map (\<lambda>i. ?f (9 + i)) [0..<4])"
    by (rule wp_map_pages) (simp add: disk_values_off_def p [of "9 + _", simplified])
  ultimately show ?thesis
    using p [of 0] by (simp add: nkfs_btree_node_by_ondisk_def decode_pages_def disk_header_off_def comp_def del: upt_rec_numeral)
qed

text \<open>
  Since the disk layout has room for four key pages, what is read back as the
  key pages 4 to 6 are the child pages 0 to 2.
\<close>

definition child_page_image :: "nkfs_btree_node \<Rightarrow> nat \<Rightarrow> u8 list" where
  "child_page_image n i = words_bytes (nkfs_btree_node_child_page_to_ondisk (the (n_children n ! i)))"

definition node_disk_ok :: "nkfs_btree_node \<Rightarrow> bool" where
  "node_disk_ok n \<longleftrightarrow> (\<forall>i < 3. concat (n_keys n ! (4 + i)) = child_page_image n i)"

definition reread :: "nkfs_btree_node \<Rightarrow> nkfs_btree_node" where
  "reread n = n\<lparr>n_keys := map (\<lambda>i. if i < 4 then n_keys n ! i else chunks 16 256 (child_page_image n (i - 4))) [0..<7]\<rparr>"

lemma decode_image:
  assumes "node_wf n"
  shows "decode_pages m (image_page n f)
    = m\<lparr>n_header := n_header n, n_keys := n_keys (reread n), n_children := n_children n, n_values := n_values n\<rparr>"
proof -
  note w = node_wf_pages [OF assms]
  have h: "nkfs_btree_node_header_page_by_ondisk (header_page_of_bytes (image_page n f 0)) = n_header n"
    using assms by (simp add: image_page_def header_page_of_header_bytes node_wf_def)
  have k: "map (\<lambda>i. chunks 16 256 (image_page n f (1 + i))) [0..<7] = n_keys (reread n)"
  proof (rule nth_equalityI)
    fix i assume "i < length (map (\<lambda>i. chunks 16 256 (image_page n f (1 + i))) [0..<7])"
    then have i: "i < 7"
      by simp
    have "chunks 16 (length (n_keys n ! i)) (concat (n_keys n ! i)) = n_keys n ! i"
      by (rule chunks_concat) (use w(2) [OF i] in simp)
    then show "map (\<lambda>i. chunks 16 256 (image_page n f (1 + i))) [0..<7] ! i = n_keys (reread n) ! i"
      using i w(1) [OF i] by (auto simp: image_page_def reread_def child_page_image_def simp del: upt_rec_numeral)
  qed (simp add: reread_def)
  have c: "map (\<lambda>i. Some (nkfs_btree_node_child_page_by_ondisk (words_of_bytes (image_page n f (5 + i))))) [0..<4] = n_children n"
  proof (rule nth_equalityI)
    fix i assume "i < length (map (\<lambda>i. Some (nkfs_btree_node_child_page_by_ondisk (words_of_bytes (image_page n f (5 + i))))) [0..<4])"
    then have i: "i < 4"
      by simp
    then obtain ws where "n_children n ! i = Some ws" "length ws = 512"
      using w(5) by blast
    then show "map (\<lambda>i. Some (nkfs_btree_node_child_page_by_ondisk (words_of_bytes (image_page n f (5 + i))))) [0..<4] ! i = n_children n ! i"
      using i by (simp add: image_page_def words_of_words_bytes del: upt_rec_numeral)
  qed (use assms in \<open>simp add: node_wf_def\<close>)
  have v: "map (\<lambda>i. nkfs_btree_node_value_page_by_ondisk (words_of_bytes (image_page n f (9 + i)))) [0..<4] = n_values n"
  proof (rule nth_equalityI)
    fix i assume "i < length (map (\<lambda>i. nkfs_btree_node_value_page_by_ondisk (words_of_bytes (image_page n f (9 + i)))) [0..<4])"
    then have i: "i < 4"
      by simp
    then show "map (\<lambda>i. nkfs_btree_node_value_page_by_ondisk (words_of_bytes (image_page n f (9 + i)))) [0..<4] ! i = n_values n ! i"
      using w(4) by (simp add: image_page_def words_of_words_bytes del: upt_rec_numeral)
  qed (use assms in \<open>simp add: node_wf_def\<close>)
  show ?thesis
    unfolding decode_pages_def h k c v ..
qed

lemma reread_id_iff:
  assumes "node_wf n"
  shows "n_keys (reread n) = n_keys n \<longleftrightarrow> node_disk_ok n"
proof -
  note w = node_wf_pages [OF assms]
  have l: "length (child_page_image n i) = 4096" if "i < 3" for i
    using w(5) [of i] that by (auto simp: child_page_image_def)
  have c: "chunks 16 256 (concat (n_keys n ! i)) = n_keys n ! i" if "i < 7" for i
    using chunks_concat [of "n_keys n ! i" 16] w(1,2) [OF that] by simp
  have r: "n_keys (reread n) ! i = (if i < 4 then n_keys n ! i else chunks 16 256 (child_page_image n (i - 4)))" if "i < 7" for i
    using that by (simp add: reread_def del: upt_rec_numeral)
  show ?thesis
  proof
    assume e: "n_keys (reread n) = n_keys n"
    show "node_disk_ok n"
      unfolding node_disk_ok_def
    proof (intro allI impI)
      fix i :: nat assume i: "i < 3"
      have "chunks 16 256 (child_page_image n i) = n_keys n ! (4 + i)"
        using r [of "4 + i"] e i by simp
      then show "concat (n_keys n ! (4 + i)) = child_page_image n i"
        using concat_chunks_all [of "child_page_image n i" 256 16] l [OF i] by simp
    qed
  next
    assume d: "node_disk_ok n"
    show "n_keys (reread n) = n_keys n"
    proof (rule nth_equalityI)
      show "length (n_keys (reread n)) = length (n_keys n)"
        using assms by (simp add: reread_def node_wf_def)
      fix i assume "i < length (n_keys (reread n))"
      then have i: "i < 7"
        by (simp add: reread_def)
      have "concat (n_keys n ! i) = child_page_image n (i - 4)" if "\<not> i < 4"
        using d [unfolded node_disk_ok_def, rule_format, of "i - 4"] that i by simp
      then show "n_keys (reread n) ! i = n_keys n ! i"
        using r [OF i] c [OF i] by (cases "i < 4") auto
    qed
  qed
qed

section \<open>The checksum\<close>

definition node_data :: "nkfs_btree_node \<Rightarrow> u8 list" where
  "node_data n = take 4084 (header_page_bytes (n_header n)) @ concat (map concat (n_keys n))
     @ concat (map (\<lambda>p. words_bytes (the p)) (n_children n)) @ concat (map words_bytes (n_values n))"

lemma csum_pieces_XXH64: "length (concat cs) < 2 ^ 64 \<Longrightarrow> csum_pieces cs = XXH64 (concat cs) 0"
  unfolding csum_pieces_def by (rule csum_stream_XXH64) simp_all

lemma length_node_data:
  assumes "node_wf n"
  shows "length (node_data n) = 65524"
proof -
  note w = assms [unfolded node_wf_def]
  have "length (concat (map concat (n_keys n))) = 4096 * length (map concat (n_keys n))"
  proof (rule length_concat_const)
    fix x assume "x \<in> set (map concat (n_keys n))"
    then obtain p where "p \<in> set (n_keys n)" "x = concat p"
      by auto
    then show "length x = 4096"
      using w length_concat_const [of p 16] by simp
  qed
  moreover have "length (concat (map (\<lambda>p. words_bytes (the p)) (n_children n))) = 4096 * length (map (\<lambda>p. words_bytes (the p)) (n_children n))"
    by (rule length_concat_const) (use w in auto)
  moreover have "length (concat (map words_bytes (n_values n))) = 4096 * length (map words_bytes (n_values n))"
    by (rule length_concat_const) (use w in auto)
  ultimately show ?thesis
    using w length_header_page_bytes [of "n_header n"] by (simp add: node_data_def)
qed

lemma calc_sum_ok:
  assumes "node_wf n"
  shows "nkfs_btree_node_calc_sum n = Some (XXH64 (node_data n) 0)"
proof -
  have "None \<notin> set (n_children n)"
    using assms by (auto simp: node_wf_def)
  moreover have "length (node_data n) < 2 ^ 64"
    using length_node_data [OF assms] by simp
  ultimately show ?thesis
    using csum_pieces_XXH64 by (simp add: nkfs_btree_node_calc_sum_def node_data_def)
qed

lemma calc_sum_null:
  assumes "None \<in> set (n_children n)"
  shows "nkfs_btree_node_calc_sum n = None"
  using assms by (simp add: nkfs_btree_node_calc_sum_def)

end
