(* ===== verification/Btree.thy ===== *)
theory Btree
  imports Btree_Disk
begin

text \<open>
  The B-tree of \<open>src/core/btree.c\<close>: nodes in memory with reference counts and the
  cache of nodes by block, reading and writing nodes through the cluster cache,
  allocation of their blocks, and the operations on the tree.

  A node is an address of \<open>bt_heap\<close>; a freed address holds None, and using it
  stops the machine.  The superblock is a field of the tree, as in the source.
  The loops \<open>while (1)\<close> and \<open>restart\<close> are partial functions: None is a
  stop of the machine or a loop that does not end.
\<close>

section \<open>State\<close>

record nkfs_btree =
  bt_root :: "nat option"
  bt_sb :: nkfs_sb
  bt_nodes :: "(u64, nat) RBT.rbt"
  bt_ref :: int
  bt_releasing :: bool
  bt_nodes_active :: u32
  bt_sig1 :: u32
  bt_heap :: "nat \<Rightarrow> nkfs_btree_node option"
  bt_next :: nat

definition on_sb :: "(nkfs_sb \<Rightarrow> ('r \<times> nkfs_sb) option) \<Rightarrow> nkfs_btree \<Rightarrow> ('r \<times> nkfs_btree) option" where
  "on_sb f tree = do {
     (r, sb) \<leftarrow> f (bt_sb tree);
     Some (r, tree\<lparr>bt_sb := sb\<rparr>)
   }"

definition on_tdev :: "(dio_dev \<Rightarrow> ('r \<times> dio_dev) option) \<Rightarrow> nkfs_btree \<Rightarrow> ('r \<times> nkfs_btree) option" where
  "on_tdev f tree = on_sb (on_dev f) tree"

definition bt_clu_put :: "u64 \<Rightarrow> nkfs_btree \<Rightarrow> nkfs_btree option" where
  "bt_clu_put i tree = do {
     sb \<leftarrow> sb_clu_put i (bt_sb tree);
     Some (tree\<lparr>bt_sb := sb\<rparr>)
   }"

definition set_node :: "nat \<Rightarrow> nkfs_btree_node \<Rightarrow> nkfs_btree \<Rightarrow> nkfs_btree" where
  "set_node p n tree = tree\<lparr>bt_heap := (bt_heap tree)(p \<mapsto> n)\<rparr>"

definition mod_node :: "nat \<Rightarrow> (nkfs_btree_node \<Rightarrow> nkfs_btree_node option) \<Rightarrow> nkfs_btree \<Rightarrow> nkfs_btree option" where
  "mod_node p f tree = do {
     n \<leftarrow> bt_heap tree p;
     n \<leftarrow> f n;
     Some (set_node p n tree)
   }"

section \<open>Nodes and their cache\<close>

definition nkfs_btree_node_free :: "nat \<Rightarrow> nkfs_btree \<Rightarrow> nkfs_btree option" where
  "nkfs_btree_node_free p tree = do {
     _ \<leftarrow> bt_heap tree p;
     Some (tree\<lparr>bt_heap := (bt_heap tree)(p := None)\<rparr>)
   }"

text \<open>The allocations of a node: the structure, the header page and fifteen more pages, until one fails.\<close>

primrec alloc_all :: "nat \<Rightarrow> dio_dev \<Rightarrow> bool \<times> dio_dev" where
  "alloc_all 0 dev = (True, dev)"
| "alloc_all (Suc k) dev = (let (ok, dev) = next_mem dev in if ok then alloc_all k dev else (False, dev))"

definition nkfs_btree_node_alloc :: "nkfs_btree \<Rightarrow> nat option \<times> nkfs_btree" where
  "nkfs_btree_node_alloc tree =
     (let (ok, dev) = alloc_all (2 + NKFS_BTREE_KEY_PAGES + NKFS_BTREE_CHILD_PAGES + NKFS_BTREE_VALUE_PAGES) (ddev (bt_sb tree));
          tree = tree\<lparr>bt_sb := (bt_sb tree)\<lparr>ddev := dev\<rparr>\<rparr> in
      if \<not> ok then (None, tree)
      else (Some (bt_next tree), (set_node (bt_next tree) new_btree_node tree)\<lparr>bt_next := Suc (bt_next tree)\<rparr>))"

definition nkfs_btree_nodes_remove :: "nat \<Rightarrow> nkfs_btree \<Rightarrow> nkfs_btree option" where
  "nkfs_btree_nodes_remove p tree = do {
     n \<leftarrow> bt_heap tree p;
     if n_block n = 0 then Some tree
     else do {
       assert_that (n_tree n);
       case RBT.lookup (bt_nodes tree) (n_block n) of
         None \<Rightarrow> Some tree
       | Some found \<Rightarrow> do {
           assert_that (found = p);
           Some (tree\<lparr>bt_nodes := RBT.delete (n_block n) (bt_nodes tree), bt_nodes_active := bt_nodes_active tree - 1\<rparr>)
         }
     }
   }"

definition nkfs_btree_node_release :: "nat \<Rightarrow> nkfs_btree \<Rightarrow> nkfs_btree option" where
  "nkfs_btree_node_release p tree = do {
     tree \<leftarrow> nkfs_btree_nodes_remove p tree;
     nkfs_btree_node_free p tree
   }"

definition nkfs_btree_node_ref :: "nat \<Rightarrow> nkfs_btree \<Rightarrow> nkfs_btree option" where
  "nkfs_btree_node_ref p tree = mod_node p (\<lambda>n. do {
     assert_that (\<not> n_ref n \<le> 0);
     Some (n\<lparr>n_ref := n_ref n + 1\<rparr>)
   }) tree"

definition nkfs_btree_node_deref :: "nat \<Rightarrow> nkfs_btree \<Rightarrow> nkfs_btree option" where
  "nkfs_btree_node_deref p tree = do {
     n \<leftarrow> bt_heap tree p;
     assert_that (\<not> n_ref n \<le> 0);
     let tree = set_node p (n\<lparr>n_ref := n_ref n - 1\<rparr>) tree;
     if n_ref n - 1 = 0 then nkfs_btree_node_release p tree else Some tree
   }"

definition nkfs_btree_nodes_lookup :: "u64 \<Rightarrow> nkfs_btree \<Rightarrow> (nat option \<times> nkfs_btree) option" where
  "nkfs_btree_nodes_lookup block tree =
     (case RBT.lookup (bt_nodes tree) block of
        None \<Rightarrow> Some (None, tree)
      | Some p \<Rightarrow> do {
          tree \<leftarrow> nkfs_btree_node_ref p tree;
          Some (Some p, tree)
        })"

definition nkfs_btree_nodes_insert :: "nat \<Rightarrow> nkfs_btree \<Rightarrow> (nat \<times> nkfs_btree) option" where
  "nkfs_btree_nodes_insert p tree = do {
     n \<leftarrow> bt_heap tree p;
     let (inserted, tree) = (case RBT.lookup (bt_nodes tree) (n_block n) of
         Some found \<Rightarrow> (found, tree)
       | None \<Rightarrow> (p, tree\<lparr>bt_nodes := RBT.insert (n_block n) p (bt_nodes tree), bt_nodes_active := bt_nodes_active tree + 1\<rparr>));
     tree \<leftarrow> nkfs_btree_node_ref inserted tree;
     Some (inserted, tree)
   }"

text \<open>The fields of a node taken from its header page, and the header page brought up to date from the fields.\<close>

definition node_parsed :: "nkfs_btree_node \<Rightarrow> nkfs_btree_node" where
  "node_parsed n = n\<lparr>n_sig1 := h_sig1 (n_header n), n_sig2 := h_sig2 (n_header n),
     n_leaf := h_leaf (n_header n), n_nr_keys := h_nr_keys (n_header n)\<rparr>"

definition node_head :: "nkfs_btree_node \<Rightarrow> nkfs_btree_node" where
  "node_head n = n\<lparr>n_header := (n_header n)\<lparr>h_sig1 := n_sig1 n, h_sig2 := n_sig2 n, h_leaf := n_leaf n, h_nr_keys := n_nr_keys n\<rparr>\<rparr>"

text \<open>The second half of reading a node, with its cluster at hand.\<close>

definition node_read_clu :: "nat \<Rightarrow> u64 \<Rightarrow> nkfs_btree \<Rightarrow> (nat option \<times> nkfs_btree) option" where
  "node_read_clu p block tree = do {
     n \<leftarrow> bt_heap tree p;
     n \<leftarrow> nkfs_btree_node_by_ondisk n (ddev (bt_sb tree)) block;
     let n = node_parsed n;
     let tree = set_node p n tree;
     good \<leftarrow> (if n_sig1 n \<noteq> NKFS_BTREE_SIG1 \<or> n_sig2 n \<noteq> NKFS_BTREE_SIG2 then Some False
       else do {
         sum \<leftarrow> nkfs_btree_node_calc_sum n;
         Some (sum = h_sum (n_header n))
       });
     tree \<leftarrow> bt_clu_put block tree;
     if \<not> good then do {
       tree \<leftarrow> nkfs_btree_node_free p tree;
       Some (None, tree)
     } else do {
       (inserted, tree) \<leftarrow> nkfs_btree_nodes_insert p tree;
       if inserted \<noteq> p then do {
         tree \<leftarrow> nkfs_btree_node_free p tree;
         Some (Some inserted, tree)
       } else do {
         tree \<leftarrow> nkfs_btree_node_deref p tree;
         Some (Some p, tree)
       }
     }
   }"

definition nkfs_btree_node_read :: "nkfs_btree \<Rightarrow> u64 \<Rightarrow> (nat option \<times> nkfs_btree) option" where
  "nkfs_btree_node_read tree block = do {
     assert_that (\<not> node_disk_size > unat (bsize (bt_sb tree)));
     assert_that (\<not> (block = 0 \<or> block \<ge> nr_blocks (bt_sb tree)));
     (r, tree) \<leftarrow> nkfs_btree_nodes_lookup block tree;
     case r of
       Some p \<Rightarrow> Some (Some p, tree)
     | None \<Rightarrow>
         (case nkfs_btree_node_alloc tree of
            (None, tree) \<Rightarrow> Some (None, tree)
          | (Some p, tree) \<Rightarrow> do {
              tree \<leftarrow> mod_node p (\<lambda>n. Some (n\<lparr>n_tree := True, n_block := block\<rparr>)) tree;
              (ok, tree) \<leftarrow> on_tdev (\<lambda>dev. dio_clu_get dev block) tree;
              if \<not> ok then do {
                tree \<leftarrow> nkfs_btree_node_free p tree;
                Some (None, tree)
              } else node_read_clu p block tree
            })
   }"

definition nkfs_btree_node_write :: "nat \<Rightarrow> nkfs_btree \<Rightarrow> (int \<times> nkfs_btree) option" where
  "nkfs_btree_node_write p tree = do {
     n \<leftarrow> bt_heap tree p;
     assert_that (\<not> (n_sig1 n \<noteq> NKFS_BTREE_SIG1 \<or> n_sig2 n \<noteq> NKFS_BTREE_SIG2));
     assert_that (n_tree n);
     assert_that (\<not> node_disk_size > unat (bsize (bt_sb tree)));
     assert_that (\<not> (n_block n = 0 \<or> n_block n \<ge> nr_blocks (bt_sb tree)));
     (ok, tree) \<leftarrow> on_tdev (\<lambda>dev. dio_clu_get dev (n_block n)) tree;
     if \<not> ok then Some (- EIO, tree)
     else do {
       let n = node_head n;
       sum \<leftarrow> nkfs_btree_node_calc_sum n;
       let n = n\<lparr>n_header := (n_header n)\<lparr>h_sum := sum\<rparr>\<rparr>;
       let tree = set_node p n tree;
       (_, tree) \<leftarrow> on_tdev (\<lambda>dev. do {
           dev \<leftarrow> nkfs_btree_node_to_ondisk n dev (n_block n);
           Some ((), dev)
         }) tree;
       (_, tree) \<leftarrow> on_tdev (\<lambda>dev. dio_clu_set_dirty dev (n_block n)) tree;
       (err, tree) \<leftarrow> on_tdev (\<lambda>dev. dio_clu_sync_index dev (n_block n)) tree;
       tree \<leftarrow> bt_clu_put (n_block n) tree;
       Some (err, tree)
     }
   }"

definition nkfs_btree_node_delete :: "nat \<Rightarrow> nkfs_btree \<Rightarrow> nkfs_btree option" where
  "nkfs_btree_node_delete p tree = do {
     tree \<leftarrow> nkfs_btree_nodes_remove p tree;
     n \<leftarrow> bt_heap tree p;
     assert_that (n_tree n);
     (_, tree) \<leftarrow> on_sb (\<lambda>sb. nkfs_balloc_block_free sb (n_block n)) tree;
     Some (set_node p (n\<lparr>n_block := 0\<rparr>) tree)
   }"

definition nkfs_btree_node_create :: "nkfs_btree \<Rightarrow> (nat option \<times> nkfs_btree) option" where
  "nkfs_btree_node_create tree =
     (case nkfs_btree_node_alloc tree of
        (None, tree) \<Rightarrow> Some (None, tree)
      | (Some p, tree) \<Rightarrow> do {
          ((err, block), tree) \<leftarrow> on_sb nkfs_balloc_block_alloc tree;
          if err \<noteq> 0 then do {
            tree \<leftarrow> nkfs_btree_node_free p tree;
            Some (None, tree)
          } else do {
            tree \<leftarrow> mod_node p (\<lambda>n. Some (n\<lparr>n_block := block, n_tree := True\<rparr>)) tree;
            (err, tree) \<leftarrow> nkfs_btree_node_write p tree;
            if err \<noteq> 0 then do {
              tree \<leftarrow> nkfs_btree_node_delete p tree;
              tree \<leftarrow> nkfs_btree_node_free p tree;
              Some (None, tree)
            } else do {
              (inserted, tree) \<leftarrow> nkfs_btree_nodes_insert p tree;
              if inserted \<noteq> p then do {
                tree \<leftarrow> nkfs_btree_node_delete p tree;
                tree \<leftarrow> nkfs_btree_node_free p tree;
                Some (Some inserted, tree)
              } else do {
                tree \<leftarrow> nkfs_btree_node_deref p tree;
                Some (Some p, tree)
              }
            }
          }
        })"

section \<open>Creating and releasing a tree\<close>

definition nkfs_btree_ref :: "nkfs_btree \<Rightarrow> nkfs_btree" where
  "nkfs_btree_ref tree = tree\<lparr>bt_ref := bt_ref tree + 1\<rparr>"

definition nkfs_btree_stop :: "nkfs_btree \<Rightarrow> nkfs_btree" where
  "nkfs_btree_stop tree = tree\<lparr>bt_releasing := True\<rparr>"

text \<open>The released tree is gone; what remains is its superblock.\<close>

definition nkfs_btree_release :: "nkfs_btree \<Rightarrow> nkfs_sb option" where
  "nkfs_btree_release tree = do {
     let tree = nkfs_btree_stop tree;
     tree \<leftarrow> (case bt_root tree of None \<Rightarrow> Some tree | Some p \<Rightarrow> nkfs_btree_node_deref p tree);
     assert_that (bt_nodes_active tree = 0);
     Some (bt_sb tree)
   }"

definition nkfs_btree_deref :: "nkfs_btree \<Rightarrow> (nkfs_btree option \<times> nkfs_sb) option" where
  "nkfs_btree_deref tree = do {
     assert_that (\<not> bt_ref tree \<le> 0);
     let tree = tree\<lparr>bt_ref := bt_ref tree - 1\<rparr>;
     if bt_ref tree = 0 then do {
       sb \<leftarrow> nkfs_btree_release tree;
       Some (None, sb)
     } else Some (Some tree, bt_sb tree)
   }"

definition nkfs_btree_root_block :: "nkfs_btree \<Rightarrow> u64 option" where
  "nkfs_btree_root_block tree = do {
     p \<leftarrow> bt_root tree;
     n \<leftarrow> bt_heap tree p;
     Some (n_block n)
   }"

definition nkfs_btree_create :: "nkfs_sb \<Rightarrow> u64 \<Rightarrow> (nkfs_btree option \<times> nkfs_sb) option" where
  "nkfs_btree_create sb root_block =
     (let (ok, dev) = next_mem (ddev sb);
          sb = sb\<lparr>ddev := dev\<rparr> in
      if \<not> ok then Some (None, sb)
      else do {
        let tree = \<lparr>bt_root = None, bt_sb = sb, bt_nodes = RBT.empty, bt_ref = 1, bt_releasing = False, bt_nodes_active = 0,
          bt_sig1 = NKFS_BTREE_SIG1, bt_heap = (\<lambda>_. None), bt_next = 0\<rparr>;
        (r, tree) \<leftarrow> (if root_block \<noteq> 0 then nkfs_btree_node_read tree root_block else nkfs_btree_node_create tree);
        let tree = tree\<lparr>bt_root := r\<rparr>;
        case r of
          None \<Rightarrow> nkfs_btree_deref tree
        | Some p \<Rightarrow>
            if root_block = 0 then do {
              tree \<leftarrow> mod_node p (\<lambda>n. Some (n\<lparr>n_leaf := 1\<rparr>)) tree;
              (err, tree) \<leftarrow> nkfs_btree_node_write p tree;
              if err \<noteq> 0 then nkfs_btree_deref tree else Some (Some tree, bt_sb tree)
            } else Some (Some tree, bt_sb tree)
      })"

section \<open>Insertion\<close>

text \<open>
  The three nodes of a split are read from and written back to their addresses;
  a tree in which two of them are the same node is outside the model.
\<close>

definition split_child_at :: "nat \<Rightarrow> nat \<Rightarrow> int \<Rightarrow> nat \<Rightarrow> nkfs_btree \<Rightarrow> nkfs_btree option" where
  "split_child_at node child i new tree = do {
     assert_that (node \<noteq> child \<and> node \<noteq> new \<and> child \<noteq> new);
     n \<leftarrow> bt_heap tree node;
     c \<leftarrow> bt_heap tree child;
     w \<leftarrow> bt_heap tree new;
     (n, c, w) \<leftarrow> nkfs_btree_node_split_child n c i w;
     Some (set_node new w (set_node child c (set_node node n tree)))
   }"

definition deref_unless :: "nat \<Rightarrow> nat \<Rightarrow> nkfs_btree \<Rightarrow> nkfs_btree option" where
  "deref_unless first node tree = (if node \<noteq> first then nkfs_btree_node_deref node tree else Some tree)"

partial_function (option) nkfs_btree_node_insert_loop ::
  "nat \<Rightarrow> nkfs_btree_key \<Rightarrow> u64 \<Rightarrow> bool \<Rightarrow> nat \<Rightarrow> nkfs_btree \<Rightarrow> (int \<times> nkfs_btree) option" where
  "nkfs_btree_node_insert_loop first key value replace node tree = do {
     n \<leftarrow> bt_heap tree node;
     i \<leftarrow> nkfs_btree_node_has_key n key;
     if i \<ge> 0 then
       if replace then do {
         n \<leftarrow> set_value n i value;
         (_, tree) \<leftarrow> nkfs_btree_node_write node (set_node node n tree);
         tree \<leftarrow> deref_unless first node tree;
         Some (0, tree)
       } else do {
         tree \<leftarrow> deref_unless first node tree;
         Some (- EEXIST, tree)
       }
     else if n_leaf n \<noteq> 0 then do {
       i \<leftarrow> nkfs_btree_node_find_key_index n key;
       n \<leftarrow> nkfs_btree_node_put_key_value n i key value;
       (_, tree) \<leftarrow> nkfs_btree_node_write node (set_node node (n\<lparr>n_nr_keys := n_nr_keys n + 1\<rparr>) tree);
       tree \<leftarrow> deref_unless first node tree;
       Some (0, tree)
     } else do {
       i \<leftarrow> nkfs_btree_node_find_key_index n key;
       block \<leftarrow> nkfs_btree_node_get_child_val n i;
       (r, tree) \<leftarrow> nkfs_btree_node_read tree block;
       case r of
         None \<Rightarrow> do {
           tree \<leftarrow> deref_unless first node tree;
           Some (- EIO, tree)
         }
       | Some child \<Rightarrow> do {
           c \<leftarrow> bt_heap tree child;
           if nkfs_btree_node_is_full c then do {
             (r, tree) \<leftarrow> nkfs_btree_node_create tree;
             case r of
               None \<Rightarrow> do {
                 tree \<leftarrow> deref_unless first node tree;
                 tree \<leftarrow> nkfs_btree_node_deref child tree;
                 Some (- EIO, tree)
               }
             | Some new \<Rightarrow> do {
                 tree \<leftarrow> split_child_at node child i new tree;
                 (_, tree) \<leftarrow> nkfs_btree_node_write node tree;
                 (_, tree) \<leftarrow> nkfs_btree_node_write child tree;
                 (_, tree) \<leftarrow> nkfs_btree_node_write new tree;
                 tree \<leftarrow> nkfs_btree_node_deref new tree;
                 tree \<leftarrow> nkfs_btree_node_deref child tree;
                 nkfs_btree_node_insert_loop first key value replace node tree
               }
           } else do {
             tree \<leftarrow> deref_unless first node tree;
             nkfs_btree_node_insert_loop first key value replace child tree
           }
         }
     }
   }"

declare nkfs_btree_node_insert_loop.simps [code]

definition nkfs_btree_node_insert_nonfull ::
  "nat \<Rightarrow> nkfs_btree_key \<Rightarrow> u64 \<Rightarrow> bool \<Rightarrow> nkfs_btree \<Rightarrow> (int \<times> nkfs_btree) option" where
  "nkfs_btree_node_insert_nonfull first key value replace tree =
     nkfs_btree_node_insert_loop first key value replace first tree"

definition node_copy_at :: "nat \<Rightarrow> nat \<Rightarrow> nkfs_btree \<Rightarrow> nkfs_btree option" where
  "node_copy_at dst src tree = do {
     s \<leftarrow> bt_heap tree src;
     mod_node dst (\<lambda>d. nkfs_btree_node_copy d s) tree
   }"

definition btree_split_root :: "nat \<Rightarrow> nkfs_btree \<Rightarrow> (int \<times> nkfs_btree) option" where
  "btree_split_root rt tree = do {
     (r, tree) \<leftarrow> nkfs_btree_node_create tree;
     case r of
       None \<Rightarrow> Some (- ENOMEM, tree)
     | Some clone \<Rightarrow>
         (case nkfs_btree_node_alloc tree of
            (None, tree) \<Rightarrow> do {
              tree \<leftarrow> nkfs_btree_node_delete clone tree;
              tree \<leftarrow> nkfs_btree_node_deref clone tree;
              Some (- ENOMEM, tree)
            }
          | (Some new, tree) \<Rightarrow> do {
              (r, tree) \<leftarrow> nkfs_btree_node_create tree;
              case r of
                None \<Rightarrow> do {
                  tree \<leftarrow> nkfs_btree_node_delete clone tree;
                  tree \<leftarrow> nkfs_btree_node_deref clone tree;
                  tree \<leftarrow> nkfs_btree_node_free new tree;
                  Some (- ENOMEM, tree)
                }
              | Some new2 \<Rightarrow> do {
                  tree \<leftarrow> node_copy_at clone rt tree;
                  c \<leftarrow> bt_heap tree clone;
                  tree \<leftarrow> mod_node new (\<lambda>n. nkfs_btree_node_set_child_val (n\<lparr>n_leaf := 0, n_nr_keys := 0\<rparr>) 0 (n_block c)) tree;
                  tree \<leftarrow> split_child_at new clone 0 new2 tree;
                  tree \<leftarrow> node_copy_at rt new tree;
                  (_, tree) \<leftarrow> nkfs_btree_node_write clone tree;
                  (_, tree) \<leftarrow> nkfs_btree_node_write new2 tree;
                  (_, tree) \<leftarrow> nkfs_btree_node_write rt tree;
                  tree \<leftarrow> nkfs_btree_node_deref clone tree;
                  tree \<leftarrow> nkfs_btree_node_deref new2 tree;
                  tree \<leftarrow> nkfs_btree_node_free new tree;
                  Some (0, tree)
                }
            })
   }"

definition nkfs_btree_insert_key :: "nkfs_btree \<Rightarrow> nkfs_btree_key \<Rightarrow> u64 \<Rightarrow> bool \<Rightarrow> (int \<times> nkfs_btree) option" where
  "nkfs_btree_insert_key tree key value replace =
     (if bt_releasing tree then Some (- EAGAIN, tree)
      else do {
        rt \<leftarrow> bt_root tree;
        n \<leftarrow> bt_heap tree rt;
        (rc, tree) \<leftarrow> (if nkfs_btree_node_is_full n then btree_split_root rt tree else Some (0, tree));
        if rc \<noteq> 0 then Some (rc, tree)
        else nkfs_btree_node_insert_nonfull rt key value replace tree
      })"

section \<open>Lookup\<close>

partial_function (option) nkfs_btree_find_loop ::
  "nat \<Rightarrow> nkfs_btree_key \<Rightarrow> nat \<Rightarrow> nkfs_btree \<Rightarrow> ((nat \<times> int) option \<times> nkfs_btree) option" where
  "nkfs_btree_find_loop first key node tree = do {
     n \<leftarrow> bt_heap tree node;
     if n_nr_keys n = 0 then do {
       tree \<leftarrow> deref_unless first node tree;
       Some (None, tree)
     } else do {
       i \<leftarrow> nkfs_btree_node_find_key_index n key;
       same \<leftarrow> (if i < uint (n_nr_keys n) then do {
           k \<leftarrow> get_key n i;
           Some (nkfs_btree_cmp_key key k = 0)
         } else Some False);
       if same then do {
         tree \<leftarrow> (if node = first then nkfs_btree_node_ref node tree else Some tree);
         Some (Some (node, i), tree)
       } else if n_leaf n \<noteq> 0 then do {
         tree \<leftarrow> deref_unless first node tree;
         Some (None, tree)
       } else do {
         block \<leftarrow> nkfs_btree_node_get_child_val n i;
         (r, tree) \<leftarrow> nkfs_btree_node_read tree block;
         next \<leftarrow> r;
         tree \<leftarrow> deref_unless first node tree;
         nkfs_btree_find_loop first key next tree
       }
     }
   }"

declare nkfs_btree_find_loop.simps [code]

definition nkfs_btree_node_find_key ::
  "nat \<Rightarrow> nkfs_btree_key \<Rightarrow> nkfs_btree \<Rightarrow> ((nat \<times> int) option \<times> nkfs_btree) option" where
  "nkfs_btree_node_find_key first key tree = nkfs_btree_find_loop first key first tree"

text \<open>Inl is the error, Inr the value found.\<close>

definition nkfs_btree_find_key :: "nkfs_btree \<Rightarrow> nkfs_btree_key \<Rightarrow> ((int + u64) \<times> nkfs_btree) option" where
  "nkfs_btree_find_key tree key =
     (if bt_releasing tree then Some (Inl (- EAGAIN), tree)
      else do {
        rt \<leftarrow> bt_root tree;
        (r, tree) \<leftarrow> nkfs_btree_node_find_key rt key tree;
        case r of
          None \<Rightarrow> Some (Inl (- ENOENT), tree)
        | Some (found, index) \<Rightarrow> do {
            n \<leftarrow> bt_heap tree found;
            v \<leftarrow> get_value n index;
            tree \<leftarrow> nkfs_btree_node_deref found tree;
            Some (Inr v, tree)
          }
      })"

section \<open>Deletion\<close>

definition nkfs_btree_node_child_give_key :: "nat \<Rightarrow> nat \<Rightarrow> nat \<Rightarrow> nat \<Rightarrow> bool \<Rightarrow> nkfs_btree \<Rightarrow> nkfs_btree option" where
  "nkfs_btree_node_child_give_key node child child_index sib left tree = do {
     assert_that (node \<noteq> child \<and> node \<noteq> sib \<and> child \<noteq> sib);
     n \<leftarrow> bt_heap tree node;
     c \<leftarrow> bt_heap tree child;
     s \<leftarrow> bt_heap tree sib;
     (n, c, s) \<leftarrow> (if \<not> left then do {
         c \<leftarrow> nkfs_btree_node_copy_kv c (sint (n_nr_keys c)) n (int child_index);
         n \<leftarrow> nkfs_btree_node_copy_kv n (int child_index) s 0;
         c \<leftarrow> nkfs_btree_node_copy_child c (sint (n_nr_keys c + 1)) s 0;
         s \<leftarrow> nkfs_btree_node_delete_key_index s 0;
         s \<leftarrow> nkfs_btree_node_delete_child_index s 0;
         Some (n, c, s)
       } else do {
         c \<leftarrow> nkfs_btree_node_put_kv c 0 n (int child_index - 1);
         n \<leftarrow> nkfs_btree_node_copy_kv n (int child_index - 1) s (sint (n_nr_keys s - 1));
         c \<leftarrow> nkfs_btree_node_put_child c 0 s (sint (n_nr_keys s));
         s \<leftarrow> nkfs_btree_node_delete_key_index s (unat (n_nr_keys s - 1));
         s \<leftarrow> nkfs_btree_node_delete_child_index s (unat (n_nr_keys s));
         Some (n, c, s)
       });
     let c = c\<lparr>n_nr_keys := n_nr_keys c + 1\<rparr>;
     let s = s\<lparr>n_nr_keys := n_nr_keys s - 1\<rparr>;
     let tree = set_node node n (set_node child c (set_node sib s tree));
     (_, tree) \<leftarrow> nkfs_btree_node_write sib tree;
     (_, tree) \<leftarrow> nkfs_btree_node_write child tree;
     (_, tree) \<leftarrow> nkfs_btree_node_write node tree;
     Some tree
   }"

text \<open>The merge of two children around the key at \<open>ki\<close>; the parent loses the key and the child \<open>ci\<close>.\<close>

definition merge_children :: "nat \<Rightarrow> nat \<Rightarrow> nat \<Rightarrow> nat \<Rightarrow> nat \<Rightarrow> nkfs_btree \<Rightarrow> nkfs_btree option" where
  "merge_children node dst src ki ci tree = do {
     assert_that (node \<noteq> dst \<and> node \<noteq> src \<and> dst \<noteq> src);
     n \<leftarrow> bt_heap tree node;
     d \<leftarrow> bt_heap tree dst;
     s \<leftarrow> bt_heap tree src;
     key \<leftarrow> get_key n (int ki);
     value \<leftarrow> get_value n (int ki);
     d \<leftarrow> nkfs_btree_node_merge d s key value;
     n \<leftarrow> nkfs_btree_node_delete_key_index n ki;
     n \<leftarrow> nkfs_btree_node_delete_child_index n ci;
     Some (set_node node (n\<lparr>n_nr_keys := n_nr_keys n - 1\<rparr>) (set_node dst d tree))
   }"

definition nkfs_btree_node_child_merge :: "nat \<Rightarrow> nat \<Rightarrow> nat \<Rightarrow> nat \<Rightarrow> bool \<Rightarrow> nkfs_btree \<Rightarrow> (nat \<times> nkfs_btree) option" where
  "nkfs_btree_node_child_merge node child child_index sib left tree = do {
     (merged, tree) \<leftarrow> (if left then do {
         tree \<leftarrow> merge_children node sib child (child_index - 1) child_index tree;
         (_, tree) \<leftarrow> nkfs_btree_node_write sib tree;
         (_, tree) \<leftarrow> nkfs_btree_node_write node tree;
         tree \<leftarrow> nkfs_btree_node_delete child tree;
         Some (sib, tree)
       } else do {
         tree \<leftarrow> merge_children node child sib child_index (child_index + 1) tree;
         (_, tree) \<leftarrow> nkfs_btree_node_write child tree;
         (_, tree) \<leftarrow> nkfs_btree_node_write node tree;
         tree \<leftarrow> nkfs_btree_node_delete sib tree;
         Some (child, tree)
       });
     n \<leftarrow> bt_heap tree node;
     if n_nr_keys n = 0 then do {
       tree \<leftarrow> node_copy_at node merged tree;
       (_, tree) \<leftarrow> nkfs_btree_node_write node tree;
       tree \<leftarrow> nkfs_btree_node_delete merged tree;
       Some (node, tree)
     } else Some (merged, tree)
   }"

definition read_sibling :: "bool \<Rightarrow> nkfs_btree_node \<Rightarrow> int \<Rightarrow> nkfs_btree \<Rightarrow> (nat option \<times> nkfs_btree) option" where
  "read_sibling there n i tree =
     (if there then do {
        block \<leftarrow> nkfs_btree_node_get_child_val n i;
        nkfs_btree_node_read tree block
      } else Some (None, tree))"

definition has_keys :: "nat option \<Rightarrow> (nkfs_btree_node \<Rightarrow> bool) \<Rightarrow> nkfs_btree \<Rightarrow> bool option" where
  "has_keys p P tree = (case p of None \<Rightarrow> Some False | Some p \<Rightarrow> do { n \<leftarrow> bt_heap tree p; Some (P n) })"

definition deref_opt :: "nat option \<Rightarrow> nkfs_btree \<Rightarrow> nkfs_btree option" where
  "deref_opt p tree = (case p of None \<Rightarrow> Some tree | Some p \<Rightarrow> nkfs_btree_node_deref p tree)"

definition nkfs_btree_node_child_balance :: "nat \<Rightarrow> nat \<Rightarrow> nkfs_btree \<Rightarrow> (nat option \<times> nkfs_btree) option" where
  "nkfs_btree_node_child_balance node child_index tree = do {
     n \<leftarrow> bt_heap tree node;
     assert_that (n_leaf n = 0);
     block \<leftarrow> nkfs_btree_node_get_child_val n (int child_index);
     (r, tree) \<leftarrow> nkfs_btree_node_read tree block;
     case r of
       None \<Rightarrow> Some (None, tree)
     | Some child \<Rightarrow> do {
         c \<leftarrow> bt_heap tree child;
         (child, tree) \<leftarrow> (if n_nr_keys c < n_t c then do {
             (left, tree) \<leftarrow> read_sibling (child_index > 0) n (int child_index - 1) tree;
             (right, tree) \<leftarrow> read_sibling (int child_index < uint (n_nr_keys n)) n (int child_index + 1) tree;
             left_rich \<leftarrow> has_keys left (\<lambda>s. n_nr_keys s \<ge> n_t s) tree;
             right_rich \<leftarrow> has_keys right (\<lambda>s. n_nr_keys s \<ge> n_t s) tree;
             (next, tree) \<leftarrow> (if left_rich then do {
                 sib \<leftarrow> left;
                 tree \<leftarrow> nkfs_btree_node_child_give_key node child child_index sib True tree;
                 Some (child, tree)
               } else if right_rich then do {
                 sib \<leftarrow> right;
                 tree \<leftarrow> nkfs_btree_node_child_give_key node child child_index sib False tree;
                 Some (child, tree)
               } else (case left of
                   Some sib \<Rightarrow> nkfs_btree_node_child_merge node child child_index sib True tree
                 | None \<Rightarrow> do {
                     sib \<leftarrow> right;
                     nkfs_btree_node_child_merge node child child_index sib False tree
                   }));
             tree \<leftarrow> (if next \<noteq> child then do {
                 tree \<leftarrow> nkfs_btree_node_deref child tree;
                 nkfs_btree_node_ref next tree
               } else Some tree);
             tree \<leftarrow> deref_opt right tree;
             tree \<leftarrow> deref_opt left tree;
             Some (next, tree)
           } else Some (child, tree));
         tree \<leftarrow> (if child = node then nkfs_btree_node_deref child tree else Some tree);
         Some (Some child, tree)
       }
   }"

text \<open>
  The leaf with the greatest key (\<open>most = True\<close>, \<open>nkfs_btree_node_find_left_most\<close>) or the
  least (\<open>nkfs_btree_node_find_right_most\<close>) below a node, and the index of that key.
\<close>

partial_function (option) nkfs_btree_find_most_loop :: "bool \<Rightarrow> nat \<Rightarrow> nkfs_btree \<Rightarrow> ((nat \<times> int) \<times> nkfs_btree) option" where
  "nkfs_btree_find_most_loop most cur tree = do {
     c \<leftarrow> bt_heap tree cur;
     assert_that (n_nr_keys c \<noteq> 0);
     if n_leaf c \<noteq> 0 then Some ((cur, if most then sint (n_nr_keys c - 1) else 0), tree)
     else do {
       (r, tree) \<leftarrow> nkfs_btree_node_child_balance cur (if most then unat (n_nr_keys c) else 0) tree;
       tree \<leftarrow> nkfs_btree_node_deref cur tree;
       next \<leftarrow> r;
       nkfs_btree_find_most_loop most next tree
     }
   }"

declare nkfs_btree_find_most_loop.simps [code]

definition nkfs_btree_node_find_most :: "bool \<Rightarrow> nat \<Rightarrow> nkfs_btree \<Rightarrow> ((nat \<times> int) \<times> nkfs_btree) option" where
  "nkfs_btree_node_find_most most node tree = do {
     n \<leftarrow> bt_heap tree node;
     assert_that (n_nr_keys n \<noteq> 0);
     if n_leaf n \<noteq> 0 then do {
       tree \<leftarrow> nkfs_btree_node_ref node tree;
       Some ((node, if most then sint (n_nr_keys n - 1) else 0), tree)
     } else do {
       (r, tree) \<leftarrow> nkfs_btree_node_child_balance node (if most then unat (n_nr_keys n) else 0) tree;
       cur \<leftarrow> r;
       nkfs_btree_find_most_loop most cur tree
     }
   }"

definition nkfs_btree_node_find_left_most :: "nat \<Rightarrow> nkfs_btree \<Rightarrow> ((nat \<times> int) \<times> nkfs_btree) option" where
  "nkfs_btree_node_find_left_most = nkfs_btree_node_find_most True"

definition nkfs_btree_node_find_right_most :: "nat \<Rightarrow> nkfs_btree \<Rightarrow> ((nat \<times> int) \<times> nkfs_btree) option" where
  "nkfs_btree_node_find_right_most = nkfs_btree_node_find_most False"

text \<open>Copying the neighbour's pair over the pair at \<open>index\<close>: the key to delete next, in the leaf it came from.\<close>

definition replace_with :: "nat \<Rightarrow> nat \<Rightarrow> int \<Rightarrow> nat \<times> int \<Rightarrow> nat \<Rightarrow> nat \<Rightarrow> nkfs_btree \<Rightarrow> (nkfs_btree_key \<times> nkfs_btree) option" where
  "replace_with first node index other child1 child2 tree = do {
     m \<leftarrow> bt_heap tree (fst other);
     tree \<leftarrow> mod_node node (\<lambda>n. nkfs_btree_node_copy_kv n index m (snd other)) tree;
     (_, tree) \<leftarrow> nkfs_btree_node_write node tree;
     tree \<leftarrow> deref_unless first node tree;
     tree \<leftarrow> nkfs_btree_node_deref child1 tree;
     tree \<leftarrow> nkfs_btree_node_deref child2 tree;
     m \<leftarrow> bt_heap tree (fst other);
     key \<leftarrow> get_key m (snd other);
     Some (key, tree)
   }"

partial_function (option) nkfs_btree_delete_loop :: "nat \<Rightarrow> nkfs_btree_key \<Rightarrow> nat \<Rightarrow> nkfs_btree \<Rightarrow> (int \<times> nkfs_btree) option" where
  "nkfs_btree_delete_loop first key node tree = do {
     n \<leftarrow> bt_heap tree node;
     i \<leftarrow> nkfs_btree_node_has_key n key;
     if i \<ge> 0 then
       if n_leaf n \<noteq> 0 then do {
         n \<leftarrow> nkfs_btree_node_leaf_delete_key n key;
         (_, tree) \<leftarrow> nkfs_btree_node_write node (set_node node n tree);
         tree \<leftarrow> deref_unless first node tree;
         Some (0, tree)
       } else do {
         block1 \<leftarrow> nkfs_btree_node_get_child_val n i;
         (r1, tree) \<leftarrow> nkfs_btree_node_read tree block1;
         block2 \<leftarrow> nkfs_btree_node_get_child_val n (i + 1);
         (r2, tree) \<leftarrow> nkfs_btree_node_read tree block2;
         pre_child \<leftarrow> r1;
         suc_child \<leftarrow> r2;
         pc \<leftarrow> bt_heap tree pre_child;
         sc \<leftarrow> bt_heap tree suc_child;
         if n_nr_keys pc \<ge> n_t pc then do {
           (pre, tree) \<leftarrow> nkfs_btree_node_find_left_most pre_child tree;
           (key, tree) \<leftarrow> replace_with first node i pre pre_child suc_child tree;
           nkfs_btree_delete_loop first key (fst pre) tree
         } else if n_nr_keys sc \<ge> n_t sc then do {
           (suc, tree) \<leftarrow> nkfs_btree_node_find_right_most suc_child tree;
           (key, tree) \<leftarrow> replace_with first node i suc suc_child pre_child tree;
           nkfs_btree_delete_loop first key (fst suc) tree
         } else do {
           tree \<leftarrow> merge_children node pre_child suc_child (nat i) (nat i + 1) tree;
           (_, tree) \<leftarrow> nkfs_btree_node_write node tree;
           (_, tree) \<leftarrow> nkfs_btree_node_write pre_child tree;
           tree \<leftarrow> nkfs_btree_node_delete suc_child tree;
           n \<leftarrow> bt_heap tree node;
           (node, tree) \<leftarrow> (if n_nr_keys n = 0 then do {
               tree \<leftarrow> node_copy_at node pre_child tree;
               tree \<leftarrow> nkfs_btree_node_delete pre_child tree;
               (_, tree) \<leftarrow> nkfs_btree_node_write node tree;
               tree \<leftarrow> nkfs_btree_node_deref suc_child tree;
               tree \<leftarrow> nkfs_btree_node_deref pre_child tree;
               Some (node, tree)
             } else do {
               tree \<leftarrow> deref_unless first node tree;
               tree \<leftarrow> nkfs_btree_node_deref suc_child tree;
               Some (pre_child, tree)
             });
           n \<leftarrow> bt_heap tree node;
           key \<leftarrow> get_key n (sint (n_nr_keys pc));
           nkfs_btree_delete_loop first key node tree
         }
       }
     else if n_leaf n \<noteq> 0 then do {
       tree \<leftarrow> deref_unless first node tree;
       Some (- ENOENT, tree)
     } else do {
       i \<leftarrow> nkfs_btree_node_find_key_index n key;
       (r, tree) \<leftarrow> nkfs_btree_node_child_balance node (nat i) tree;
       tree \<leftarrow> deref_unless first node tree;
       child \<leftarrow> r;
       nkfs_btree_delete_loop first key child tree
     }
   }"

declare nkfs_btree_delete_loop.simps [code]

definition nkfs_btree_node_delete_key :: "nat \<Rightarrow> nkfs_btree_key \<Rightarrow> nkfs_btree \<Rightarrow> (int \<times> nkfs_btree) option" where
  "nkfs_btree_node_delete_key first key tree = nkfs_btree_delete_loop first key first tree"

definition nkfs_btree_delete_key :: "nkfs_btree \<Rightarrow> nkfs_btree_key \<Rightarrow> (int \<times> nkfs_btree) option" where
  "nkfs_btree_delete_key tree key =
     (if bt_releasing tree then Some (- EAGAIN, tree)
      else do {
        rt \<leftarrow> bt_root tree;
        nkfs_btree_node_delete_key rt key tree
      })"

section \<open>Walking the tree\<close>

text \<open>
  The loop over the children of a node: each is read, visited and released, until
  the state says stop.
\<close>

definition visit_child :: "(nat \<Rightarrow> 's \<times> nkfs_btree \<Rightarrow> ('s \<times> nkfs_btree) option) \<Rightarrow> nkfs_btree_node \<Rightarrow> nat
    \<Rightarrow> 's \<times> nkfs_btree \<Rightarrow> ('s \<times> nkfs_btree) option" where
  "visit_child f n i st = do {
     block \<leftarrow> nkfs_btree_node_get_child_val n (int i);
     rd \<leftarrow> nkfs_btree_node_read (snd st) block;
     child \<leftarrow> fst rd;
     st \<leftarrow> f child (fst st, snd rd);
     tree \<leftarrow> nkfs_btree_node_deref child (snd st);
     Some (fst st, tree)
   }"

lemma visit_child_mono [partial_function_mono]:
  assumes "\<And>c st. mono_option (\<lambda>g. B g c st)"
  shows "mono_option (\<lambda>g. visit_child (B g) n i st)"
  unfolding visit_child_def by (intro partial_function_mono assms)

definition visit_children :: "('s \<Rightarrow> bool) \<Rightarrow> (nat \<Rightarrow> 's \<times> nkfs_btree \<Rightarrow> ('s \<times> nkfs_btree) option) \<Rightarrow> nkfs_btree_node
    \<Rightarrow> 's \<times> nkfs_btree \<Rightarrow> ('s \<times> nkfs_btree) option" where
  "visit_children stop f n st =
     fold_opt (\<lambda>i st. if stop (fst st) then Some st else visit_child f n i st) [0..<unat (n_nr_keys n + 1)] st"

lemma visit_children_mono [partial_function_mono]:
  assumes "\<And>c st. mono_option (\<lambda>g. B g c st)"
  shows "mono_option (\<lambda>g. visit_children stop (B g) n st)"
  unfolding visit_children_def by (intro partial_function_mono visit_child_mono assms)

text \<open>Enumeration: the callback gets the context, the node and the index, and stops the walk by returning true.\<close>

primrec enum_keys :: "('c \<Rightarrow> nkfs_btree_node \<Rightarrow> int \<Rightarrow> bool \<times> 'c) \<Rightarrow> nkfs_btree_node \<Rightarrow> nat list \<Rightarrow> 'c \<Rightarrow> bool \<times> 'c" where
  "enum_keys clb n [] ctx = (False, ctx)"
| "enum_keys clb n (i # is) ctx = (let (rc, ctx) = clb ctx n (int i) in if rc then (True, ctx) else enum_keys clb n is ctx)"

partial_function (option) nkfs_btree_enum_node ::
  "('c \<Rightarrow> nkfs_btree_node \<Rightarrow> int \<Rightarrow> bool \<times> 'c) \<Rightarrow> nat \<Rightarrow> (bool \<times> 'c) \<times> nkfs_btree \<Rightarrow> ((bool \<times> 'c) \<times> nkfs_btree) option" where
  "nkfs_btree_enum_node clb node st = do {
     n \<leftarrow> bt_heap (snd st) node;
     if n_nr_keys n = 0 then Some ((False, snd (fst st)), snd st)
     else do {
       let r = enum_keys clb n [0..<unat (n_nr_keys n)] (snd (fst st));
       if fst r \<or> n_leaf n \<noteq> 0 then Some (r, snd st)
       else visit_children fst (nkfs_btree_enum_node clb) n (r, snd st)
     }
   }"

declare nkfs_btree_enum_node.simps [code]

definition nkfs_btree_enum_tree ::
  "nkfs_btree \<Rightarrow> ('c \<Rightarrow> nkfs_btree_node \<Rightarrow> int \<Rightarrow> bool \<times> 'c) \<Rightarrow> 'c \<Rightarrow> ((bool \<times> 'c) \<times> nkfs_btree) option" where
  "nkfs_btree_enum_tree tree clb ctx = do {
     rt \<leftarrow> bt_root tree;
     nkfs_btree_enum_node clb rt ((False, ctx), tree)
   }"

record nkfs_btree_info =
  i_nr_keys :: u64
  i_nr_nodes :: u64

partial_function (option) nkfs_btree_node_stats ::
  "nat \<Rightarrow> nkfs_btree_info \<times> nkfs_btree \<Rightarrow> (nkfs_btree_info \<times> nkfs_btree) option" where
  "nkfs_btree_node_stats node st = do {
     n \<leftarrow> bt_heap (snd st) node;
     st \<leftarrow> (if n_nr_keys n \<noteq> 0 \<and> n_leaf n = 0 then visit_children (\<lambda>_. False) nkfs_btree_node_stats n st else Some st);
     Some ((fst st)\<lparr>i_nr_nodes := i_nr_nodes (fst st) + 1, i_nr_keys := i_nr_keys (fst st) + ucast (n_nr_keys n)\<rparr>, snd st)
   }"

declare nkfs_btree_node_stats.simps [code]

definition nkfs_btree_stats :: "nkfs_btree \<Rightarrow> (nkfs_btree_info \<times> nkfs_btree) option" where
  "nkfs_btree_stats tree =
     (if bt_releasing tree then Some (\<lparr>i_nr_keys = 0, i_nr_nodes = 0\<rparr>, tree)
      else do {
        rt \<leftarrow> bt_root tree;
        nkfs_btree_node_stats rt (\<lparr>i_nr_keys = 0, i_nr_nodes = 0\<rparr>, tree)
      })"

text \<open>\<open>nkfs_btree_log_node\<close> logs nothing; what is left of it is the walk.\<close>

partial_function (option) nkfs_btree_log_node :: "nat \<Rightarrow> unit \<times> nkfs_btree \<Rightarrow> (unit \<times> nkfs_btree) option" where
  "nkfs_btree_log_node node st = do {
     n \<leftarrow> bt_heap (snd st) node;
     if n_nr_keys n \<noteq> 0 \<and> n_leaf n = 0 then visit_children (\<lambda>_. False) nkfs_btree_log_node n st else Some st
   }"

declare nkfs_btree_log_node.simps [code]

text \<open>Erasing: every pair is handed to the callback, which works on the superblock, and the nodes are deleted.\<close>

definition erase_keys :: "(nkfs_btree_key \<Rightarrow> u64 \<Rightarrow> nkfs_sb \<Rightarrow> nkfs_sb option) option \<Rightarrow> nkfs_btree_node \<Rightarrow> nkfs_btree \<Rightarrow> nkfs_btree option" where
  "erase_keys clb n tree =
     (case clb of
        None \<Rightarrow> Some tree
      | Some f \<Rightarrow> fold_opt (\<lambda>i tree. do {
          key \<leftarrow> get_key n (int i);
          value \<leftarrow> get_value n (int i);
          sb \<leftarrow> f key value (bt_sb tree);
          Some (tree\<lparr>bt_sb := sb\<rparr>)
        }) [0..<unat (n_nr_keys n)] tree)"

partial_function (option) nkfs_btree_erase_node ::
  "(nkfs_btree_key \<Rightarrow> u64 \<Rightarrow> nkfs_sb \<Rightarrow> nkfs_sb option) option \<Rightarrow> nat \<Rightarrow> unit \<times> nkfs_btree \<Rightarrow> (unit \<times> nkfs_btree) option" where
  "nkfs_btree_erase_node clb node st = do {
     n \<leftarrow> bt_heap (snd st) node;
     st \<leftarrow> (if n_nr_keys n \<noteq> 0 \<and> n_leaf n = 0 then visit_children (\<lambda>_. False) (nkfs_btree_erase_node clb) n st else Some st);
     tree \<leftarrow> erase_keys clb n (snd st);
     tree \<leftarrow> nkfs_btree_node_delete node tree;
     Some ((), tree)
   }"

declare nkfs_btree_erase_node.simps [code]

definition nkfs_btree_erase :: "nkfs_btree \<Rightarrow> (nkfs_btree_key \<Rightarrow> u64 \<Rightarrow> nkfs_sb \<Rightarrow> nkfs_sb option) option \<Rightarrow> nkfs_btree option" where
  "nkfs_btree_erase tree clb = do {
     let tree = tree\<lparr>bt_releasing := True\<rparr>;
     rt \<leftarrow> bt_root tree;
     (_, tree) \<leftarrow> nkfs_btree_erase_node clb rt ((), tree);
     Some tree
   }"

text \<open>
  The check counts errors.  It tests the page pointer, not the child, at a child
  index; from the fourth on that is behind the array.
\<close>

definition check_child_page :: "nkfs_btree_node \<Rightarrow> nat \<Rightarrow> int option" where
  "check_child_page n i = do {
     assert_that (i < NKFS_BTREE_CHILD_PAGES);
     Some (if n_children n ! i = None then 1 else 0)
   }"

definition check_keys :: "nkfs_btree_node \<Rightarrow> int option" where
  "check_keys n = fold_opt (\<lambda>i errs. do {
       k \<leftarrow> get_key n (int i);
       unordered \<leftarrow> (if i = 0 then Some False else do {
           prev \<leftarrow> get_key n (int i - 1);
           Some (nkfs_btree_cmp_key prev k \<ge> 0)
         });
       missing \<leftarrow> (if n_leaf n = 0 then check_child_page n i else Some 0);
       Some (errs + (if unordered then 1 else 0) + missing)
     }) [0..<unat (n_nr_keys n)] 0"

partial_function (option) nkfs_btree_node_check :: "bool \<Rightarrow> nat \<Rightarrow> int \<times> nkfs_btree \<Rightarrow> (int \<times> nkfs_btree) option" where
  "nkfs_btree_node_check is_root node st = do {
     n \<leftarrow> bt_heap (snd st) node;
     let e1 = (if n_sig1 n \<noteq> NKFS_BTREE_SIG1 \<or> n_sig2 n \<noteq> NKFS_BTREE_SIG2 then 1 else 0 :: int);
     let e2 = (if n_nr_keys n > 2 * n_t n - 1 then 1 else 0 :: int);
     let e3 = (if \<not> is_root \<and> n_nr_keys n < n_t n - 1 then 1 else 0 :: int);
     e4 \<leftarrow> check_keys n;
     e5 \<leftarrow> (if n_leaf n = 0 \<and> (\<not> is_root \<or> n_nr_keys n > 0) then check_child_page n (unat (n_nr_keys n)) else Some 0);
     let st = (fst st + e1 + e2 + e3 + e4 + e5, snd st);
     if n_leaf n = 0 then visit_children (\<lambda>_. False) (nkfs_btree_node_check False) n st else Some st
   }"

declare nkfs_btree_node_check.simps [code]

definition nkfs_btree_check :: "nkfs_btree \<Rightarrow> (int \<times> nkfs_btree) option" where
  "nkfs_btree_check tree =
     (if bt_releasing tree then Some (- EAGAIN, tree)
      else do {
        rt \<leftarrow> bt_root tree;
        nkfs_btree_node_check True rt (0, tree)
      })"

end
