(* ===== verification/Btree_Store.thy ===== *)
theory Btree_Store
  imports Btree
begin

text \<open>
  Reading and writing the nodes of a tree over the cluster cache, for a device
  whose allocations and requests succeed.  \<open>wp_node_write\<close> says what a write
  leaves in the block and in memory, \<open>wp_node_read_hit\<close> and
  \<open>wp_node_read_miss\<close> what a read of a cached and of an uncached block gives.
  \<open>disk_node\<close> is the node a block decodes to; \<open>disk_node_image\<close> relates it to the
  node that was written: the last three key pages lie under the child pages on
  disk, and \<open>disk_good_image\<close> says when the checksum notices.
\<close>

section \<open>The tree's device\<close>

definition bt_dev :: "nkfs_btree \<Rightarrow> dio_dev" where
  "bt_dev tree = ddev (bt_sb tree)"

definition bt_set_dev :: "dio_dev \<Rightarrow> nkfs_btree \<Rightarrow> nkfs_btree" where
  "bt_set_dev dev tree = tree\<lparr>bt_sb := (bt_sb tree)\<lparr>ddev := dev\<rparr>\<rparr>"

definition bt_content :: "nkfs_btree \<Rightarrow> u64 \<Rightarrow> u8 list" where
  "bt_content tree = content (dio_abs (bt_dev tree))"

definition bt_pins :: "nkfs_btree \<Rightarrow> u64 \<Rightarrow> nat" where
  "bt_pins tree = pins (dio_abs (bt_dev tree))"

text \<open>No failures, and blocks of 64 KiB whose sector numbers fit.\<close>

definition bt_good :: "nkfs_btree \<Rightarrow> bool" where
  "bt_good tree \<longleftrightarrow> dio_good 65536 (bt_dev tree) \<and> bsize (bt_sb tree) = 65536 \<and> unat (nr_blocks (bt_sb tree)) * 128 \<le> 2 ^ 64"

lemma bt_simps [simp]:
  "bt_dev (bt_set_dev dev tree) = dev" "bt_heap (bt_set_dev dev tree) = bt_heap tree" "bt_nodes (bt_set_dev dev tree) = bt_nodes tree"
  "bt_root (bt_set_dev dev tree) = bt_root tree" "bt_next (bt_set_dev dev tree) = bt_next tree"
  "bt_releasing (bt_set_dev dev tree) = bt_releasing tree" "bt_nodes_active (bt_set_dev dev tree) = bt_nodes_active tree"
  "bt_ref (bt_set_dev dev tree) = bt_ref tree" "bt_sig1 (bt_set_dev dev tree) = bt_sig1 tree" "bt_set_dev dev' (bt_set_dev dev tree) = bt_set_dev dev' tree"
  "bsize (bt_sb (bt_set_dev dev tree)) = bsize (bt_sb tree)" "nr_blocks (bt_sb (bt_set_dev dev tree)) = nr_blocks (bt_sb tree)"
  "bt_set_dev (bt_dev tree) tree = tree"
  by (simp_all add: bt_dev_def bt_set_dev_def)

lemma bt_set_node_simps [simp]:
  "bt_dev (set_node p n tree) = bt_dev tree" "bt_heap (set_node p n tree) = (bt_heap tree)(p \<mapsto> n)"
  "bt_nodes (set_node p n tree) = bt_nodes tree" "bt_root (set_node p n tree) = bt_root tree" "bt_sb (set_node p n tree) = bt_sb tree"
  "bt_next (set_node p n tree) = bt_next tree" "bt_releasing (set_node p n tree) = bt_releasing tree"
  "bt_nodes_active (set_node p n tree) = bt_nodes_active tree" "bt_ref (set_node p n tree) = bt_ref tree" "bt_sig1 (set_node p n tree) = bt_sig1 tree"
  "set_node p n' (set_node p n tree) = set_node p n' tree"
  by (simp_all add: set_node_def bt_dev_def)

lemma wpo_on_tdev [simp]: "wpo (on_tdev f tree) Q \<longleftrightarrow> wpo (f (bt_dev tree)) (\<lambda>(r, dev). Q (r, bt_set_dev dev tree))"
  by (auto simp: on_tdev_def on_sb_def on_dev_def bt_dev_def bt_set_dev_def wpo_def split: bind_splits prod.splits)

lemma wpo_bt_clu_put [simp]: "wpo (bt_clu_put i tree) Q \<longleftrightarrow> wpo (dio_clu_put (bt_dev tree) i) (\<lambda>dev. Q (bt_set_dev dev tree))"
  by (auto simp: bt_clu_put_def sb_clu_put_def bt_dev_def bt_set_dev_def wpo_def split: bind_splits)

lemma bt_good_dev: "bt_good tree \<Longrightarrow> dio_good 65536 dev \<Longrightarrow> bt_good (bt_set_dev dev tree)"
  by (simp add: bt_good_def)

lemma bt_good_node [simp]: "bt_good (set_node p n tree) = bt_good tree"
  by (simp add: bt_good_def)

lemma bt_good_index:
  assumes "bt_good tree" "block < nr_blocks (bt_sb tree)"
  shows "index_ok 65536 block"
proof -
  have "unat block * 128 < unat (nr_blocks (bt_sb tree)) * 128"
    using assms(2) by (simp add: word_less_nat_alt)
  then show ?thesis
    using assms(1) by (simp add: bt_good_def index_ok_def)
qed

lemma disk_fits [simp]: "node_disk_size = 53248"
  by (simp add: node_disk_size_def disk_values_off_def)

section \<open>Writing a node\<close>

definition block_ok :: "nkfs_btree \<Rightarrow> u64 \<Rightarrow> bool" where
  "block_ok tree block \<longleftrightarrow> block \<noteq> 0 \<and> block < nr_blocks (bt_sb tree)"

definition node_ready :: "nkfs_btree \<Rightarrow> nkfs_btree_node \<Rightarrow> bool" where
  "node_ready tree n \<longleftrightarrow> node_wf n \<and> n_sig1 n = NKFS_BTREE_SIG1 \<and> n_sig2 n = NKFS_BTREE_SIG2 \<and> n_tree n \<and> block_ok tree (n_block n)"

text \<open>The node after its header page has been brought up to date.\<close>

definition node_written :: "nkfs_btree_node \<Rightarrow> nkfs_btree_node" where
  "node_written n = (node_head n)\<lparr>n_header := (n_header (node_head n))\<lparr>h_sum := XXH64 (node_data (node_head n)) 0\<rparr>\<rparr>"

lemma node_head_fields [simp]:
  "n_block (node_head n) = n_block n" "n_keys (node_head n) = n_keys n" "n_values (node_head n) = n_values n" "n_children (node_head n) = n_children n"
  by (simp_all add: node_head_def)

lemma node_head_wf [simp]: "node_wf (node_head n) = node_wf n" "node_wf (node_written n) = node_wf n"
  by (simp_all add: node_head_def node_written_def node_wf_def)

lemma node_written_fields [simp]:
  "n_block (node_written n) = n_block n" "n_leaf (node_written n) = n_leaf n" "n_nr_keys (node_written n) = n_nr_keys n"
  "n_ref (node_written n) = n_ref n" "n_tree (node_written n) = n_tree n" "n_sig1 (node_written n) = n_sig1 n"
  "n_sig2 (node_written n) = n_sig2 n" "n_keys (node_written n) = n_keys n" "n_values (node_written n) = n_values n"
  "n_children (node_written n) = n_children n" "n_t (node_written n) = n_t n"
  "node_kv (node_written n) = node_kv n" "node_ch (node_written n) = node_ch n" "node_nr (node_written n) = node_nr n"
  "node_kvs (node_written n) = node_kvs n" "node_chs (node_written n) = node_chs n"
  by (simp_all add: node_written_def node_head_def node_kv_def node_ch_def node_nr_def node_kvs_def node_chs_def fun_eq_iff)

lemma wp_node_write:
  assumes "bt_good tree" "bt_heap tree p = Some n" "node_ready tree n"
    and "\<And>dev v. dio_good 65536 dev \<Longrightarrow> pins (dio_abs dev) = bt_pins tree \<Longrightarrow> content (dio_abs dev) = (bt_content tree)(n_block n := v) \<Longrightarrow>
      block_pages v (image_page (node_written n) (page_at (bt_content tree (n_block n)))) \<Longrightarrow>
      Q (0, set_node p (node_written n) (bt_set_dev dev tree))"
  shows "wpo (nkfs_btree_node_write p tree) Q"
proof -
  have g: "dio_good 65536 (bt_dev tree)" "unat (bsize (bt_sb tree)) = 65536"
    using assms(1) by (simp_all add: bt_good_def)
  have r: "node_wf n" "n_sig1 n = NKFS_BTREE_SIG1" "n_sig2 n = NKFS_BTREE_SIG2" "n_tree n" "n_block n \<noteq> 0"
    "n_block n < nr_blocks (bt_sb tree)"
    using assms(3) by (auto simp: node_ready_def block_ok_def)
  have i: "index_ok 65536 (n_block n)"
    by (rule bt_good_index [OF assms(1) r(6)])
  have sum: "nkfs_btree_node_calc_sum (node_head n) = Some (XXH64 (node_data (node_head n)) 0)"
    by (rule calc_sum_ok) (simp add: r)
  let ?set = "\<lambda>dev. set_node p (node_written n) (bt_set_dev dev tree)"
  have sw: "bt_set_dev d (set_node p m t) = set_node p m (bt_set_dev d t)" for d m t
    by (simp add: bt_set_dev_def set_node_def)
  have "wpo (dio_clu_get (bt_dev tree) (n_block n)) (\<lambda>(ok, dev). ok \<and>
    wpo (nkfs_btree_node_to_ondisk (node_written n) dev (n_block n)) (\<lambda>dev.
      wpo (dio_clu_set_dirty dev (n_block n)) (\<lambda>(_, dev).
        wpo (dio_clu_sync_index dev (n_block n)) (\<lambda>(err, dev).
          wpo (dio_clu_put dev (n_block n)) (\<lambda>dev. Q (err, ?set dev))))))"
  proof (rule wp_dio_clu_get [OF g(1) i])
    fix dev1
    assume 1: "dio_good 65536 dev1" "content (dio_abs dev1) = content (dio_abs (bt_dev tree))"
      "pins (dio_abs dev1) = (pins (dio_abs (bt_dev tree)))(n_block n := pins (dio_abs (bt_dev tree)) (n_block n) + 1)"
    then have pin: "0 < pins (dio_abs dev1) (n_block n)"
      by simp
    have "wpo (nkfs_btree_node_to_ondisk (node_written n) dev1 (n_block n)) (\<lambda>dev.
      wpo (dio_clu_set_dirty dev (n_block n)) (\<lambda>(_, dev).
        wpo (dio_clu_sync_index dev (n_block n)) (\<lambda>(err, dev).
          wpo (dio_clu_put dev (n_block n)) (\<lambda>dev. Q (err, ?set dev)))))"
    proof (rule wp_to_ondisk [OF 1(1) pin])
      fix v dev2
      assume 2: "dio_poked dev1 (n_block n) v dev2" "block_pages v (image_page (node_written n) (page_at (content (dio_abs dev1) (n_block n))))"
      show "wpo (dio_clu_set_dirty dev2 (n_block n)) (\<lambda>(_, dev).
        wpo (dio_clu_sync_index dev (n_block n)) (\<lambda>(err, dev). wpo (dio_clu_put dev (n_block n)) (\<lambda>dev. Q (err, ?set dev))))"
      proof (rule wp_dio_clu_dirty [OF 1(1) pin 2(1)], unfold prod.case)
        fix dev3
        assume 3: "dio_good 65536 dev3" "pins (dio_abs dev3) = pins (dio_abs dev1)"
          "content (dio_abs dev3) = (content (dio_abs dev1))(n_block n := v)"
        then have pin3: "0 < pins (dio_abs dev3) (n_block n)"
          using pin by simp
        show "wpo (dio_clu_sync_index dev3 (n_block n)) (\<lambda>(err, dev). wpo (dio_clu_put dev (n_block n)) (\<lambda>dev. Q (err, ?set dev)))"
        proof (rule wp_dio_clu_sync [OF 3(1) pin3], unfold prod.case)
          fix dev4
          assume 4: "dio_good 65536 dev4" "dio_abs dev4 = dio_abs dev3"
          then have pin4: "0 < pins (dio_abs dev4) (n_block n)"
            using pin3 by simp
          show "wpo (dio_clu_put dev4 (n_block n)) (\<lambda>dev. Q (0, ?set dev))"
          proof (rule wp_dio_clu_put [OF 4(1) pin4])
            fix dev5
            assume 5: "dio_good 65536 dev5" "content (dio_abs dev5) = content (dio_abs dev4)"
              "pins (dio_abs dev5) = (pins (dio_abs dev4))(n_block n := pins (dio_abs dev4) (n_block n) - 1)"
            show "Q (0, ?set dev5)"
              by (rule assms(4) [OF 5(1)]) (use 1 2 3 4 5 in \<open>simp_all add: bt_pins_def bt_content_def\<close>)
          qed
        qed
      qed
    qed (simp add: r)
    then show "case (True, dev1) of (ok, dev) \<Rightarrow> ok \<and> wpo (nkfs_btree_node_to_ondisk (node_written n) dev (n_block n)) (\<lambda>dev.
      wpo (dio_clu_set_dirty dev (n_block n)) (\<lambda>(_, dev).
        wpo (dio_clu_sync_index dev (n_block n)) (\<lambda>(err, dev).
          wpo (dio_clu_put dev (n_block n)) (\<lambda>dev. Q (err, ?set dev)))))"
      by simp
  qed
  then show ?thesis
    using assms(2) r g(2)
    by (auto simp: nkfs_btree_node_write_def sum node_written_def [symmetric] sw Let_def elim!: wpo_mono split: prod.splits)
qed

section \<open>Reading a node\<close>

lemma bt_more_simps [simp]:
  "bt_dev (tree\<lparr>bt_nodes := a\<rparr>) = bt_dev tree" "bt_dev (tree\<lparr>bt_nodes_active := c\<rparr>) = bt_dev tree"
  "bt_dev (tree\<lparr>bt_heap := h\<rparr>) = bt_dev tree" "bt_dev (tree\<lparr>bt_next := k\<rparr>) = bt_dev tree"
  "bt_dev (tree\<lparr>bt_root := r\<rparr>) = bt_dev tree" "bt_dev (tree\<lparr>bt_releasing := b\<rparr>) = bt_dev tree"
  by (simp_all add: bt_dev_def)

lemma alloc_all_ok: "env_ok dev \<Longrightarrow> alloc_all k dev = (True, dev)"
  by (induction k) (simp_all add: env_ok_def next_mem_def)

lemma node_alloc_ok:
  assumes "bt_good tree"
  shows "nkfs_btree_node_alloc tree
    = (Some (bt_next tree), (set_node (bt_next tree) new_btree_node tree)\<lparr>bt_next := Suc (bt_next tree)\<rparr>)"
proof -
  have "env_ok (ddev (bt_sb tree))"
    using assms by (simp add: bt_good_def dio_good_def bt_dev_def)
  then show ?thesis
    by (simp add: nkfs_btree_node_alloc_def alloc_all_ok)
qed

text \<open>What reading a block gives, and when it is accepted.\<close>

definition disk_node :: "nkfs_btree \<Rightarrow> u64 \<Rightarrow> nkfs_btree_node" where
  "disk_node tree b = node_parsed (decode_pages (new_btree_node\<lparr>n_tree := True, n_block := b\<rparr>) (page_at (bt_content tree b)))"

definition disk_good :: "nkfs_btree_node \<Rightarrow> bool" where
  "disk_good n \<longleftrightarrow> n_sig1 n = NKFS_BTREE_SIG1 \<and> n_sig2 n = NKFS_BTREE_SIG2 \<and> XXH64 (node_data n) 0 = h_sum (n_header n)"

definition bt_cached :: "nat \<Rightarrow> nkfs_btree_node \<Rightarrow> nkfs_btree \<Rightarrow> nkfs_btree" where
  "bt_cached p n tree = tree\<lparr>bt_next := Suc p, bt_nodes := RBT.insert (n_block n) p (bt_nodes tree),
     bt_nodes_active := bt_nodes_active tree + 1, bt_heap := (bt_heap tree)(p \<mapsto> n)\<rparr>"

lemma decode_pages_wf:
  assumes "node_wf n" "\<And>k. k < 16 \<Longrightarrow> length (f k) = 4096"
  shows "node_wf (decode_pages n f)"
proof -
  have "length c = 16" if "c \<in> set (chunks 16 256 (f (Suc i)))" "i < 7" for c i
    using length_chunk [OF _ that(1)] assms(2) [of "Suc i"] that(2) by simp
  then show ?thesis
    using assms by (auto simp: node_wf_def decode_pages_def nkfs_btree_node_header_page_by_ondisk_def header_page_of_bytes_def)
qed

lemma disk_node_fields [simp]: "n_ref (disk_node tree b) = 1" "n_block (disk_node tree b) = b" "n_tree (disk_node tree b)" "n_t (disk_node tree b) = NKFS_BTREE_T"
  by (simp_all add: disk_node_def node_parsed_def decode_pages_def new_btree_node_def nkfs_btree_node_zero_pages_def)

lemma disk_node_ref1 [simp]: "(disk_node tree b)\<lparr>n_ref := 1\<rparr> = disk_node tree b"
  by (rule nkfs_btree_node.equality) simp_all

lemma disk_node_wf:
  assumes "length (bt_content tree b) = 65536"
  shows "node_wf (disk_node tree b)"
proof -
  have "node_wf (new_btree_node\<lparr>n_tree := True, n_block := b\<rparr>)"
    using new_btree_node_wf by (simp add: node_wf_def)
  then have "node_wf (decode_pages (new_btree_node\<lparr>n_tree := True, n_block := b\<rparr>) (page_at (bt_content tree b)))"
    by (rule decode_pages_wf) (use assms in \<open>simp add: page_at_def\<close>)
  then show ?thesis
    by (simp add: disk_node_def node_parsed_def node_wf_def)
qed

lemma set_dev_swap: "bt_set_dev d (set_node p m t) = set_node p m (bt_set_dev d t)"
  "bt_set_dev d (t\<lparr>bt_next := k\<rparr>) = (bt_set_dev d t)\<lparr>bt_next := k\<rparr>"
  "set_node p m (t\<lparr>bt_next := k\<rparr>) = (set_node p m t)\<lparr>bt_next := k\<rparr>"
  "bt_sb ((t::nkfs_btree)\<lparr>bt_next := k\<rparr>) = bt_sb t"
  by (simp_all add: bt_set_dev_def set_node_def)

lemma wp_node_read_miss:
  assumes "bt_good tree" "block_ok tree b" "RBT.lookup (bt_nodes tree) b = None"
    and good: "\<And>dev. dio_good 65536 dev \<Longrightarrow> dio_abs dev = dio_abs (bt_dev tree) \<Longrightarrow> disk_good (disk_node tree b) \<Longrightarrow> node_wf (disk_node tree b) \<Longrightarrow>
      Q (Some (bt_next tree), bt_cached (bt_next tree) (disk_node tree b) (bt_set_dev dev tree))"
    and bad: "\<And>dev. dio_good 65536 dev \<Longrightarrow> dio_abs dev = dio_abs (bt_dev tree) \<Longrightarrow> \<not> disk_good (disk_node tree b) \<Longrightarrow>
      Q (None, (bt_set_dev dev tree)\<lparr>bt_next := Suc (bt_next tree), bt_heap := (bt_heap tree)(bt_next tree := None)\<rparr>)"
  shows "wpo (nkfs_btree_node_read tree b) Q"
proof -
  let ?p = "bt_next tree"
  let ?new = "new_btree_node\<lparr>n_tree := True, n_block := b\<rparr>"
  let ?n = "disk_node tree b"
  have g: "dio_good 65536 (bt_dev tree)" "unat (bsize (bt_sb tree)) = 65536"
    using assms(1) by (simp_all add: bt_good_def)
  have b: "b \<noteq> 0" "\<not> nr_blocks (bt_sb tree) \<le> b"
    using assms(2) by (auto simp: block_ok_def)
  have i: "index_ok 65536 b"
    by (rule bt_good_index [OF assms(1)]) (use assms(2) in \<open>simp add: block_ok_def\<close>)
  let ?t = "\<lambda>dev. (set_node ?p ?new (bt_set_dev dev tree))\<lparr>bt_next := Suc ?p\<rparr>"
  have step: "wpo (node_read_clu ?p b (?t dev1)) Q"
    if 1: "dio_good 65536 dev1" "content (dio_abs dev1) = content (dio_abs (bt_dev tree))"
      "pins (dio_abs dev1) = (pins (dio_abs (bt_dev tree)))(b := pins (dio_abs (bt_dev tree)) b + 1)" for dev1
  proof -
    have pin: "0 < pins (dio_abs dev1) b"
      using 1(3) by simp
    have len: "length (bt_content tree b) = 65536"
      using length_content [of dev1 b] pin 1(1,2) by (simp add: dio_good_def bt_content_def)
    have dn: "nkfs_btree_node_by_ondisk ?new dev1 b = Some (decode_pages ?new (page_at (bt_content tree b)))"
      using by_ondisk_ok [OF 1(1) pin] 1(2) by (simp add: bt_content_def)
    note wf = disk_node_wf [OF len]
    have chk: "(if n_sig1 ?n \<noteq> NKFS_BTREE_SIG1 \<or> n_sig2 ?n \<noteq> NKFS_BTREE_SIG2 then Some False
        else do { sum \<leftarrow> nkfs_btree_node_calc_sum ?n; Some (sum = h_sum (n_header ?n)) }) = Some (disk_good ?n)"
      by (auto simp: disk_good_def calc_sum_ok [OF wf])
    have "wpo (dio_clu_put dev1 b) (\<lambda>dev. if disk_good ?n
        then Q (Some ?p, bt_cached ?p ?n (bt_set_dev dev tree))
        else Q (None, (bt_set_dev dev tree)\<lparr>bt_next := Suc ?p, bt_heap := (bt_heap tree)(?p := None)\<rparr>))"
    proof (rule wp_dio_clu_put [OF 1(1) pin])
      fix dev2
      assume 2: "dio_good 65536 dev2" "content (dio_abs dev2) = content (dio_abs dev1)"
        "pins (dio_abs dev2) = (pins (dio_abs dev1))(b := pins (dio_abs dev1) b - 1)"
      have "dio_abs dev2 = dio_abs (bt_dev tree)"
        by (rule flat_store.equality) (use 1 2 in simp_all)
      then show "if disk_good ?n then Q (Some ?p, bt_cached ?p ?n (bt_set_dev dev2 tree))
        else Q (None, (bt_set_dev dev2 tree)\<lparr>bt_next := Suc ?p, bt_heap := (bt_heap tree)(?p := None)\<rparr>)"
        using good [OF 2(1) _ _ wf] bad [OF 2(1)] by simp
    qed
    then have w: "wpo (dio_clu_put dev1 b) (\<lambda>dev. wpo (if \<not> disk_good ?n
        then do { tree \<leftarrow> nkfs_btree_node_free ?p (set_node ?p ?n (?t dev)); Some (None, tree) }
        else do {
          (inserted, tree) \<leftarrow> nkfs_btree_nodes_insert ?p (set_node ?p ?n (?t dev));
          if inserted \<noteq> ?p then do { tree \<leftarrow> nkfs_btree_node_free ?p tree; Some (Some inserted, tree) }
          else do { tree \<leftarrow> nkfs_btree_node_deref ?p tree; Some (Some ?p, tree) }
        }) Q)"
    proof (rule wpo_mono)
      fix dev assume "if disk_good ?n then Q (Some ?p, bt_cached ?p ?n (bt_set_dev dev tree))
        else Q (None, (bt_set_dev dev tree)\<lparr>bt_next := Suc ?p, bt_heap := (bt_heap tree)(?p := None)\<rparr>)"
      then show "wpo (if \<not> disk_good ?n
        then do { tree \<leftarrow> nkfs_btree_node_free ?p (set_node ?p ?n (?t dev)); Some (None, tree) }
        else do {
          (inserted, tree) \<leftarrow> nkfs_btree_nodes_insert ?p (set_node ?p ?n (?t dev));
          if inserted \<noteq> ?p then do { tree \<leftarrow> nkfs_btree_node_free ?p tree; Some (Some inserted, tree) }
          else do { tree \<leftarrow> nkfs_btree_node_deref ?p tree; Some (Some ?p, tree) }
        }) Q"
        using assms(3)
        by (cases "disk_good ?n") (simp_all add: nkfs_btree_node_free_def nkfs_btree_nodes_insert_def nkfs_btree_node_ref_def
            nkfs_btree_node_deref_def mod_node_def set_node_def bt_cached_def bt_set_dev_def)
    qed
    have h: "bt_heap (?t dev1) ?p = Some ?new" "ddev (bt_sb (?t dev1)) = dev1"
      by (simp_all add: set_node_def bt_set_dev_def)
    show ?thesis
      unfolding node_read_clu_def h bind.bind_lunit dn Let_def disk_node_def [symmetric] chk
      using w by (simp add: set_dev_swap split del: if_split cong: if_cong)
  qed
  have "wpo (dio_clu_get (bt_dev tree) b) (\<lambda>(ok, dev1). ok \<and> wpo (node_read_clu ?p b (?t dev1)) Q)"
    by (rule wp_dio_clu_get [OF g(1) i]) (simp add: step)
  then obtain dev1 where d: "dio_clu_get (bt_dev tree) b = Some (True, dev1)" and q: "wpo (node_read_clu ?p b (?t dev1)) Q"
    unfolding wpo_def [of "dio_clu_get _ _"] by auto
  have o: "on_tdev (\<lambda>dev. dio_clu_get dev b) ((set_node ?p ?new tree)\<lparr>bt_next := Suc ?p\<rparr>) = Some (True, ?t dev1)"
    using d by (simp add: on_tdev_def on_sb_def on_dev_def bt_dev_def set_node_def bt_set_dev_def)
  have m: "mod_node ?p (\<lambda>n. Some (n\<lparr>n_tree := True, n_block := b\<rparr>)) ((set_node ?p new_btree_node tree)\<lparr>bt_next := Suc ?p\<rparr>)
    = Some ((set_node ?p ?new tree)\<lparr>bt_next := Suc ?p\<rparr>)"
    by (simp add: mod_node_def set_node_def)
  have l: "nkfs_btree_nodes_lookup b tree = Some (None, tree)"
    by (simp add: nkfs_btree_nodes_lookup_def assms(3))
  show ?thesis
    using q b g(2) by (simp add: nkfs_btree_node_read_def l node_alloc_ok [OF assms(1)] m o)
qed

lemma wp_node_read_hit:
  assumes "bt_good tree" "block_ok tree b" "RBT.lookup (bt_nodes tree) b = Some p" "bt_heap tree p = Some n" "0 < n_ref n"
    and "Q (Some p, set_node p (n\<lparr>n_ref := n_ref n + 1\<rparr>) tree)"
  shows "wpo (nkfs_btree_node_read tree b) Q"
  using assms by (auto simp: nkfs_btree_node_read_def nkfs_btree_nodes_lookup_def nkfs_btree_node_ref_def mod_node_def bt_good_def block_ok_def)

section \<open>A node on disk\<close>

lemma decode_pages_cong: "(\<And>k. k < 16 \<Longrightarrow> f k = g k) \<Longrightarrow> decode_pages n f = decode_pages n g"
  by (simp add: decode_pages_def)

lemma node_data_cong:
  assumes "n_keys m = n_keys n" "n_children m = n_children n" "n_values m = n_values n"
    and "h_sig1 (n_header m) = h_sig1 (n_header n)" "h_leaf (n_header m) = h_leaf (n_header n)" "h_nr_keys (n_header m) = h_nr_keys (n_header n)"
    and "h_pad (n_header m) = h_pad (n_header n)" "length (h_pad (n_header n)) = 4072"
  shows "node_data m = node_data n"
  using assms by (simp add: node_data_def header_page_bytes_def)

lemma disk_node_image:
  assumes "node_ready tree n" "bt_content tree' (n_block n) = v" "block_pages v (image_page (node_written n) f)"
  shows "disk_node tree' (n_block n) = (node_written n)\<lparr>n_ref := 1, n_keys := n_keys (reread n)\<rparr>"
proof -
  have wf: "node_wf n" "n_t n = NKFS_BTREE_T" "n_sig1 n = NKFS_BTREE_SIG1" "n_sig2 n = NKFS_BTREE_SIG2" "n_tree n"
    using assms(1) by (auto simp: node_ready_def node_wf_def)
  have r: "n_keys (reread (node_written n)) = n_keys (reread n)"
    by (simp add: reread_def child_page_image_def)
  have d: "decode_pages m (page_at v) = m\<lparr>n_header := n_header (node_written n), n_keys := n_keys (reread n),
      n_children := n_children n, n_values := n_values n\<rparr>" for m
    using decode_pages_cong [of "page_at v" "image_page (node_written n) f" m] assms(3) decode_image [of "node_written n" m f] wf(1)
    by (simp add: block_pages_def r)
  show ?thesis
    unfolding disk_node_def assms(2) d
    by (rule nkfs_btree_node.equality)
      (simp_all add: node_parsed_def new_btree_node_def nkfs_btree_node_zero_pages_def wf node_written_def node_head_def)
qed

definition node_collides :: "nkfs_btree_node \<Rightarrow> bool" where
  "node_collides n \<longleftrightarrow> XXH64 (node_data ((node_written n)\<lparr>n_keys := n_keys (reread n)\<rparr>)) 0 = XXH64 (node_data (node_written n)) 0"

lemma disk_good_image:
  assumes "node_ready tree n" "bt_content tree' (n_block n) = v" "block_pages v (image_page (node_written n) f)"
  shows "disk_good (disk_node tree' (n_block n)) \<longleftrightarrow> node_collides n"
proof -
  have p: "length (h_pad (n_header n)) = 4072" "n_sig1 n = NKFS_BTREE_SIG1" "n_sig2 n = NKFS_BTREE_SIG2"
    using assms(1) by (simp_all add: node_ready_def node_wf_def)
  have h: "h_sum (n_header (node_written n)) = XXH64 (node_data (node_written n)) 0"
    using node_data_cong [of "node_written n" "node_head n"] p by (simp add: node_written_def node_head_def)
  have "node_data ((node_written n)\<lparr>n_ref := 1, n_keys := n_keys (reread n)\<rparr>) = node_data ((node_written n)\<lparr>n_keys := n_keys (reread n)\<rparr>)"
    by (rule node_data_cong) (use p in \<open>simp_all add: node_written_def node_head_def\<close>)
  then show ?thesis
    using h p unfolding disk_node_image [OF assms] disk_good_def node_collides_def by auto
qed

lemma disk_ok_collides: "node_wf n \<Longrightarrow> node_disk_ok n \<Longrightarrow> node_collides n"
  using reread_id_iff [of n] by (simp add: node_collides_def node_written_def node_head_def)

end
