(* ===== verification/Btree_Map.thy ===== *)
theory Btree_Map
  imports Btree_Store
begin

text \<open>
  The tree as a finite map.  \<open>node_map\<close> is the map of a node's pairs;
  \<open>leaf_tree\<close> describes a tree whose root is a leaf, in memory and on disk, and
  insertion, lookup and deletion on it are the map's (\<open>btree_step_sim\<close>, which
  makes the tree an instance of \<open>forward_sim\<close>).  Creating a tree establishes the
  invariant and loading it from its root block restores it.  The last section
  shows where the source stops: rereading a node whose key pages lie under its
  child pages, and removing a child from a node.
\<close>

section \<open>The pairs of a node as a map\<close>

definition node_map :: "nkfs_btree_node \<Rightarrow> nkfs_btree_key \<rightharpoonup> u64" where
  "node_map n = map_of (node_kvs n)"

lemma node_sorted_distinct: "node_sorted n \<Longrightarrow> distinct (map fst (node_kvs n))"
  unfolding distinct_conv_nth node_sorted_def node_key_at_def node_kvs_def
  by (simp add: nth_append) (metis linorder_neqE_nat order_less_irrefl)

lemma node_map_iff: "node_sorted n \<Longrightarrow> node_map n k = Some v \<longleftrightarrow> (k, v) \<in> set (node_kvs n)"
  unfolding node_map_def using node_sorted_distinct [of n] by (rule map_of_eq_Some_iff)

lemma node_map_lookup:
  assumes "node_sorted n"
  shows "node_map n key = (if key_found n key then Some (snd (node_kv n (key_pos n key))) else None)"
proof (cases "key_found n key")
  case True
  then have "(key, snd (node_kv n (key_pos n key))) \<in> set (node_kvs n)"
    by (auto simp: key_found_def node_kvs_def node_key_at_def image_iff intro!: bexI [of _ "key_pos n key"] prod_eqI)
  then show ?thesis
    using True node_map_iff [OF assms] by simp
next
  case False
  then show ?thesis
    using key_found_list [OF assms] by (simp add: node_map_def map_of_eq_None_iff)
qed

lemma node_map_card: "node_sorted n \<Longrightarrow> card (dom (node_map n)) = node_nr n"
proof -
  assume "node_sorted n"
  then have "card (set (map fst (node_kvs n))) = length (map fst (node_kvs n))"
    by (intro distinct_card node_sorted_distinct)
  moreover have "dom (node_map n) = set (map fst (node_kvs n))"
    by (simp add: node_map_def dom_map_of_conv_image_fst)
  moreover have "length (map fst (node_kvs n)) = node_nr n"
    by (simp add: node_kvs_def)
  ultimately show ?thesis
    by simp
qed

lemma map_of_eqI:
  assumes "distinct (map fst xs)" "\<And>k v. (k, v) \<in> set xs \<longleftrightarrow> m k = Some v"
  shows "map_of xs = m"
proof
  fix k
  show "map_of xs k = m k"
    using assms map_of_eq_Some_iff [OF assms(1), of k] by (cases "m k"; cases "map_of xs k") auto
qed

lemma set_insert_at: "set (insert_at i x xs) = insert x (set xs)"
  unfolding insert_at_def by (metis append_take_drop_id insert_commute list.set(2) set_append Un_insert_right)

lemma sorted_insert:
  assumes "node_sorted n" "\<not> key_found n k" "node_nr n' = Suc (node_nr n)"
    and "node_kv n' = (\<lambda>j. if j = key_pos n k then (k, v) else if key_pos n k < j \<and> j \<le> node_nr n then node_kv n (j - 1) else node_kv n j)"
  shows "node_sorted n'" "node_map n' = (node_map n)(k \<mapsto> v)"
proof -
  let ?p = "key_pos n k"
  have p: "?p \<le> node_nr n"
    by (rule key_pos_le)
  have key: "node_key_at n' j = (if j = ?p then k else if ?p < j \<and> j \<le> node_nr n then node_key_at n (j - 1) else node_key_at n j)" for j
    using assms(4) by (simp add: node_key_at_def)
  have lo: "node_key_at n i < k" if "i < ?p" for i
    by (rule key_pos_below [OF that])
  have hi: "k < node_key_at n i" if "?p \<le> i" "i < node_nr n" for i
    using key_not_found(2) [OF assms(1,2) that(2)] that(1) by simp
  have mono: "node_key_at n i < node_key_at n j" if "i < j" "j < node_nr n" for i j
    using assms(1) that by (simp add: node_sorted_def)
  show s: "node_sorted n'"
    unfolding node_sorted_def
  proof (intro allI impI, elim conjE)
    fix i j assume ij: "i < j" "j < node_nr n'"
    then have j: "j \<le> node_nr n"
      using assms(3) by simp
    consider "j < ?p" | "j = ?p" | "?p < j" "i < ?p" | "?p < j" "i = ?p" | "?p < i"
      using ij by linarith
    then show "node_key_at n' i < node_key_at n' j"
    proof cases
      case 1
      then show ?thesis using mono [of i j] ij p by (simp add: key)
    next
      case 2
      then show ?thesis using lo [of i] ij by (simp add: key)
    next
      case 3
      then show ?thesis
        using lo [of i] hi [of "j - 1"] j by (simp add: key) (rule less_trans [of _ k]; simp)
    next
      case 4
      then show ?thesis using hi [of "j - 1"] j by (simp add: key)
    next
      case 5
      then show ?thesis using mono [of "i - 1" "j - 1"] ij j by (simp add: key)
    qed
  qed
  have kvs: "node_kvs n' = insert_at ?p (k, v) (node_kvs n)"
    unfolding node_kvs_def assms(3) by (rule shifted_map [OF p]) (simp add: assms(4))
  show "node_map n' = (node_map n)(k \<mapsto> v)"
    unfolding node_map_def
  proof (rule map_of_eqI)
    show "distinct (map fst (node_kvs n'))"
      by (rule node_sorted_distinct [OF s])
    have "k \<notin> set (map fst (node_kvs n))"
      using key_found_list [OF assms(1)] assms(2) by simp
    then show "(k', v') \<in> set (node_kvs n') \<longleftrightarrow> ((map_of (node_kvs n))(k \<mapsto> v)) k' = Some v'" for k' v'
      using node_map_iff [OF assms(1), of k' v'] by (force simp: kvs set_insert_at node_map_def)
  qed
qed

lemma sorted_replace:
  assumes "node_sorted n" "key_found n k" "node_nr n' = node_nr n" "node_kv n' = (node_kv n)(key_pos n k := (k, v))"
  shows "node_sorted n'" "node_map n' = (node_map n)(k \<mapsto> v)"
proof -
  let ?p = "key_pos n k"
  have p: "?p < node_nr n" "node_key_at n ?p = k"
    using assms(2) by (simp_all add: key_found_def)
  have key: "node_key_at n' = node_key_at n"
    using p(2) by (auto simp: fun_eq_iff node_key_at_def assms(4))
  then show s: "node_sorted n'"
    using assms(1,3) by (simp add: node_sorted_def)
  have pos: "key_pos n' k' = key_pos n k'" "key_found n' k' = key_found n k'" for k'
    by (simp_all add: key_pos_def key_found_def key assms(3))
  show "node_map n' = (node_map n)(k \<mapsto> v)"
  proof
    fix k'
    have "key_pos n k' \<noteq> ?p" if "key_found n k'" "k' \<noteq> k"
      using that p by (auto simp: key_found_def)
    then show "node_map n' k' = ((node_map n)(k \<mapsto> v)) k'"
      using assms(2) by (auto simp: node_map_lookup [OF s] node_map_lookup [OF assms(1)] pos assms(4))
  qed
qed

lemma sorted_delete:
  assumes "node_sorted n" "key_found n k" "node_nr n' = node_nr n - 1"
    and "\<And>j. j < node_nr n - 1 \<Longrightarrow> node_kv n' j = (if key_pos n k \<le> j then node_kv n (j + 1) else node_kv n j)"
  shows "node_sorted n'" "node_map n' = (node_map n)(k := None)"
proof -
  let ?p = "key_pos n k"
  have p: "?p < node_nr n" "node_key_at n ?p = k"
    using assms(2) by (simp_all add: key_found_def)
  have mono: "node_key_at n i < node_key_at n j" if "i < j" "j < node_nr n" for i j
    using assms(1) that by (simp add: node_sorted_def)
  have key: "node_key_at n' j = (if ?p \<le> j then node_key_at n (j + 1) else node_key_at n j)" if "j < node_nr n - 1" for j
    using assms(4) [OF that] by (simp add: node_key_at_def)
  show s: "node_sorted n'"
    unfolding node_sorted_def assms(3)
  proof (intro allI impI, elim conjE)
    fix i j assume ij: "i < j" "j < node_nr n - 1"
    show "node_key_at n' i < node_key_at n' j"
      using key [of i] key [of j] ij mono [of i j] mono [of "i + 1" "j + 1"] mono [of i "j + 1"] by auto
  qed
  have set: "(k', v') \<in> set (node_kvs n') \<longleftrightarrow> (k', v') \<in> set (node_kvs n) \<and> k' \<noteq> k" for k' v'
  proof
    assume "(k', v') \<in> set (node_kvs n')"
    then obtain j where j: "j < node_nr n - 1" "node_kv n' j = (k', v')"
      by (auto simp: node_kvs_def assms(3))
    define i where "i = (if ?p \<le> j then j + 1 else j)"
    have "node_kv n i = (k', v')" "i < node_nr n" "i \<noteq> ?p"
      using j assms(4) [OF j(1)] by (auto simp: i_def split: if_splits)
    moreover from this have "node_key_at n i \<noteq> node_key_at n ?p"
      using mono [of i ?p] mono [of ?p i] p(1) by (cases i ?p rule: linorder_cases) auto
    ultimately show "(k', v') \<in> set (node_kvs n) \<and> k' \<noteq> k"
      using p(2) by (force simp: node_kvs_def node_key_at_def)
  next
    assume "(k', v') \<in> set (node_kvs n) \<and> k' \<noteq> k"
    then obtain i where i: "i < node_nr n" "node_kv n i = (k', v')" "k' \<noteq> k"
      by (auto simp: node_kvs_def)
    then have ne: "i \<noteq> ?p"
      using p(2) by (auto simp: node_key_at_def)
    define j where "j = (if i < ?p then i else i - 1)"
    have "j < node_nr n - 1" "node_kv n' j = (k', v')"
      using i ne p(1) assms(4) [of j] by (auto simp: j_def split: if_splits)
    then show "(k', v') \<in> set (node_kvs n')"
      by (force simp: node_kvs_def assms(3))
  qed
  show "node_map n' = (node_map n)(k := None)"
    unfolding node_map_def [of n']
    by (rule map_of_eqI [OF node_sorted_distinct [OF s]]) (use node_map_iff [OF assms(1)] set in auto)
qed

section \<open>A tree of one leaf\<close>

text \<open>
  The root is a leaf, in memory and in the node cache, and its block holds its
  image; behind its keys the pages are zero.
\<close>

definition node_clean :: "nkfs_btree_node \<Rightarrow> bool" where
  "node_clean n \<longleftrightarrow> (\<forall>j. node_nr n \<le> j \<and> j < 1792 \<longrightarrow> node_kv n j = (replicate 16 0, 0)) \<and> (\<forall>j < 2048. node_ch n j = 0)"

definition leaf_at :: "nat \<Rightarrow> nkfs_btree_node \<Rightarrow> nkfs_btree \<Rightarrow> bool" where
  "leaf_at p n tree \<longleftrightarrow> bt_good tree \<and> \<not> bt_releasing tree \<and> bt_root tree = Some p \<and> bt_heap tree p = Some n
     \<and> node_ready tree n \<and> n_leaf n \<noteq> 0 \<and> node_nr n \<le> 1791 \<and> node_sorted n \<and> node_clean n \<and> n_ref n = 1
     \<and> bt_nodes_active tree = 1 \<and> bt_ref tree = 1 \<and> bt_sig1 tree = NKFS_BTREE_SIG1 \<and> RBT.lookup (bt_nodes tree) (n_block n) = Some p
     \<and> (\<exists>f. block_pages (bt_content tree (n_block n)) (image_page (node_written n) f))"

definition leaf_tree :: "nkfs_btree \<Rightarrow> bool" where
  "leaf_tree tree \<longleftrightarrow> (\<exists>p n. leaf_at p n tree)"

definition bt_map :: "nkfs_btree \<Rightarrow> nkfs_btree_key \<rightharpoonup> u64" where
  "bt_map tree = (case bt_root tree of None \<Rightarrow> Map.empty
    | Some p \<Rightarrow> (case bt_heap tree p of None \<Rightarrow> Map.empty | Some n \<Rightarrow> node_map n))"

lemma leaf_at_map: "leaf_at p n tree \<Longrightarrow> bt_map tree = node_map n"
  by (simp add: leaf_at_def bt_map_def)

text \<open>
  What an operation leaves alone: the superblock but for its device, the pins, and
  the content of all blocks but one.
\<close>

definition sb_frame_block :: "nkfs_sb \<Rightarrow> u64 \<Rightarrow> nkfs_sb \<Rightarrow> bool" where
  "sb_frame_block sb b sb' \<longleftrightarrow> sb' = sb\<lparr>ddev := ddev sb'\<rparr> \<and> dio_good 65536 (ddev sb') \<and> pins (dio_abs (ddev sb')) = pins (dio_abs (ddev sb))
     \<and> (\<forall>i. i \<noteq> b \<longrightarrow> content (dio_abs (ddev sb')) i = content (dio_abs (ddev sb)) i)"

abbreviation tree_frame :: "nkfs_btree \<Rightarrow> u64 \<Rightarrow> nkfs_btree \<Rightarrow> bool" where
  "tree_frame tree b tree' \<equiv> sb_frame_block (bt_sb tree) b (bt_sb tree')"

lemma sb_frame_block_refl: "dio_good 65536 (ddev sb) \<Longrightarrow> sb_frame_block sb b sb"
  by (simp add: sb_frame_block_def)

lemma sb_frame_block_trans: "sb_frame_block sb b sb' \<Longrightarrow> sb_frame_block sb' b sb'' \<Longrightarrow> sb_frame_block sb b sb''"
proof -
  assume a: "sb_frame_block sb b sb'" "sb_frame_block sb' b sb''"
  obtain d d' where "sb' = sb\<lparr>ddev := d\<rparr>" "sb'' = sb'\<lparr>ddev := d'\<rparr>"
    using a unfolding sb_frame_block_def by blast
  then show "sb_frame_block sb b sb''"
    using a by (simp add: sb_frame_block_def)
qed

lemma sb_frame_block_fields:
  assumes "sb_frame_block sb b sb'"
  shows "bsize sb' = bsize sb" "nr_blocks sb' = nr_blocks sb" "bm_block sb' = bm_block sb" "bm_blocks sb' = bm_blocks sb" "used_blocks sb' = used_blocks sb"
proof -
  obtain d where "sb' = sb\<lparr>ddev := d\<rparr>"
    using assms unfolding sb_frame_block_def by blast
  then show "bsize sb' = bsize sb" "nr_blocks sb' = nr_blocks sb" "bm_block sb' = bm_block sb" "bm_blocks sb' = bm_blocks sb" "used_blocks sb' = used_blocks sb"
    by simp_all
qed

lemma bt_sb_frame:
  assumes "dio_good 65536 dev" "pins (dio_abs dev) = bt_pins tree" "content (dio_abs dev) = (bt_content tree)(b := v)"
  shows "sb_frame_block (bt_sb tree) b ((bt_sb tree)\<lparr>ddev := dev\<rparr>)"
  using assms by (simp add: sb_frame_block_def bt_pins_def bt_content_def bt_dev_def)

text \<open>Storing a changed leaf.\<close>

lemma node_written_idem: "node_wf n \<Longrightarrow> node_written (node_written n) = node_written n"
proof -
  assume "node_wf n"
  then have "node_data (node_head (node_written n)) = node_data (node_head n)"
    by (intro node_data_cong) (simp_all add: node_written_def node_head_def node_wf_def)
  then show ?thesis
    by (simp add: node_written_def [of "node_written n"]) (simp add: node_written_def node_head_def)
qed

lemma wp_leaf_write:
  assumes "leaf_at p n tree" "node_wf n'" "node_nr n' \<le> 1791" "node_sorted n'" "node_clean n'"
    and "n' = n\<lparr>n_keys := n_keys n', n_values := n_values n', n_children := n_children n', n_nr_keys := n_nr_keys n'\<rparr>"
    and "\<And>tree' n''. leaf_at p n'' tree' \<Longrightarrow> node_map n'' = node_map n' \<Longrightarrow> n_block n'' = n_block n \<Longrightarrow> tree_frame tree (n_block n) tree' \<Longrightarrow> Q (0, tree')"
  shows "wpo (nkfs_btree_node_write p (set_node p n' tree)) Q"
proof -
  have f: "n_sig1 n' = n_sig1 n" "n_sig2 n' = n_sig2 n" "n_tree n' = n_tree n" "n_block n' = n_block n" "n_leaf n' = n_leaf n" "n_ref n' = n_ref n"
    by (subst assms(6), simp)+
  have a: "bt_good tree" "bt_root tree = Some p" "node_ready tree n" "\<not> bt_releasing tree" "RBT.lookup (bt_nodes tree) (n_block n) = Some p"
    "n_leaf n \<noteq> 0" "n_ref n = 1" "bt_nodes_active tree = 1" "bt_ref tree = 1" "bt_sig1 tree = NKFS_BTREE_SIG1"
    using assms(1) by (auto simp: leaf_at_def)
  have r: "node_ready (set_node p n' tree) n'"
    using a(3) assms(2) by (simp add: node_ready_def f block_ok_def)
  show ?thesis
  proof (rule wp_node_write [of "set_node p n' tree" p n', OF _ _ r])
    fix dev v
    assume d: "dio_good 65536 dev" "content (dio_abs dev) = (bt_content (set_node p n' tree))(n_block n' := v)"
      and pins: "pins (dio_abs dev) = bt_pins (set_node p n' tree)"
      and img: "block_pages v (image_page (node_written n') (page_at (bt_content (set_node p n' tree) (n_block n'))))"
    let ?t = "set_node p (node_written n') (bt_set_dev dev (set_node p n' tree))"
    have "leaf_at p (node_written n') ?t"
      unfolding leaf_at_def
    proof (intro conjI)
      show "node_sorted (node_written n')"
        using assms(4) by (simp add: node_sorted_def node_key_at_def)
      show "node_clean (node_written n')"
        using assms(5) by (simp add: node_clean_def)
      show "\<exists>f. block_pages (bt_content ?t (n_block (node_written n'))) (image_page (node_written (node_written n')) f)"
        using d(2) img by (auto simp: node_written_idem [OF assms(2)] bt_content_def)
      show "node_ready ?t (node_written n')"
        using r by (simp add: node_ready_def block_ok_def)
    qed (use a d(1) f assms(3) in \<open>simp_all add: bt_good_def set_dev_swap\<close>)
    moreover have "node_map (node_written n') = node_map n'"
      by (simp add: node_map_def)
    moreover have "tree_frame tree (n_block n) ?t"
      using bt_sb_frame [of dev tree "n_block n" v] d pins f by (simp add: bt_content_def bt_pins_def set_node_def bt_set_dev_def bt_dev_def)
    ultimately show "Q (0, ?t)"
      using assms(7) f by simp
  qed (use a in simp_all)
qed

lemma leaf_at_nr: "leaf_at p n tree \<Longrightarrow> card (dom (bt_map tree)) = node_nr n"
  by (simp add: leaf_at_map node_map_card) (simp add: leaf_at_def node_map_card)

lemma leaf_find_key:
  assumes "leaf_at p n tree" "length key = 16"
  shows "nkfs_btree_find_key tree key = Some (case node_map n key of None \<Rightarrow> Inl (- ENOENT) | Some v \<Rightarrow> Inr v, tree)"
proof -
  have a: "bt_heap tree p = Some n" "bt_root tree = Some p" "\<not> bt_releasing tree" "node_wf n" "n_leaf n \<noteq> 0" "node_nr n \<le> 1791" "node_sorted n"
    "n_ref n = 1"
    using assms(1) by (auto simp: leaf_at_def node_ready_def)
  let ?i = "key_pos n key"
  have i: "nkfs_btree_node_find_key_index n key = Some (int ?i)"
    by (rule find_key_index_ok) (use a assms(2) in simp_all)
  have lt: "int ?i < uint (n_nr_keys n) \<longleftrightarrow> ?i < node_nr n"
    by (metis node_nr_def of_nat_less_iff uint_nat)
  have g: "get_key n (int ?i) = Some (node_key_at n ?i)" "get_value n (int ?i) = Some (snd (node_kv n ?i))" if "?i < node_nr n"
    using that a(6) get_key_ok [of ?i n] get_value_ok [of ?i n] by (simp_all add: node_key_at_def)
  have c: "nkfs_btree_cmp_key key (node_key_at n ?i) = 0 \<longleftrightarrow> key = node_key_at n ?i" if "?i < node_nr n"
    using cmp_key_order [OF a(4) _ assms(2), of ?i] that a(6) by simp
  have z: "n_nr_keys n = 0 \<longleftrightarrow> node_nr n = 0"
    by (simp add: node_nr_def unat_eq_0)
  have m: "node_map n key = (if key_found n key then Some (snd (node_kv n ?i)) else None)"
    by (rule node_map_lookup [OF a(7)])
  have ref: "nkfs_btree_node_ref p tree = Some (set_node p (n\<lparr>n_ref := n_ref n + 1\<rparr>) tree)"
    using a by (simp add: nkfs_btree_node_ref_def mod_node_def)
  have back_id: "set_node p n tree = tree"
    using a(1) by (simp add: set_node_def fun_upd_idem)
  have gv: "get_value (n\<lparr>n_ref := r\<rparr>) j = get_value n j" for r j
    by (simp add: get_value_def)
  have "n\<lparr>n_ref := 1\<rparr> = n"
    using a(8) by (intro nkfs_btree_node.equality) simp_all
  then have back_ref: "set_node p (n\<lparr>n_ref := 1\<rparr>) tree = tree"
    by (simp only: back_id)
  show ?thesis
  proof (cases "key_found n key")
    case True
    then have t: "?i < node_nr n" "key = node_key_at n ?i"
      by (simp_all add: key_found_def)
    then show ?thesis
      using a True z i lt g c ref back_ref gv m
      by (simp add: nkfs_btree_find_key_def nkfs_btree_node_find_key_def nkfs_btree_find_loop.simps [of p _ p]
          nkfs_btree_node_deref_def mod_node_def)
  next
    case False
    then have "\<not> (?i < node_nr n \<and> key = node_key_at n ?i)"
      by (auto simp: key_found_def)
    then show ?thesis
      using a False z i lt g c m
      by (auto simp: nkfs_btree_find_key_def nkfs_btree_node_find_key_def nkfs_btree_find_loop.simps [of p _ p] deref_unless_def)
  qed
qed

lemma wp_set_value:
  assumes "node_wf n" "i < 1792"
    and "\<And>n'. node_wf n' \<Longrightarrow> node_same n n' \<Longrightarrow> node_kv n' = (node_kv n)(i := (fst (node_kv n i), v)) \<Longrightarrow> node_ch n' = node_ch n \<Longrightarrow> Q n'"
  shows "wpo (set_value n (int i) v) Q"
proof -
  have "set_key n (int i) (fst (node_kv n i)) = Some n"
    using assms(2) by (simp add: set_key_def node_key_place node_kv_def)
  then have "set_value n (int i) v = nkfs_btree_node_copy_key_value n (int i) (fst (node_kv n i)) v"
    by (simp add: nkfs_btree_node_copy_key_value_def)
  then show ?thesis
    using wp_copy_key_value [OF assms(1,2), of "fst (node_kv n i)" v Q] node_kv_key_length [OF assms(1,2)] assms(3) by simp
qed

lemma wp_leaf_insert:
  assumes "leaf_at p n tree" "length key = 16" "node_nr n < 1791"
    and new: "\<And>tree' n'. node_map n key = None \<or> replace \<Longrightarrow> leaf_at p n' tree' \<Longrightarrow> node_map n' = (node_map n)(key \<mapsto> value) \<Longrightarrow>
      n_block n' = n_block n \<Longrightarrow> tree_frame tree (n_block n) tree' \<Longrightarrow> Q (0, tree')"
    and old: "node_map n key \<noteq> None \<Longrightarrow> \<not> replace \<Longrightarrow> Q (- EEXIST, tree)"
  shows "wpo (nkfs_btree_insert_key tree key value replace) Q"
proof -
  have a: "bt_heap tree p = Some n" "bt_root tree = Some p" "\<not> bt_releasing tree" "node_wf n" "n_leaf n \<noteq> 0" "node_nr n \<le> 1791" "node_sorted n"
    "n_ref n = 1" "node_clean n"
    using assms(1) by (auto simp: leaf_at_def node_ready_def)
  let ?i = "key_pos n key"
  have i: "nkfs_btree_node_find_key_index n key = Some (int ?i)"
    by (rule find_key_index_ok) (use a assms(2) in simp_all)
  have h: "nkfs_btree_node_has_key n key = Some (if key_found n key then int ?i else - 1)"
    by (rule has_key_ok) (use a assms(2) in simp_all)
  have m: "node_map n key = None \<longleftrightarrow> \<not> key_found n key"
    by (simp add: node_map_lookup [OF a(7)])
  have f: "\<not> nkfs_btree_node_is_full n"
    using assms(3) by (simp add: full_nr)
  note clean = a(9) [unfolded node_clean_def]
  have nr: "unat (n_nr_keys n + 1) = Suc (node_nr n)"
    using assms(3) by (simp add: node_nr_def unat_word_ariths)
  have "wpo (nkfs_btree_node_insert_loop p key value replace p tree) Q"
  proof (cases "key_found n key")
    case True
    show ?thesis
    proof (cases replace)
      case False
      then show ?thesis
        using old True m a by (simp add: nkfs_btree_node_insert_loop.simps [of p] h deref_unless_def)
    next
      case r: True
      have "wpo (set_value n (int ?i) value) (\<lambda>n'. wpo (nkfs_btree_node_write p (set_node p n' tree)) (\<lambda>(_, tree). Q (0, tree)))"
      proof (rule wp_set_value)
        show "node_wf n" "?i < 1792"
          using a key_pos_le [of n key] by simp_all
        fix n'
        assume n': "node_wf n'" "node_same n n'" "node_ch n' = node_ch n" "node_kv n' = (node_kv n)(?i := (fst (node_kv n ?i), value))"
        have kv: "node_kv n' = (node_kv n)(?i := (key, value))"
          using n'(4) True by (simp add: key_found_def node_key_at_def)
        note s = sorted_replace [OF a(7) True node_same_nr [OF n'(2)] kv]
        show "wpo (nkfs_btree_node_write p (set_node p n' tree)) (\<lambda>(_, tree). Q (0, tree))"
        proof (rule wp_leaf_write [OF assms(1) n'(1)])
          show "node_clean n'"
            using clean True by (auto simp: node_clean_def node_same_nr [OF n'(2)] n'(3) kv key_found_def)
          show "n' = n\<lparr>n_keys := n_keys n', n_values := n_values n', n_children := n_children n', n_nr_keys := n_nr_keys n'\<rparr>"
            by (rule nkfs_btree_node.equality) (simp_all add: node_same_fields [OF n'(2)])
        qed (use s new r a(6) node_same_nr [OF n'(2)] in auto)
      qed
      then show ?thesis
        using True r a by (auto simp: nkfs_btree_node_insert_loop.simps [of p] h deref_unless_def elim!: wpo_mono)
    qed
  next
    case False
    have "wpo (nkfs_btree_node_put_key_value n (int ?i) key value) (\<lambda>n'.
        wpo (nkfs_btree_node_write p (set_node p (n'\<lparr>n_nr_keys := n_nr_keys n' + 1\<rparr>) tree)) (\<lambda>(_, tree). Q (0, tree)))"
    proof (rule wp_put_key_value [OF a(4) key_pos_le assms(3,2)])
      fix n'
      assume n': "node_wf n'" "node_same n n'" "node_ch n' = node_ch n"
        "node_kv n' = (\<lambda>j. if j = ?i then (key, value) else if ?i < j \<and> j \<le> node_nr n then node_kv n (j - 1) else node_kv n j)"
      let ?n = "n'\<lparr>n_nr_keys := n_nr_keys n' + 1\<rparr>"
      have same: "n_nr_keys n' = n_nr_keys n"
        by (rule node_same_fields [OF n'(2)])
      have nr': "node_nr ?n = Suc (node_nr n)"
        using nr by (simp add: node_nr_def same)
      have v: "node_kv ?n = node_kv n'" "node_ch ?n = node_ch n'"
        by (simp_all add: node_kv_def node_ch_def fun_eq_iff)
      note s = sorted_insert [OF a(7) False nr' trans [OF v(1) n'(4)]]
      show "wpo (nkfs_btree_node_write p (set_node p ?n tree)) (\<lambda>(_, tree). Q (0, tree))"
      proof (rule wp_leaf_write [OF assms(1)])
        show "node_wf ?n"
          using n'(1) by (simp add: node_wf_def)
        show "node_clean ?n"
          using clean key_pos_le [of n key] unfolding node_clean_def nr' v n'(3,4) by auto
        show "?n = n\<lparr>n_keys := n_keys ?n, n_values := n_values ?n, n_children := n_children ?n, n_nr_keys := n_nr_keys ?n\<rparr>"
          by (rule nkfs_btree_node.equality) (simp_all add: node_same_fields [OF n'(2)])
      qed (use s new m False nr' assms(3) in auto)
    qed
    then show ?thesis
      using False a by (auto simp: nkfs_btree_node_insert_loop.simps [of p] h i deref_unless_def elim!: wpo_mono)
  qed
  then show ?thesis
    using a f by (simp add: nkfs_btree_insert_key_def nkfs_btree_node_insert_nonfull_def)
qed

lemma wp_leaf_delete:
  assumes "leaf_at p n tree" "length key = 16"
    and found: "\<And>tree' n'. node_map n key \<noteq> None \<Longrightarrow> leaf_at p n' tree' \<Longrightarrow> node_map n' = (node_map n)(key := None) \<Longrightarrow>
      n_block n' = n_block n \<Longrightarrow> tree_frame tree (n_block n) tree' \<Longrightarrow> Q (0, tree')"
    and none: "node_map n key = None \<Longrightarrow> Q (- ENOENT, tree)"
  shows "wpo (nkfs_btree_delete_key tree key) Q"
proof -
  have a: "bt_heap tree p = Some n" "bt_root tree = Some p" "\<not> bt_releasing tree" "node_wf n" "n_leaf n \<noteq> 0" "node_nr n \<le> 1791" "node_sorted n"
    "n_ref n = 1" "node_clean n"
    using assms(1) by (auto simp: leaf_at_def node_ready_def)
  let ?i = "key_pos n key"
  have h: "nkfs_btree_node_has_key n key = Some (if key_found n key then int ?i else - 1)"
    by (rule has_key_ok) (use a assms(2) in simp_all)
  have m: "node_map n key = None \<longleftrightarrow> \<not> key_found n key"
    by (simp add: node_map_lookup [OF a(7)])
  have "wpo (nkfs_btree_delete_loop p key p tree) Q"
  proof (cases "key_found n key")
    case False
    then show ?thesis
      using none m a by (simp add: nkfs_btree_delete_loop.simps [of p] h deref_unless_def)
  next
    case True
    then have i: "?i < node_nr n"
      by (simp add: key_found_def)
    have lt: "int ?i < uint (n_nr_keys n)"
      using i by (metis node_nr_def of_nat_less_iff uint_nat)
    have "wpo (nkfs_btree_node_delete_key_index n ?i) (\<lambda>n'.
        wpo (nkfs_btree_node_write p (set_node p (n'\<lparr>n_nr_keys := n_nr_keys n' - 1\<rparr>) tree)) (\<lambda>(_, tree). Q (0, tree)))"
    proof (rule wp_delete_key_index [OF a(4) i])
      fix n'
      assume n': "node_wf n'" "node_same n n'" "node_ch n' = node_ch n"
        "node_kv n' = (\<lambda>j. if j = node_nr n - 1 then (replicate 16 0, 0) else if ?i \<le> j \<and> j < node_nr n then node_kv n (j + 1) else node_kv n j)"
      let ?n = "n'\<lparr>n_nr_keys := n_nr_keys n' - 1\<rparr>"
      have "n_nr_keys n \<noteq> 0"
        using i by (auto simp: node_nr_def)
      then have nr': "node_nr ?n = node_nr n - 1"
        using node_same_fields(7) [OF n'(2)] by (simp add: node_nr_def unat_minus_one)
      have v: "node_kv ?n = node_kv n'" "node_ch ?n = node_ch n'"
        by (simp_all add: node_kv_def node_ch_def fun_eq_iff)
      have kv: "node_kv ?n j = (if ?i \<le> j then node_kv n (j + 1) else node_kv n j)" if "j < node_nr n - 1" for j
        using that by (auto simp: v n'(4))
      note s = sorted_delete [OF a(7) True nr' kv]
      show "wpo (nkfs_btree_node_write p (set_node p ?n tree)) (\<lambda>(_, tree). Q (0, tree))"
      proof (rule wp_leaf_write [OF assms(1)])
        show "node_wf ?n"
          using n'(1) by (simp add: node_wf_def)
        show "node_clean ?n"
          using a(9) i unfolding node_clean_def nr' v n'(3,4) by auto
        show "?n = n\<lparr>n_keys := n_keys ?n, n_values := n_values ?n, n_children := n_children ?n, n_nr_keys := n_nr_keys ?n\<rparr>"
          by (rule nkfs_btree_node.equality) (simp_all add: node_same_fields [OF n'(2)])
      qed (use s found m True nr' a(6) in auto)
    qed (use a(6) in simp)
    then show ?thesis
      using True a lt by (auto simp: nkfs_btree_delete_loop.simps [of p] h nkfs_btree_node_leaf_delete_key_def deref_unless_def elim!: wpo_mono)
  qed
  then show ?thesis
    using a by (simp add: nkfs_btree_delete_key_def nkfs_btree_node_delete_key_def)
qed

section \<open>The tree and the map\<close>

datatype btree_op = BInsert nkfs_btree_key u64 bool | BFind nkfs_btree_key | BDelete nkfs_btree_key

fun btree_step :: "btree_op \<Rightarrow> nkfs_btree \<Rightarrow> ((int + u64) \<times> nkfs_btree) option" where
  "btree_step (BInsert key value replace) tree = do {
     (err, tree) \<leftarrow> nkfs_btree_insert_key tree key value replace;
     Some (Inl err, tree)
   }"
| "btree_step (BFind key) tree = nkfs_btree_find_key tree key"
| "btree_step (BDelete key) tree = do {
     (err, tree) \<leftarrow> nkfs_btree_delete_key tree key;
     Some (Inl err, tree)
   }"

text \<open>The promise, for keys of 16 bytes and fewer pairs than a leaf holds.\<close>

fun map_step :: "btree_op \<Rightarrow> (nkfs_btree_key \<rightharpoonup> u64) \<Rightarrow> ((int + u64) \<times> (nkfs_btree_key \<rightharpoonup> u64)) option" where
  "map_step (BInsert key value replace) m =
     (if length key \<noteq> 16 \<or> 1791 \<le> card (dom m) then None
      else if m key = None \<or> replace then Some (Inl 0, m(key \<mapsto> value))
      else Some (Inl (- EEXIST), m))"
| "map_step (BFind key) m =
     (if length key \<noteq> 16 then None else Some (case m key of None \<Rightarrow> Inl (- ENOENT) | Some v \<Rightarrow> Inr v, m))"
| "map_step (BDelete key) m =
     (if length key \<noteq> 16 then None
      else if m key = None then Some (Inl (- ENOENT), m) else Some (Inl 0, m(key := None)))"

lemma btree_step_sim:
  assumes "leaf_tree tree" "map_step op (bt_map tree) = Some (r, m)"
  shows "\<exists>tree'. btree_step op tree = Some (r, tree') \<and> bt_map tree' = m \<and> leaf_tree tree'"
proof -
  obtain p n where l: "leaf_at p n tree"
    using assms(1) by (auto simp: leaf_tree_def)
  note b = leaf_at_map [OF l]
  have "wpo (btree_step op tree) (\<lambda>(r', tree'). r' = r \<and> bt_map tree' = m \<and> leaf_tree tree')"
  proof (cases op)
    case (BInsert key v replace)
    then have k: "length key = 16" "node_nr n < 1791"
      using assms(2) leaf_at_nr [OF l] by (auto split: if_splits)
    have "wpo (nkfs_btree_insert_key tree key v replace) (\<lambda>(err, tree'). Inl err = r \<and> bt_map tree' = m \<and> leaf_tree tree')"
      by (rule wp_leaf_insert [OF l k])
        (use assms(1,2) BInsert k b leaf_at_map in \<open>auto simp: leaf_tree_def split: if_splits\<close>)
    then show ?thesis
      using BInsert by (auto elim!: wpo_mono)
  next
    case (BFind key)
    then have "length key = 16"
      using assms(2) by (auto split: if_splits)
    then show ?thesis
      using BFind assms leaf_find_key [OF l] b by auto
  next
    case (BDelete key)
    then have k: "length key = 16"
      using assms(2) by (auto split: if_splits)
    have "wpo (nkfs_btree_delete_key tree key) (\<lambda>(err, tree'). Inl err = r \<and> bt_map tree' = m \<and> leaf_tree tree')"
      by (rule wp_leaf_delete [OF l k])
        (use assms(1,2) BDelete k b leaf_at_map in \<open>auto simp: leaf_tree_def split: if_splits\<close>)
    then show ?thesis
      using BDelete by (auto elim!: wpo_mono)
  qed
  then show ?thesis
    by (auto simp: wpo_def)
qed

interpretation leaf_sim: forward_sim btree_step map_step bt_map leaf_tree
  by unfold_locales (rule btree_step_sim)

section \<open>Creating a tree and loading it again\<close>

text \<open>A superblock whose blocks are 64 KiB and whose block 0 is reserved.\<close>

definition sb_tree_ok :: "nkfs_sb \<Rightarrow> bool" where
  "sb_tree_ok sb \<longleftrightarrow> sb_ok sb \<and> bsize sb = 65536 \<and> unat (nr_blocks sb) * 128 \<le> 2 ^ 64 \<and> bm_used sb 0
     \<and> (\<exists>b < unat (nr_blocks sb). \<not> bm_used sb b)"

lemma wpo_on_sb [simp]: "wpo (on_sb f tree) Q \<longleftrightarrow> wpo (f (bt_sb tree)) (\<lambda>(r, sb). Q (r, tree\<lparr>bt_sb := sb\<rparr>))"
  by (auto simp: on_sb_def wpo_def split: bind_splits prod.splits)

lemma wpo_mod_node [simp]: "wpo (mod_node p f tree) Q \<longleftrightarrow> (case bt_heap tree p of None \<Rightarrow> False | Some n \<Rightarrow> wpo (f n) (\<lambda>n. Q (set_node p n tree)))"
  by (auto simp: mod_node_def wpo_def split: bind_splits option.splits)

lemma node_map_new: "node_nr n = 0 \<Longrightarrow> node_map n = Map.empty \<and> node_sorted n"
  by (simp add: node_map_def node_kvs_def node_sorted_def)

lemma new_btree_node_ch: "j < 2048 \<Longrightarrow> node_ch new_btree_node j = 0"
  by (simp add: node_ch_def new_btree_node_def nkfs_btree_node_zero_pages_def less_mult_imp_div_less)

lemma insert_then_deref:
  assumes "bt_heap t p = Some n" "n_ref n = 1" "RBT.lookup (bt_nodes t) (n_block n) = None"
    and "Q (t\<lparr>bt_nodes := RBT.insert (n_block n) p (bt_nodes t), bt_nodes_active := bt_nodes_active t + 1\<rparr>)"
  shows "wpo (nkfs_btree_nodes_insert p t) (\<lambda>(i, t). i = p \<and> wpo (nkfs_btree_node_deref p t) Q)"
proof -
  have n: "n\<lparr>n_ref := 1\<rparr> = n"
    using assms(2) by (intro nkfs_btree_node.equality) simp_all
  have t: "t\<lparr>bt_nodes := a, bt_nodes_active := c, bt_heap := (bt_heap t)(p \<mapsto> n\<lparr>n_ref := 1\<rparr>)\<rparr> = t\<lparr>bt_nodes := a, bt_nodes_active := c\<rparr>" for a c
    using assms(1) unfolding n by (intro nkfs_btree.equality) (simp_all add: fun_upd_idem)
  show ?thesis
    using assms t by (simp add: nkfs_btree_nodes_insert_def nkfs_btree_node_ref_def nkfs_btree_node_deref_def mod_node_def set_node_def)
qed

lemma wp_node_create_first:
  assumes "bt_good tree" "sb_tree_ok (bt_sb tree)" "bt_nodes tree = RBT.empty"
    and "\<And>b (sb :: nkfs_sb) dev. b \<noteq> 0 \<Longrightarrow> b < nr_blocks (bt_sb tree) \<Longrightarrow> dio_good 65536 dev \<Longrightarrow> bsize sb = 65536 \<Longrightarrow> nr_blocks sb = nr_blocks (bt_sb tree) \<Longrightarrow>
      \<not> bm_used (bt_sb tree) (unat b) \<Longrightarrow> bm_changed (bt_sb tree) (unat b) True sb \<Longrightarrow>
      pins (dio_abs (ddev sb)) = pins (dio_abs (ddev (bt_sb tree))) \<Longrightarrow> sb_frame_block sb b (sb\<lparr>ddev := dev\<rparr>) \<Longrightarrow>
      Q (Some (bt_next tree), bt_cached (bt_next tree) (node_written (new_btree_node\<lparr>n_block := b, n_tree := True\<rparr>)) (bt_set_dev dev (tree\<lparr>bt_sb := sb\<rparr>)))"
  shows "wpo (nkfs_btree_node_create tree) Q"
proof -
  let ?p = "bt_next tree"
  let ?n = "\<lambda>b. new_btree_node\<lparr>n_block := b, n_tree := True\<rparr>"
  let ?t = "\<lambda>b sb. (set_node ?p (?n b) (tree\<lparr>bt_sb := sb\<rparr>))\<lparr>bt_next := Suc ?p\<rparr>"
  have ok: "sb_ok (bt_sb tree)" "bsize (bt_sb tree) = 65536" "unat (nr_blocks (bt_sb tree)) * 128 \<le> 2 ^ 64" "bm_used (bt_sb tree) 0"
    "\<exists>b < unat (nr_blocks (bt_sb tree)). \<not> bm_used (bt_sb tree) b"
    using assms(2) by (simp_all add: sb_tree_ok_def)
  have step: "wpo (nkfs_btree_node_write ?p (?t b sb)) (\<lambda>(err, tree). err = 0 \<and>
      wpo (nkfs_btree_nodes_insert ?p tree) (\<lambda>(i, tree). i = ?p \<and> wpo (nkfs_btree_node_deref ?p tree) (\<lambda>tree. Q (Some ?p, tree))))"
    if c: "b \<noteq> 0" "b < nr_blocks (bt_sb tree)" "bm_changed (bt_sb tree) (unat b) True sb" "\<not> bm_used (bt_sb tree) (unat b)"
      "pins (dio_abs (ddev sb)) = pins (dio_abs (ddev (bt_sb tree)))" for b sb
  proof -
    obtain d u where "sb = (bt_sb tree)\<lparr>ddev := d, used_blocks := u\<rparr>"
      using c(3) unfolding bm_changed_def by blast
    then have sb: "bsize sb = 65536" "nr_blocks sb = nr_blocks (bt_sb tree)" and sbok: "sb_ok sb"
      using ok(2) c(3) by (simp_all add: bm_changed_def) metis
    show ?thesis
    proof (rule wp_node_write [where n = "?n b"])
      show "bt_good (?t b sb)"
        using sb sbok ok(3) by (simp add: bt_good_def sb_ok_def bt_dev_def)
      show "bt_heap (?t b sb) ?p = Some (?n b)"
        by simp
      show "node_ready (?t b sb) (?n b)"
        using new_btree_node_wf c sb by (simp add: node_ready_def block_ok_def node_wf_def new_btree_node_def nkfs_btree_node_zero_pages_def)
      fix dev v
      assume d: "dio_good 65536 dev" "pins (dio_abs dev) = bt_pins (?t b sb)" "content (dio_abs dev) = (bt_content (?t b sb))(n_block (?n b) := v)"
      have "sb_frame_block sb b (sb\<lparr>ddev := dev\<rparr>)"
        using bt_sb_frame [OF d] by simp
      then have "Q (Some ?p, bt_cached ?p (node_written (?n b)) (bt_set_dev dev (tree\<lparr>bt_sb := sb\<rparr>)))"
        by (intro assms(4)) (use c sb d in simp_all)
      moreover have "bt_cached ?p (node_written (?n b)) (bt_set_dev dev (tree\<lparr>bt_sb := sb\<rparr>)) = w\<lparr>bt_nodes := RBT.insert b ?p (bt_nodes w), bt_nodes_active := bt_nodes_active w + 1\<rparr>"
        if "w = set_node ?p (node_written (?n b)) (bt_set_dev dev (?t b sb))" for w
        unfolding that by (rule nkfs_btree.equality) (simp_all add: bt_cached_def bt_set_dev_def set_node_def)
      ultimately show "case (0, set_node ?p (node_written (?n b)) (bt_set_dev dev (?t b sb))) of (err, tree) \<Rightarrow> err = 0 \<and>
        wpo (nkfs_btree_nodes_insert ?p tree) (\<lambda>(i, tree). i = ?p \<and> wpo (nkfs_btree_node_deref ?p tree) (\<lambda>tree. Q (Some ?p, tree)))"
        using assms(3) by (auto intro!: insert_then_deref [where n = "node_written (?n b)"] simp: new_btree_node_def nkfs_btree_node_zero_pages_def bt_set_dev_def set_node_def)
    qed
  qed
  have "wpo (nkfs_balloc_block_alloc (bt_sb tree)) (\<lambda>((err, b), sb). err = 0 \<and> b \<noteq> 0 \<and> b < nr_blocks (bt_sb tree)
      \<and> bm_changed (bt_sb tree) (unat b) True sb \<and> \<not> bm_used (bt_sb tree) (unat b) \<and> pins (dio_abs (ddev sb)) = pins (dio_abs (ddev (bt_sb tree))))"
  proof (rule wp_block_alloc [OF ok(1)])
    fix b :: u64 and sb
    assume b: "unat b < unat (nr_blocks (bt_sb tree))" "\<not> bm_used (bt_sb tree) (unat b)" "bm_changed (bt_sb tree) (unat b) True sb"
      "pins (dio_abs (ddev sb)) = pins (dio_abs (ddev (bt_sb tree)))"
    then have "b \<noteq> 0"
      using ok(4) by auto
    then show "(\<lambda>((err, b), sb). err = 0 \<and> b \<noteq> 0 \<and> b < nr_blocks (bt_sb tree)
      \<and> bm_changed (bt_sb tree) (unat b) True sb \<and> \<not> bm_used (bt_sb tree) (unat b) \<and> pins (dio_abs (ddev sb)) = pins (dio_abs (ddev (bt_sb tree)))) ((0 :: int, b), sb)"
      using b by (simp add: word_less_nat_alt)
  qed (use ok(5) in auto)
  then obtain b sb where b: "nkfs_balloc_block_alloc (bt_sb tree) = Some ((0, b), sb)"
    "b \<noteq> 0" "b < nr_blocks (bt_sb tree)" "bm_changed (bt_sb tree) (unat b) True sb" "\<not> bm_used (bt_sb tree) (unat b)"
    "pins (dio_abs (ddev sb)) = pins (dio_abs (ddev (bt_sb tree)))"
    by (auto simp: wpo_def)
  have t: "set_node ?p (?n b) ((set_node ?p new_btree_node tree)\<lparr>bt_next := Suc ?p, bt_sb := sb\<rparr>) = ?t b sb"
    by (simp add: set_node_def)
  show ?thesis
    using step [OF b(2-6)] b(1)
    by (auto simp: nkfs_btree_node_create_def node_alloc_ok [OF assms(1)] on_sb_def mod_node_def t elim!: wpo_mono)
qed

lemma wp_leaf_create:
  assumes "sb_tree_ok sb" "\<And>tree p n sb'. leaf_at p n tree \<Longrightarrow> node_map n = Map.empty \<Longrightarrow>
      n_block n < nr_blocks sb \<Longrightarrow> \<not> bm_used sb (unat (n_block n)) \<Longrightarrow> bm_changed sb (unat (n_block n)) True sb' \<Longrightarrow>
      pins (dio_abs (ddev sb')) = pins (dio_abs (ddev sb)) \<Longrightarrow> sb_frame_block sb' (n_block n) (bt_sb tree) \<Longrightarrow> Q (Some tree, bt_sb tree)"
  shows "wpo (nkfs_btree_create sb 0) Q"
proof -
  have ok: "sb_ok sb" "bsize sb = 65536" "unat (nr_blocks sb) * 128 \<le> 2 ^ 64"
    using assms(1) by (simp_all add: sb_tree_ok_def)
  have mem: "next_mem (ddev sb) = (True, ddev sb)"
    using ok(1) by (simp add: sb_ok_def dio_good_def env_ok_def next_mem_def)
  let ?t = "\<lparr>bt_root = None, bt_sb = sb, bt_nodes = RBT.empty, bt_ref = 1, bt_releasing = False, bt_nodes_active = 0,
          bt_sig1 = NKFS_BTREE_SIG1, bt_heap = (\<lambda>_. None), bt_next = 0\<rparr>"
  have good: "bt_good ?t"
    using ok by (simp add: bt_good_def sb_ok_def bt_dev_def)
  have "wpo (nkfs_btree_node_create ?t) (\<lambda>(r, tree). r = Some 0 \<and> wpo (mod_node 0 (\<lambda>n. Some (n\<lparr>n_leaf := 1\<rparr>)) (tree\<lparr>bt_root := r\<rparr>))
     (\<lambda>tree. wpo (nkfs_btree_node_write 0 tree) (\<lambda>(err, tree). err = 0 \<and> Q (Some tree, bt_sb tree))))"
  proof (rule wp_node_create_first [OF good])
    fix b dev and sb' :: nkfs_sb
    assume b: "b \<noteq> 0" "b < nr_blocks (bt_sb ?t)" "dio_good 65536 dev" "bsize sb' = 65536" "nr_blocks sb' = nr_blocks (bt_sb ?t)"
      "\<not> bm_used (bt_sb ?t) (unat b)" "bm_changed (bt_sb ?t) (unat b) True sb'"
      "pins (dio_abs (ddev sb')) = pins (dio_abs (ddev (bt_sb ?t)))" "sb_frame_block sb' b (sb'\<lparr>ddev := dev\<rparr>)"
    let ?w = "node_written (new_btree_node\<lparr>n_block := b, n_tree := True\<rparr>)"
    let ?n = "?w\<lparr>n_leaf := 1\<rparr>"
    let ?c = "(bt_cached (bt_next ?t) ?w (bt_set_dev dev (?t\<lparr>bt_sb := sb'\<rparr>)))\<lparr>bt_root := Some 0\<rparr>"
    have wf: "node_wf ?n" "n_sig1 ?n = NKFS_BTREE_SIG1" "n_sig2 ?n = NKFS_BTREE_SIG2" "n_tree ?n" "n_block ?n = b" "n_ref ?n = 1" "node_nr ?n = 0"
      using new_btree_node_wf by (simp_all add: node_wf_def new_btree_node_def nkfs_btree_node_zero_pages_def node_written_def node_head_def node_nr_def)
    have cl: "node_clean ?n"
    proof -
      have "node_kv ?n = node_kv new_btree_node" "node_ch ?n = node_ch new_btree_node"
        by (simp_all add: node_kv_def node_ch_def fun_eq_iff)
      then show ?thesis
        by (simp add: node_clean_def new_btree_node_kv new_btree_node_ch)
    qed
    note mp = node_map_new [OF wf(7)]
    have "wpo (nkfs_btree_node_write 0 (set_node 0 ?n ?c)) (\<lambda>(err, tree). err = 0 \<and> Q (Some tree, bt_sb tree))"
    proof (rule wp_node_write [where n = ?n])
      show "bt_good (set_node 0 ?n ?c)"
        using b ok(3) by (simp add: bt_good_def bt_cached_def bt_set_dev_def bt_dev_def)
      show "node_ready (set_node 0 ?n ?c) ?n"
        using wf b by (simp add: node_ready_def block_ok_def bt_cached_def bt_set_dev_def)
      fix dev' v
      let ?c' = "set_node 0 (node_written ?n) (bt_set_dev dev' (set_node 0 ?n ?c))"
      assume d: "dio_good 65536 dev'" "content (dio_abs dev') = (bt_content (set_node 0 ?n ?c))(n_block ?n := v)"
        and pins: "pins (dio_abs dev') = bt_pins (set_node 0 ?n ?c)"
        and img: "block_pages v (image_page (node_written ?n) (page_at (bt_content (set_node 0 ?n ?c) (n_block ?n))))"
      have "leaf_at 0 (node_written ?n) ?c'"
        unfolding leaf_at_def
      proof (intro conjI)
        show "bt_good ?c'"
          using b d(1) ok(3) by (simp add: bt_good_def bt_cached_def bt_set_dev_def bt_dev_def set_node_def)
        show "node_ready ?c' (node_written ?n)"
          using wf b by (simp add: node_ready_def block_ok_def bt_cached_def bt_set_dev_def set_node_def)
        show "node_sorted (node_written ?n)" "node_clean (node_written ?n)"
          using mp cl by (simp_all add: node_sorted_def node_key_at_def node_clean_def)
        show "RBT.lookup (bt_nodes ?c') (n_block (node_written ?n)) = Some 0"
          using wf(5) by (simp add: bt_cached_def bt_set_dev_def set_node_def)
        show "\<exists>f. block_pages (bt_content ?c' (n_block (node_written ?n))) (image_page (node_written (node_written ?n)) f)"
          using d(2) img by (auto simp: node_written_idem [OF wf(1)] bt_content_def)
      qed (use wf in \<open>simp_all add: bt_cached_def bt_set_dev_def set_node_def\<close>)
      moreover have "sb_frame_block sb' b (bt_sb ?c')"
      proof (rule sb_frame_block_trans [OF b(9)])
        show "sb_frame_block (sb'\<lparr>ddev := dev\<rparr>) b (bt_sb ?c')"
          using bt_sb_frame [OF d(1) pins d(2)] wf(5) by (simp add: bt_cached_def bt_set_dev_def set_node_def)
      qed
      ultimately show "case (0, ?c') of (err, tree) \<Rightarrow> err = 0 \<and> Q (Some tree, bt_sb tree)"
        using assms(2) [of 0 "node_written ?n" ?c' sb'] mp b wf(5) by (simp add: node_map_def)
    qed simp
    then show "case (Some (bt_next ?t), bt_cached (bt_next ?t) ?w (bt_set_dev dev (?t\<lparr>bt_sb := sb'\<rparr>))) of (r, tree) \<Rightarrow> r = Some 0 \<and>
      wpo (mod_node 0 (\<lambda>n. Some (n\<lparr>n_leaf := 1\<rparr>)) (tree\<lparr>bt_root := r\<rparr>))
        (\<lambda>tree. wpo (nkfs_btree_node_write 0 tree) (\<lambda>(err, tree). err = 0 \<and> Q (Some tree, bt_sb tree)))"
      by (simp add: bt_cached_def)
  qed (use assms(1) in simp_all)
  then show ?thesis
    using mem by (auto simp: nkfs_btree_create_def elim!: wpo_mono split: option.splits)
qed

lemma le_bytes_zero: "le_bytes k 0 = replicate k 0"
  by (induction k) simp_all

lemma zero_words_bytes: "words_bytes (replicate k 0) = replicate (8 * k) 0"
  by (induction k) (simp_all add: words_bytes_def le_bytes_zero replicate_add [symmetric] add.commute)

lemma concat_replicate_zeros: "concat (replicate k (replicate m x)) = replicate (k * m) x"
  by (induction k) (simp_all add: replicate_add)

lemma clean_disk_ok:
  assumes "node_wf n" "node_clean n" "node_nr n \<le> 1024"
  shows "node_disk_ok n"
  unfolding node_disk_ok_def
proof (intro allI impI)
  fix i :: nat assume i: "i < 3"
  note w = node_wf_pages [OF assms(1)]
  have "n_keys n ! (4 + i) = replicate 256 (replicate 16 0)"
  proof (rule nth_equalityI)
    show "length (n_keys n ! (4 + i)) = length (replicate 256 (replicate 16 0))"
      using w i by simp
    fix j assume "j < length (n_keys n ! (4 + i))"
    then have j: "j < 256"
      using w i by simp
    have "node_kv n ((4 + i) * 256 + j) = (replicate 16 0, 0)"
      using assms(2,3) i j unfolding node_clean_def by auto
    moreover have "((4 + i) * 256 + j) div 256 = 4 + i" "((4 + i) * 256 + j) mod 256 = j"
      using j by (simp_all only: div_mult_self3 mod_mult_self3 div_less mod_less)
    ultimately show "n_keys n ! (4 + i) ! j = replicate 256 (replicate 16 0) ! j"
      using j unfolding node_kv_def by simp
  qed
  moreover have "the (n_children n ! i) = replicate 512 0"
  proof (rule nth_equalityI)
    show "length (the (n_children n ! i)) = length (replicate 512 0)"
      using w(5) [of i] i by auto
    fix j assume "j < length (the (n_children n ! i))"
    then have j: "j < 512"
      using w(5) [of i] i by auto
    have "node_ch n (512 * i + j) = 0"
      using assms(2) i j unfolding node_clean_def by auto
    then show "the (n_children n ! i) ! j = replicate 512 0 ! j"
      using j by (simp add: node_ch_def)
  qed
  moreover have "concat (replicate 256 (replicate 16 (0 :: u8))) = replicate 4096 0"
    using concat_replicate_zeros [of 256 16] by simp
  moreover have "cpu_to_be64 0 = 0"
    by code_simp
  ultimately show "concat (n_keys n ! (4 + i)) = child_page_image n i"
    by (simp add: child_page_image_def nkfs_btree_node_child_page_to_ondisk_def zero_words_bytes)
qed

lemma node_written_ref: "node_written (n\<lparr>n_ref := r\<rparr>) = (node_written n)\<lparr>n_ref := r\<rparr>"
  by (simp add: node_written_def node_head_def node_data_def)

text \<open>A block that holds a leaf with the pairs of a map.\<close>

definition sb_dev_ok :: "nkfs_sb \<Rightarrow> bool" where
  "sb_dev_ok sb \<longleftrightarrow> dio_good 65536 (ddev sb) \<and> bsize sb = 65536 \<and> unat (nr_blocks sb) * 128 \<le> 2 ^ 64"

lemma bt_good_sb: "bt_good tree = sb_dev_ok (bt_sb tree)"
  by (simp add: bt_good_def sb_dev_ok_def bt_dev_def)

definition leaf_image :: "nkfs_btree_node \<Rightarrow> u8 list \<Rightarrow> bool" where
  "leaf_image n v \<longleftrightarrow> node_wf n \<and> n_sig1 n = NKFS_BTREE_SIG1 \<and> n_sig2 n = NKFS_BTREE_SIG2 \<and> n_tree n \<and> n_leaf n \<noteq> 0 \<and> node_nr n \<le> 1791
     \<and> node_sorted n \<and> node_clean n \<and> (\<exists>f. block_pages v (image_page (node_written n) f))"

definition leaf_block :: "nkfs_sb \<Rightarrow> u64 \<Rightarrow> (nkfs_btree_key \<rightharpoonup> u64) \<Rightarrow> bool" where
  "leaf_block sb b m \<longleftrightarrow> b \<noteq> 0 \<and> b < nr_blocks sb \<and> (\<exists>n. n_block n = b \<and> node_map n = m \<and> leaf_image n (content (dio_abs (ddev sb)) b))"

lemma leaf_at_block: "leaf_at p n tree \<Longrightarrow> leaf_block (bt_sb tree) (n_block n) (node_map n)"
  unfolding leaf_block_def leaf_image_def leaf_at_def node_ready_def block_ok_def bt_content_def bt_dev_def by blast

lemma wp_leaf_load:
  assumes "sb_dev_ok sb" "leaf_block sb b m" "card (dom m) \<le> 1024"
    and "\<And>tree' n'. leaf_at 0 n' tree' \<Longrightarrow> node_map n' = m \<Longrightarrow> n_block n' = b \<Longrightarrow> bt_sb tree' = sb\<lparr>ddev := bt_dev tree'\<rparr> \<Longrightarrow>
      dio_good 65536 (bt_dev tree') \<Longrightarrow> dio_abs (bt_dev tree') = dio_abs (ddev sb) \<Longrightarrow> Q (Some tree', bt_sb tree')"
  shows "wpo (nkfs_btree_create sb b) Q"
proof -
  obtain n where n: "n_block n = b" "node_map n = m" "leaf_image n (content (dio_abs (ddev sb)) b)"
    using assms(2) by (auto simp: leaf_block_def)
  have a: "n_leaf n \<noteq> 0" "node_nr n \<le> 1791" "node_sorted n" "node_clean n" "node_wf n" "b \<noteq> 0" "b < nr_blocks sb"
    using n(3) assms(2) by (auto simp: leaf_image_def leaf_block_def)
  let ?t = "\<lparr>bt_root = None, bt_sb = sb, bt_nodes = RBT.empty, bt_ref = 1, bt_releasing = False, bt_nodes_active = 0,
          bt_sig1 = NKFS_BTREE_SIG1, bt_heap = (\<lambda>_. None), bt_next = 0\<rparr>"
  have c: "bt_content ?t (n_block n) = content (dio_abs (ddev sb)) b"
    by (simp add: bt_content_def bt_dev_def n(1))
  obtain f where f: "block_pages (content (dio_abs (ddev sb)) b) (image_page (node_written n) f)"
    using n(3) by (auto simp: leaf_image_def)
  have mem: "next_mem (ddev sb) = (True, ddev sb)"
    using assms(1) by (simp add: sb_dev_ok_def dio_good_def env_ok_def next_mem_def)
  have r: "node_ready ?t n" "bt_good ?t" "block_ok ?t b"
    using n a assms(1) by (simp_all add: node_ready_def leaf_image_def block_ok_def bt_good_sb)
  have ok: "node_disk_ok n"
    by (rule clean_disk_ok [OF a(5,4)]) (use assms(3) n(2) node_map_card [OF a(3)] in simp)
  let ?n = "(node_written n)\<lparr>n_ref := 1\<rparr>"
  have good: "disk_good (disk_node ?t b)"
    using disk_good_image [OF r(1) c f] disk_ok_collides [OF a(5) ok] n(1) by simp
  have img: "disk_node ?t b = ?n"
    using disk_node_image [OF r(1) c f] reread_id_iff [OF a(5)] ok n(1) by (intro nkfs_btree_node.equality) simp_all
  have w: "node_written ?n = ?n"
    by (simp add: node_written_ref node_written_idem [OF a(5)])
  have m: "node_map ?n = m"
  proof -
    have "node_kv ?n = node_kv n" "node_nr ?n = node_nr n"
      by (simp_all add: fun_eq_iff node_kv_def node_nr_def)
    then show ?thesis
      using n(2) by (simp only: node_map_def node_kvs_def)
  qed
  have "wpo (nkfs_btree_node_read ?t b) (\<lambda>(r, tree). r = Some 0 \<and> Q (Some (tree\<lparr>bt_root := Some 0\<rparr>), bt_sb tree))"
  proof (rule wp_node_read_miss [OF r(2,3)])
    fix dev
    assume d: "dio_good 65536 dev" "dio_abs dev = dio_abs (bt_dev ?t)"
    let ?c = "(bt_cached (bt_next ?t) (disk_node ?t b) (bt_set_dev dev ?t))\<lparr>bt_root := Some 0\<rparr>"
    have "leaf_at 0 ?n ?c"
      unfolding leaf_at_def
    proof (intro conjI)
      show "bt_good ?c"
        using assms(1) d(1) by (simp add: bt_good_def sb_dev_ok_def bt_cached_def bt_set_dev_def bt_dev_def)
      show "node_ready ?c ?n"
        using r(1) by (simp add: node_ready_def node_wf_def block_ok_def bt_cached_def bt_set_dev_def node_written_def node_head_def)
      show "node_sorted ?n" "node_clean ?n"
        using a(3,4) by (simp_all add: node_sorted_def node_key_at_def node_clean_def node_nr_def node_kv_def node_ch_def)
      show "RBT.lookup (bt_nodes ?c) (n_block ?n) = Some 0"
        using n(1) by (simp add: bt_cached_def bt_set_dev_def)
      have "bt_content ?c (n_block ?n) = content (dio_abs (ddev sb)) b"
        using d(2) n(1) by (simp add: bt_content_def bt_dev_def bt_cached_def bt_set_dev_def)
      moreover have "image_page ?n f = image_page (node_written n) f"
        by (simp add: image_page_def fun_eq_iff)
      ultimately show "\<exists>f. block_pages (bt_content ?c (n_block ?n)) (image_page (node_written ?n) f)"
        using f unfolding w by (intro exI [of _ f]) simp
    qed (use a img in \<open>simp_all add: bt_cached_def bt_set_dev_def node_nr_def\<close>)
    from assms(4) [OF this m]
    show "case (Some (bt_next ?t), bt_cached (bt_next ?t) (disk_node ?t b) (bt_set_dev dev ?t)) of
      (r, tree) \<Rightarrow> r = Some 0 \<and> Q (Some (tree\<lparr>bt_root := Some 0\<rparr>), bt_sb tree)"
      using n(1) d by (simp add: bt_cached_def bt_set_dev_def bt_dev_def)
  qed (use good in simp_all)
  then show ?thesis
    using mem a(6) by (auto simp: nkfs_btree_create_def elim!: wpo_mono)
qed

lemma wp_leaf_reload:
  assumes "leaf_at p n tree" "node_nr n \<le> 1024" "\<And>tree'. leaf_tree tree' \<Longrightarrow> bt_map tree' = node_map n \<Longrightarrow> Q (Some tree', bt_sb tree')"
  shows "wpo (nkfs_btree_create (bt_sb tree) (n_block n)) Q"
proof (rule wp_leaf_load)
  show "leaf_block (bt_sb tree) (n_block n) (node_map n)"
    by (rule leaf_at_block [OF assms(1)])
  show "sb_dev_ok (bt_sb tree)" "card (dom (node_map n)) \<le> 1024"
    using assms(1,2) leaf_at_nr [OF assms(1)] by (simp_all add: leaf_at_def bt_good_sb leaf_at_map [OF assms(1)])
  show "leaf_at 0 n' tree' \<Longrightarrow> node_map n' = node_map n \<Longrightarrow> Q (Some tree', bt_sb tree')" for n' tree'
    using assms(3) [of tree'] leaf_at_map [of 0 n' tree'] by (auto simp: leaf_tree_def)
qed

text \<open>Another superblock with the same block keeps the leaf.\<close>

lemma leaf_at_sb:
  assumes "leaf_at p n (t\<lparr>bt_sb := sb\<rparr>)" "sb_dev_ok sb'" "nr_blocks sb' = nr_blocks sb"
    and "content (dio_abs (ddev sb')) (n_block n) = content (dio_abs (ddev sb)) (n_block n)"
  shows "leaf_at p n (t\<lparr>bt_sb := sb'\<rparr>)"
  using assms by (simp add: leaf_at_def bt_good_sb node_ready_def block_ok_def bt_content_def bt_dev_def)

text \<open>The last reference: the root is released and the tree is gone.\<close>

lemma leaf_deref:
  assumes "leaf_at p n tree"
  shows "nkfs_btree_deref tree = Some (None, bt_sb tree)"
proof -
  have a: "bt_root tree = Some p" "bt_heap tree p = Some n" "n_tree n" "n_block n \<noteq> 0" "n_ref n = 1" "bt_nodes_active tree = 1" "bt_ref tree = 1"
    "RBT.lookup (bt_nodes tree) (n_block n) = Some p"
    using assms by (auto simp: leaf_at_def node_ready_def block_ok_def)
  then show ?thesis
    by (simp add: nkfs_btree_deref_def nkfs_btree_release_def nkfs_btree_stop_def nkfs_btree_node_deref_def nkfs_btree_node_release_def
        nkfs_btree_nodes_remove_def nkfs_btree_node_free_def set_node_def)
qed

text \<open>A superblock for the witnesses: a hundred blocks of 64 KiB, of which block 0 is taken.\<close>

definition demo_tree_sb :: nkfs_sb where
  "demo_tree_sb = \<lparr>ddev = \<lparr>dev_ref = 1, clus_root = RBT.empty, dev_clu_size = 65536, nr_clus = 0, nr_max_clus = 4,
       disk = (\<lambda>s. if s = 128 then 1 # replicate 65535 0 else replicate 65536 0), io_out = [], mem_out = [],
       fresh_page = replicate PAGE_SIZE 0\<rparr>,
     sb_refs = 1, sb_id = nkfs_obj_id_zero, nr_blocks = 100, sb_magic = 0, sb_version = 1,
     sb_size = 6553600, bm_block = 1, bm_blocks = 1, inodes_tree_block = 0, used_blocks = 1, bsize = 65536, sb_stopping = False\<rparr>"

lemma demo_tree_sb_ok: "sb_tree_ok demo_tree_sb"
proof -
  have ok: "sb_ok demo_tree_sb"
    by (simp add: demo_tree_sb_def sb_ok_def dio_good_def dio_wf_ex_def dev_ok_def env_ok_def unread_def)
  have c: "content (dio_abs (ddev demo_tree_sb)) 1 = 1 # replicate 65535 0"
    by (simp add: demo_tree_sb_def dio_abs_def dio_view_def clu_view_def index_ok_def clu_sector_def)
  have "bm_long demo_tree_sb 0 = le_word (take 8 (1 # replicate 65535 0))"
    using c by (simp add: bm_long_def) (simp add: demo_tree_sb_def)
  also have "take 8 (1 # replicate 65535 0) = (1 :: u8) # replicate 7 0"
    by (simp add: min_def)
  also have "le_word \<dots> = (1 :: u64)"
    by (simp add: le_word_zeros)
  finally have "bm_used demo_tree_sb 0" "\<not> bm_used demo_tree_sb 1"
    by (simp_all add: bm_used_def)
  then show ?thesis
    using ok by (auto simp: sb_tree_ok_def demo_tree_sb_def intro!: exI [of _ 1])
qed

section \<open>Damaged nodes\<close>

lemma fold_opt_inv:
  assumes "\<And>x s s'. P s \<Longrightarrow> f x s = Some s' \<Longrightarrow> P s'" "P s" "fold_opt f xs s = Some s'"
  shows "P s'"
  using assms(2,3) by (induction xs arbitrary: s) (auto split: bind_splits intro: assms(1))

lemma copy_kv_children:
  "nkfs_btree_node_copy_key_value n i k v = Some n' \<Longrightarrow> n_children n' = n_children n"
  "nkfs_btree_node_copy_kv n i src j = Some n' \<Longrightarrow> n_children n' = n_children n"
  by (auto simp: nkfs_btree_node_copy_kv_def nkfs_btree_node_copy_key_value_def set_key_def set_value_def split: bind_splits)

lemma delete_key_children:
  assumes "nkfs_btree_node_delete_key_index n i = Some n'"
  shows "n_children n' = n_children n"
proof -
  obtain n1 where 1: "fold_opt (\<lambda>i node. nkfs_btree_node_copy_kv node (int i - 1) node (int i)) [i + 1..<unat (n_nr_keys n)] n = Some n1"
    and 2: "nkfs_btree_node_copy_key_value n1 (int (max (i + 1) (unat (n_nr_keys n))) - 1) (replicate 16 0) 0 = Some n'"
    using assms by (auto simp: nkfs_btree_node_delete_key_index_def nkfs_btree_node_zero_kv_def Let_def split: bind_splits)
  have "n_children n1 = n_children n"
    by (rule fold_opt_inv [where P = "\<lambda>m. n_children m = n_children n", OF _ refl 1]) (simp add: copy_kv_children(2))
  then show ?thesis
    using copy_kv_children(1) [OF 2] by simp
qed

lemma delete_child_null:
  assumes "nkfs_btree_node_delete_child_index n i = Some n'" "length (n_children n) = 4"
  shows "None \<in> set (n_children n')"
proof -
  obtain n1 where 1: "fold_opt (\<lambda>i node. do { assert_that (i < NKFS_BTREE_CHILD_PAGES);
         Some (node\<lparr>n_children := (n_children node)[i - 1 := n_children node ! i]\<rparr>) }) [i + 1..<unat (n_nr_keys n + 1)] n = Some n1"
    and n': "max (i + 1) (unat (n_nr_keys n + 1)) - 1 < 4" "n' = n1\<lparr>n_children := (n_children n1)[max (i + 1) (unat (n_nr_keys n + 1)) - 1 := None]\<rparr>"
    using assms(1) by (auto simp: nkfs_btree_node_delete_child_index_def Let_def split: bind_splits if_splits)
  have "length (n_children n1) = 4"
    by (rule fold_opt_inv [where P = "\<lambda>n. length (n_children n) = 4", OF _ assms(2) 1]) (auto split: bind_splits)
  then show ?thesis
    using n' by (auto intro: set_update_memI)
qed

lemma write_null_stops:
  assumes "bt_good tree" "bt_heap tree p = Some n" "None \<in> set (n_children n)"
  shows "nkfs_btree_node_write p tree = None"
proof (rule ccontr)
  assume s: "nkfs_btree_node_write p tree \<noteq> None"
  have "n_block n < nr_blocks (bt_sb tree)"
    using s assms(2) by (auto simp: nkfs_btree_node_write_def split: bind_splits)
  then have i: "index_ok 65536 (n_block n)"
    by (rule bt_good_index [OF assms(1)])
  have "wpo (dio_clu_get (bt_dev tree) (n_block n)) (\<lambda>(ok, dev). ok)"
    by (rule wp_dio_clu_get [OF _ i]) (use assms(1) in \<open>simp_all add: bt_good_def\<close>)
  then obtain dev where d: "dio_clu_get (bt_dev tree) (n_block n) = Some (True, dev)"
    by (auto simp: wpo_def)
  have "nkfs_btree_node_calc_sum (node_head n) = None"
    by (rule calc_sum_null) (simp add: assms(3))
  then show False
    using s assms(2) d by (auto simp: nkfs_btree_node_write_def on_tdev_def on_sb_def on_dev_def bt_dev_def Let_def split: bind_splits)
qed

lemma give_key_stops:
  assumes "bt_good tree" "bt_heap tree sib = Some s" "length (n_children s) = 4"
  shows "nkfs_btree_node_child_give_key node child i sib left tree = None"
proof (rule ccontr)
  assume "nkfs_btree_node_child_give_key node child i sib left tree \<noteq> None"
  then obtain t where t: "nkfs_btree_node_child_give_key node child i sib left tree = Some t"
    by blast
  have bad: False
    if "node \<noteq> sib" "child \<noteq> sib" "nkfs_btree_node_delete_key_index s j = Some s1" "nkfs_btree_node_delete_child_index s1 l = Some s2"
      "nkfs_btree_node_write sib (set_node node n (set_node child c (set_node sib (s2\<lparr>n_nr_keys := n_nr_keys s2 - 1\<rparr>) tree))) = Some x"
    for j s1 l s2 n c x
  proof -
    have "None \<in> set (n_children s2)"
      by (rule delete_child_null [OF that(4)]) (use delete_key_children [OF that(3)] assms(3) in simp)
    then have "nkfs_btree_node_write sib (set_node node n (set_node child c (set_node sib (s2\<lparr>n_nr_keys := n_nr_keys s2 - 1\<rparr>) tree))) = None"
      by (intro write_null_stops [where n = "s2\<lparr>n_nr_keys := n_nr_keys s2 - 1\<rparr>"]) (use that(1,2) assms(1) in simp_all)
    then show False
      using that(5) by simp
  qed
  show False
    using t assms(2) bad unfolding nkfs_btree_node_child_give_key_def Let_def
    by (cases left) (auto simp: Option.bind_eq_Some_conv assert_that_def split: if_splits)
qed

lemma merge_write_stops:
  assumes "bt_good tree" "bt_heap tree node = Some n" "length (n_children n) = 4" "merge_children node dst src ki ci tree = Some tree'"
  shows "nkfs_btree_node_write node tree' = None"
proof -
  obtain d n1 n2 where d: "nkfs_btree_node_delete_key_index n ki = Some n1" "nkfs_btree_node_delete_child_index n1 ci = Some n2"
    "tree' = set_node node (n2\<lparr>n_nr_keys := n_nr_keys n2 - 1\<rparr>) (set_node dst d tree)"
    using assms(2,4) by (auto simp: merge_children_def split: bind_splits)
  have "None \<in> set (n_children n2)"
    by (rule delete_child_null [OF d(2)]) (use delete_key_children [OF d(1)] assms(3) in simp)
  then show ?thesis
    using assms(1) by (intro write_null_stops [where n = "n2\<lparr>n_nr_keys := n_nr_keys n2 - 1\<rparr>"]) (simp_all add: d(3))
qed

section \<open>Properties\<close>

text \<open>
  (C7) A tree of one leaf is a finite map: every sequence of insertions, lookups
  and deletions of 16 byte keys returns what the map returns, \<open>-EEXIST\<close> and
  \<open>-ENOENT\<close> included, and leaves a tree of one leaf with the map's pairs, as
  long as each insertion finds room in the leaf.
\<close>

theorem nkfs_btree_leaf_refines_map:
  assumes "leaf_tree tree" "run_ops map_step ops (bt_map tree) = Some (rs, m)"
  shows "\<exists>tree'. run_ops btree_step ops tree = Some (rs, tree') \<and> bt_map tree' = m \<and> leaf_tree tree'"
  by (rule leaf_sim.run_sim [OF assms])

lemma demo_tree_created: "\<exists>tree. nkfs_btree_create demo_tree_sb 0 = Some (Some tree, bt_sb tree) \<and> leaf_tree tree \<and> bt_map tree = Map.empty"
proof -
  have "wpo (nkfs_btree_create demo_tree_sb 0) (\<lambda>(t, sb). \<exists>tree. t = Some tree \<and> sb = bt_sb tree \<and> leaf_tree tree \<and> bt_map tree = Map.empty)"
    by (rule wp_leaf_create [OF demo_tree_sb_ok]) (auto simp: leaf_tree_def leaf_at_map)
  then show ?thesis
    by (auto simp: wpo_def)
qed

definition demo_ops :: "btree_op list" where
  "demo_ops = [BInsert (replicate 16 1) 7 False, BInsert (replicate 16 1) 8 False, BInsert (replicate 16 2) 9 False,
     BFind (replicate 16 1), BDelete (replicate 16 1), BFind (replicate 16 1), BInsert (replicate 16 2) 5 True, BFind (replicate 16 2)]"

definition demo_results :: "(int + u64) list" where
  "demo_results = [Inl 0, Inl (- EEXIST), Inl 0, Inr 7, Inl 0, Inl (- ENOENT), Inl 0, Inr 5]"

lemma demo_ops_map: "run_ops map_step demo_ops Map.empty = Some (demo_results, [replicate 16 2 \<mapsto> 5])"
proof -
  have ne: "replicate 16 (1 :: u8) \<noteq> replicate 16 2"
    using replicate_less [of 1 2 16] by auto
  have d: "dom [replicate 16 (1 :: u8) \<mapsto> x :: u64] = {replicate 16 1}" "dom [replicate 16 (2 :: u8) \<mapsto> x] = {replicate 16 2}" for x
    by auto
  have u: "[replicate 16 (1 :: u8) \<mapsto> 7, replicate 16 2 \<mapsto> 9](replicate 16 1 := None) = [replicate 16 2 \<mapsto> (9 :: u64)]"
    using ne by (auto simp: fun_eq_iff)
  show ?thesis
    using ne ne [symmetric] by (simp add: demo_ops_def demo_results_def d u)
qed

theorem nkfs_btree_leaf_refines_map_witness:
  "\<exists>tree tree'. nkfs_btree_create demo_tree_sb 0 = Some (Some tree, bt_sb tree) \<and>
     run_ops btree_step demo_ops tree = Some (demo_results, tree') \<and> bt_map tree' = [replicate 16 2 \<mapsto> 5]"
proof -
  obtain tree where t: "nkfs_btree_create demo_tree_sb 0 = Some (Some tree, bt_sb tree)" "leaf_tree tree" "bt_map tree = Map.empty"
    using demo_tree_created by blast
  then show ?thesis
    using nkfs_btree_leaf_refines_map [OF t(2), of demo_ops demo_results "[replicate 16 2 \<mapsto> 5]"] demo_ops_map by auto
qed



text \<open>
  (C8) Writing and rereading a node: a write succeeds; a later read of its block
  by a tree that does not have the node in memory gives the node again when its
  last three key pages are the images of its first three child pages, which share
  their place on disk, and fails otherwise, unless the checksums of the two
  different contents coincide.
\<close>

theorem nkfs_btree_write_read:
  assumes "bt_good tree" "bt_heap tree p = Some n" "node_ready tree n"
  shows "\<exists>tree' r tree''. nkfs_btree_node_write p tree = Some (0, tree') \<and>
    nkfs_btree_node_read (tree'\<lparr>bt_nodes := RBT.empty\<rparr>) (n_block n) = Some (r, tree'') \<and>
    (if node_disk_ok n then \<exists>q. r = Some q \<and> bt_heap tree'' q = Some ((node_written n)\<lparr>n_ref := 1\<rparr>)
     else r = None \<or> node_collides n)"
proof -
  let ?Q = "\<lambda>(r, t). if node_disk_ok n then \<exists>q. r = Some q \<and> bt_heap t q = Some ((node_written n)\<lparr>n_ref := 1\<rparr>) else r = None \<or> node_collides n"
  have wf: "node_wf n" "block_ok tree (n_block n)"
    using assms(3) by (auto simp: node_ready_def)
  have "wpo (nkfs_btree_node_write p tree) (\<lambda>(err, t). err = 0 \<and> wpo (nkfs_btree_node_read (t\<lparr>bt_nodes := RBT.empty\<rparr>) (n_block n)) ?Q)"
  proof (rule wp_node_write [OF assms], unfold prod.case, intro conjI)
    fix dev v
    assume d: "dio_good 65536 dev" "content (dio_abs dev) = (bt_content tree)(n_block n := v)"
      "block_pages v (image_page (node_written n) (page_at (bt_content tree (n_block n))))"
    let ?t = "(set_node p (node_written n) (bt_set_dev dev tree))\<lparr>bt_nodes := RBT.empty\<rparr>"
    have v: "bt_content ?t (n_block n) = v"
      using d(2) by (simp add: bt_content_def)
    note img = disk_node_image [OF assms(3) v d(3)] disk_good_image [OF assms(3) v d(3)]
    have same: "node_disk_ok n \<Longrightarrow> (node_written n)\<lparr>n_ref := 1, n_keys := n_keys (reread n)\<rparr> = (node_written n)\<lparr>n_ref := 1\<rparr>"
      using reread_id_iff [OF wf(1)] by (intro nkfs_btree_node.equality) simp_all
    show "wpo (nkfs_btree_node_read ?t (n_block n)) ?Q"
    proof (rule wp_node_read_miss)
      show "bt_good ?t"
        using assms(1) d(1) by (simp add: bt_good_def set_node_def bt_set_dev_def bt_dev_def)
      show "block_ok ?t (n_block n)"
        using wf(2) by (simp add: block_ok_def set_node_def bt_set_dev_def)
    qed (use img same disk_ok_collides [OF wf(1)] in \<open>auto simp: bt_cached_def\<close>)
  qed simp
  then show ?thesis
    by (auto simp: wpo_def)
qed

theorem nkfs_btree_write_read_witness:
  "\<exists>tree p n tree' q tree''. nkfs_btree_create demo_tree_sb 0 = Some (Some tree, bt_sb tree) \<and> bt_root tree = Some p \<and> bt_heap tree p = Some n \<and>
    nkfs_btree_node_write p tree = Some (0, tree') \<and>
    nkfs_btree_node_read (tree'\<lparr>bt_nodes := RBT.empty\<rparr>) (n_block n) = Some (Some q, tree'') \<and> bt_heap tree'' q = Some ((node_written n)\<lparr>n_ref := 1\<rparr>)"
proof -
  obtain tree where t: "nkfs_btree_create demo_tree_sb 0 = Some (Some tree, bt_sb tree)" "leaf_tree tree" "bt_map tree = Map.empty"
    using demo_tree_created by blast
  then obtain p n where l: "leaf_at p n tree"
    by (auto simp: leaf_tree_def)
  then have a: "bt_good tree" "bt_heap tree p = Some n" "node_ready tree n" "bt_root tree = Some p" "node_wf n" "node_clean n"
    by (auto simp: leaf_at_def node_ready_def)
  have "node_disk_ok n"
    by (rule clean_disk_ok [OF a(5,6)]) (use leaf_at_nr [OF l] t(3) in simp)
  then show ?thesis
    using nkfs_btree_write_read [OF a(1-3)] t(1) a(2,4) by auto
qed



end
