(* ===== verification/Inode.thy ===== *)
theory Inode
  imports Btree_Map
begin

text \<open>
  Inodes (\<open>src/core/inode.c\<close>, \<open>inode.h\<close> and the structure on disk of
  \<open>src/include/nkfs_image.h\<close>).  An inode has two trees, from the blocks of the
  file to blocks of the device and from groups of blocks to the blocks that hold
  their checksums.  \<open>nkfs_fs\<close> is the superblock with its inodes: the structures
  in memory live in a heap under their addresses, and the trees of an inode use the
  one superblock of the file system, which \<open>on_tree\<close> hands to them.

  The semaphores are not modelled.
\<close>

section \<open>State\<close>

record nkfs_inode =
  i_sig1 :: u32
  i_ref :: int
  i_ino :: nkfs_obj_id
  i_block :: u64
  i_size :: u64
  i_blocks_tree_block :: u64
  i_blocks_sum_tree_block :: u64
  i_blocks_tree :: "nkfs_btree option"
  i_blocks_sum_tree :: "nkfs_btree option"
  i_dirty :: bool
  i_sig2 :: u32

record nkfs_fs =
  fs_sb :: nkfs_sb
  fs_inodes :: "(u64, nat) RBT.rbt"
  inodes_active :: int
  inodes_tree :: "nkfs_btree option"
  fs_heap :: "nat \<rightharpoonup> nkfs_inode"
  fs_next :: nat

text \<open>A cluster of an inode block is given by its index; None is the null pointer.\<close>

record inode_block =
  ib_vblock :: u64
  ib_block :: u64
  ib_vsum_block :: u64
  ib_sum_block :: u64
  ib_clu :: "u64 option"
  ib_sum_clu :: "u64 option"
  ib_sum_off :: u32

definition on_fsb :: "(nkfs_sb \<Rightarrow> ('r \<times> nkfs_sb) option) \<Rightarrow> nkfs_fs \<Rightarrow> ('r \<times> nkfs_fs) option" where
  "on_fsb f fs = do {
     (r, sb) \<leftarrow> f (fs_sb fs);
     Some (r, fs\<lparr>fs_sb := sb\<rparr>)
   }"

definition on_fdev :: "(dio_dev \<Rightarrow> ('r \<times> dio_dev) option) \<Rightarrow> nkfs_fs \<Rightarrow> ('r \<times> nkfs_fs) option" where
  "on_fdev f = on_fsb (on_dev f)"

definition fs_mem :: "nkfs_fs \<Rightarrow> bool \<times> nkfs_fs" where
  "fs_mem fs = (let (ok, dev) = next_mem (ddev (fs_sb fs)) in (ok, fs\<lparr>fs_sb := (fs_sb fs)\<lparr>ddev := dev\<rparr>\<rparr>))"

definition fs_clu_put :: "u64 \<Rightarrow> nkfs_fs \<Rightarrow> nkfs_fs option" where
  "fs_clu_put i fs = do {
     sb \<leftarrow> sb_clu_put i (fs_sb fs);
     Some (fs\<lparr>fs_sb := sb\<rparr>)
   }"

definition put_inode :: "nat \<Rightarrow> nkfs_inode \<Rightarrow> nkfs_fs \<Rightarrow> nkfs_fs" where
  "put_inode p i fs = fs\<lparr>fs_heap := (fs_heap fs)(p \<mapsto> i)\<rparr>"

text \<open>An operation on a tree of the file system.\<close>

definition on_tree :: "(nkfs_btree \<Rightarrow> ('r \<times> nkfs_btree) option) \<Rightarrow> nkfs_btree \<Rightarrow> nkfs_fs \<Rightarrow> ('r \<times> nkfs_btree \<times> nkfs_fs) option" where
  "on_tree f t fs = do {
     (r, t) \<leftarrow> f (t\<lparr>bt_sb := fs_sb fs\<rparr>);
     Some (r, t, fs\<lparr>fs_sb := bt_sb t\<rparr>)
   }"

text \<open>On the tree of block numbers and the tree of checksum blocks of an inode.\<close>

definition on_blocks_tree :: "(nkfs_btree \<Rightarrow> ('r \<times> nkfs_btree) option) \<Rightarrow> nat \<Rightarrow> nkfs_fs \<Rightarrow> ('r \<times> nkfs_fs) option" where
  "on_blocks_tree f p fs = do {
     i \<leftarrow> fs_heap fs p;
     t \<leftarrow> i_blocks_tree i;
     (r, t, fs) \<leftarrow> on_tree f t fs;
     Some (r, put_inode p (i\<lparr>i_blocks_tree := Some t\<rparr>) fs)
   }"

definition on_blocks_sum_tree :: "(nkfs_btree \<Rightarrow> ('r \<times> nkfs_btree) option) \<Rightarrow> nat \<Rightarrow> nkfs_fs \<Rightarrow> ('r \<times> nkfs_fs) option" where
  "on_blocks_sum_tree f p fs = do {
     i \<leftarrow> fs_heap fs p;
     t \<leftarrow> i_blocks_sum_tree i;
     (r, t, fs) \<leftarrow> on_tree f t fs;
     Some (r, put_inode p (i\<lparr>i_blocks_sum_tree := Some t\<rparr>) fs)
   }"

definition fs_tree_deref :: "nkfs_btree option \<Rightarrow> nkfs_fs \<Rightarrow> nkfs_fs option" where
  "fs_tree_deref t fs =
     (case t of
        None \<Rightarrow> Some fs
      | Some t \<Rightarrow> do {
          (_, sb) \<leftarrow> nkfs_btree_deref (t\<lparr>bt_sb := fs_sb fs\<rparr>);
          Some (fs\<lparr>fs_sb := sb\<rparr>)
        })"

section \<open>Inodes in memory\<close>

definition nkfs_inode_alloc :: "nkfs_fs \<Rightarrow> nat option \<times> nkfs_fs" where
  "nkfs_inode_alloc fs =
     (let (ok, fs) = fs_mem fs in
      if \<not> ok then (None, fs)
      else (Some (fs_next fs), (put_inode (fs_next fs)
        \<lparr>i_sig1 = 0, i_ref = 1, i_ino = nkfs_obj_id_zero, i_block = 0, i_size = 0, i_blocks_tree_block = 0,
         i_blocks_sum_tree_block = 0, i_blocks_tree = None, i_blocks_sum_tree = None, i_dirty = False, i_sig2 = 0\<rparr> fs)
        \<lparr>fs_next := Suc (fs_next fs)\<rparr>))"

definition nkfs_inode_free :: "nat \<Rightarrow> nkfs_fs \<Rightarrow> nkfs_fs option" where
  "nkfs_inode_free p fs = do {
     i \<leftarrow> fs_heap fs p;
     fs \<leftarrow> fs_tree_deref (i_blocks_tree i) fs;
     fs \<leftarrow> fs_tree_deref (i_blocks_sum_tree i) fs;
     Some (fs\<lparr>fs_heap := (fs_heap fs)(p := None)\<rparr>)
   }"

definition nkfs_inodes_remove :: "nat \<Rightarrow> nkfs_fs \<Rightarrow> nkfs_fs option" where
  "nkfs_inodes_remove p fs = do {
     i \<leftarrow> fs_heap fs p;
     case RBT.lookup (fs_inodes fs) (i_block i) of
       None \<Rightarrow> Some fs
     | Some found \<Rightarrow> do {
         assert_that (found = p);
         Some (fs\<lparr>fs_inodes := RBT.delete (i_block i) (fs_inodes fs), inodes_active := inodes_active fs - 1\<rparr>)
       }
   }"

definition nkfs_inode_release :: "nat \<Rightarrow> nkfs_fs \<Rightarrow> nkfs_fs option" where
  "nkfs_inode_release p fs = do {
     fs \<leftarrow> nkfs_inodes_remove p fs;
     nkfs_inode_free p fs
   }"

definition nkfs_inode_ref :: "nat \<Rightarrow> nkfs_fs \<Rightarrow> nkfs_fs option" where
  "nkfs_inode_ref p fs = do {
     i \<leftarrow> fs_heap fs p;
     assert_that (\<not> i_ref i \<le> 0);
     Some (put_inode p (i\<lparr>i_ref := i_ref i + 1\<rparr>) fs)
   }"

definition nkfs_inode_deref :: "nat \<Rightarrow> nkfs_fs \<Rightarrow> nkfs_fs option" where
  "nkfs_inode_deref p fs = do {
     i \<leftarrow> fs_heap fs p;
     assert_that (\<not> i_ref i \<le> 0);
     let fs = put_inode p (i\<lparr>i_ref := i_ref i - 1\<rparr>) fs;
     if i_ref i - 1 = 0 then nkfs_inode_release p fs else Some fs
   }"

definition nkfs_inodes_lookup :: "u64 \<Rightarrow> nkfs_fs \<Rightarrow> (nat option \<times> nkfs_fs) option" where
  "nkfs_inodes_lookup block fs =
     (case RBT.lookup (fs_inodes fs) block of
        None \<Rightarrow> Some (None, fs)
      | Some p \<Rightarrow> do {
          fs \<leftarrow> nkfs_inode_ref p fs;
          Some (Some p, fs)
        })"

definition nkfs_inodes_insert :: "nat \<Rightarrow> nkfs_fs \<Rightarrow> (nat \<times> nkfs_fs) option" where
  "nkfs_inodes_insert p fs = do {
     i \<leftarrow> fs_heap fs p;
     let (inserted, fs) = (case RBT.lookup (fs_inodes fs) (i_block i) of
         Some found \<Rightarrow> (found, fs)
       | None \<Rightarrow> (p, fs\<lparr>fs_inodes := RBT.insert (i_block i) p (fs_inodes fs), inodes_active := inodes_active fs + 1\<rparr>));
     fs \<leftarrow> nkfs_inode_ref inserted fs;
     Some (inserted, fs)
   }"

section \<open>The inode on disk\<close>

abbreviation (input) NKFS_INODE_SIG1 :: u32 where "NKFS_INODE_SIG1 \<equiv> 0xCBDACBDA"
abbreviation (input) NKFS_INODE_SIG2 :: u32 where "NKFS_INODE_SIG2 \<equiv> 0xBEDABEDA"

record nkfs_inode_disk =
  id_sig1 :: u32
  id_ino :: nkfs_obj_id
  id_size :: u64
  id_blocks_tree_block :: u64
  id_blocks_sum_tree_block :: u64
  id_sum :: u64
  id_sig2 :: u32

definition inode_disk_bytes :: "nkfs_inode_disk \<Rightarrow> u8 list" where
  "inode_disk_bytes d = le_bytes 4 (id_sig1 d) @ nkfs_obj_id_bytes (id_ino d) @ le_bytes 8 (id_size d)
     @ le_bytes 8 (id_blocks_tree_block d) @ le_bytes 8 (id_blocks_sum_tree_block d) @ le_bytes 8 (id_sum d) @ le_bytes 4 (id_sig2 d)"

definition inode_disk_of_bytes :: "u8 list \<Rightarrow> nkfs_inode_disk" where
  "inode_disk_of_bytes bs = \<lparr>id_sig1 = le_word (take 4 bs), id_ino = nkfs_obj_id_of_bytes (take 16 (drop 4 bs)),
     id_size = le_word (take 8 (drop 20 bs)), id_blocks_tree_block = le_word (take 8 (drop 28 bs)),
     id_blocks_sum_tree_block = le_word (take 8 (drop 36 bs)), id_sum = le_word (take 8 (drop 44 bs)),
     id_sig2 = le_word (take 4 (drop 52 bs))\<rparr>"

abbreviation inode_disk_size :: nat where "inode_disk_size \<equiv> 56"

definition nkfs_inode_on_disk_sum :: "nkfs_inode_disk \<Rightarrow> u64" where
  "nkfs_inode_on_disk_sum d = csum_pieces [take 44 (inode_disk_bytes d)]"

definition nkfs_inode_set_size :: "nkfs_inode \<Rightarrow> u64 \<Rightarrow> nkfs_inode" where
  "nkfs_inode_set_size i sz = (if i_size i \<noteq> sz then i\<lparr>i_size := sz, i_dirty := True\<rparr> else i)"

definition nkfs_inode_to_on_disk :: "nkfs_inode \<Rightarrow> nkfs_inode_disk" where
  "nkfs_inode_to_on_disk i =
     (let d = \<lparr>id_sig1 = cpu_to_be32 NKFS_INODE_SIG1, id_ino = i_ino i, id_size = cpu_to_be64 (i_size i),
         id_blocks_tree_block = cpu_to_be64 (i_blocks_tree_block i),
         id_blocks_sum_tree_block = cpu_to_be64 (i_blocks_sum_tree_block i), id_sum = 0, id_sig2 = cpu_to_be32 NKFS_INODE_SIG2\<rparr> in
      d\<lparr>id_sum := nkfs_inode_on_disk_sum d\<rparr>)"

definition nkfs_inode_parse_on_disk :: "nkfs_inode \<Rightarrow> nkfs_inode_disk \<Rightarrow> int \<times> nkfs_inode" where
  "nkfs_inode_parse_on_disk i d =
     (if be32_to_cpu (id_sig1 d) \<noteq> NKFS_INODE_SIG1 \<or> be32_to_cpu (id_sig2 d) \<noteq> NKFS_INODE_SIG2 then (- EINVAL, i)
      else if nkfs_inode_on_disk_sum d \<noteq> id_sum d then (- EINVAL, i)
      else (0, i\<lparr>i_ino := id_ino d, i_size := be64_to_cpu (id_size d),
        i_blocks_tree_block := be64_to_cpu (id_blocks_tree_block d),
        i_blocks_sum_tree_block := be64_to_cpu (id_blocks_sum_tree_block d),
        i_sig1 := be32_to_cpu (id_sig1 d), i_sig2 := be32_to_cpu (id_sig2 d)\<rparr>))"

text \<open>The two trees of an inode, created or loaded; False when one of them fails.\<close>

definition inode_trees :: "nat \<Rightarrow> u64 \<Rightarrow> u64 \<Rightarrow> nkfs_fs \<Rightarrow> (bool \<times> nkfs_fs) option" where
  "inode_trees p block sum_block fs = do {
     (t, fs) \<leftarrow> on_fsb (\<lambda>sb. nkfs_btree_create sb block) fs;
     i \<leftarrow> fs_heap fs p;
     let fs = put_inode p (i\<lparr>i_blocks_tree := t\<rparr>) fs;
     if Option.is_none t then Some (False, fs)
     else do {
       (t, fs) \<leftarrow> on_fsb (\<lambda>sb. nkfs_btree_create sb sum_block) fs;
       i \<leftarrow> fs_heap fs p;
       let fs = put_inode p (i\<lparr>i_blocks_sum_tree := t\<rparr>) fs;
       Some (\<not> Option.is_none t, fs)
     }
   }"

text \<open>The part of \<open>nkfs_inode_read\<close> that holds the cluster and the buffer: read, parse, load the trees.\<close>

definition inode_load :: "nat \<Rightarrow> u64 \<Rightarrow> nkfs_fs \<Rightarrow> (bool \<times> nkfs_fs) option" where
  "inode_load p block fs = do {
     ((err, buf), fs) \<leftarrow> on_fdev (\<lambda>dev. dio_clu_read dev block inode_disk_size 0) fs;
     if err \<noteq> 0 then Some (False, fs)
     else do {
       i \<leftarrow> fs_heap fs p;
       case nkfs_inode_parse_on_disk i (inode_disk_of_bytes buf) of
         (err, i) \<Rightarrow> (if err \<noteq> 0 then Some (False, fs)
           else inode_trees p (i_blocks_tree_block i) (i_blocks_sum_tree_block i) (put_inode p i fs))
     }
   }"

definition nkfs_inode_read :: "nkfs_fs \<Rightarrow> u64 \<Rightarrow> (nat option \<times> nkfs_fs) option" where
  "nkfs_inode_read fs block = do {
     (found, fs) \<leftarrow> nkfs_inodes_lookup block fs;
     case found of
       Some p \<Rightarrow> Some (Some p, fs)
     | None \<Rightarrow> (case nkfs_inode_alloc fs of
         (None, fs) \<Rightarrow> Some (None, fs)
       | (Some p, fs) \<Rightarrow> do {
           i \<leftarrow> fs_heap fs p;
           let fs = put_inode p (i\<lparr>i_block := block\<rparr>) fs;
           (ok, fs) \<leftarrow> on_fdev (\<lambda>dev. dio_clu_get dev block) fs;
           if \<not> ok then do {
             fs \<leftarrow> nkfs_inode_free p fs;
             Some (None, fs)
           } else do {
             (loaded, fs) \<leftarrow> (case fs_mem fs of (ok, fs) \<Rightarrow> if \<not> ok then Some (False, fs) else inode_load p block fs);
             if \<not> loaded then do {
               fs \<leftarrow> fs_clu_put block fs;
               fs \<leftarrow> nkfs_inode_free p fs;
               Some (None, fs)
             } else do {
               (inserted, fs) \<leftarrow> nkfs_inodes_insert p fs;
               if inserted \<noteq> p then do {
                 fs \<leftarrow> fs_clu_put block fs;
                 fs \<leftarrow> nkfs_inode_free p fs;
                 Some (Some inserted, fs)
               } else do {
                 fs \<leftarrow> nkfs_inode_deref inserted fs;
                 fs \<leftarrow> fs_clu_put block fs;
                 Some (Some p, fs)
               }
             }
           }
         })
   }"

definition inode_block_erase :: "nkfs_btree_key \<Rightarrow> u64 \<Rightarrow> nkfs_sb \<Rightarrow> nkfs_sb option" where
  "inode_block_erase key block sb = do {
     (_, sb) \<leftarrow> nkfs_balloc_block_free sb block;
     Some sb
   }"

definition inode_tree_erase :: "nkfs_btree option \<Rightarrow> nkfs_fs \<Rightarrow> (nkfs_btree option \<times> nkfs_fs) option" where
  "inode_tree_erase t fs =
     (case t of
        None \<Rightarrow> Some (None, fs)
      | Some t \<Rightarrow> do {
          (_, t, fs) \<leftarrow> on_tree (\<lambda>t. do { t \<leftarrow> nkfs_btree_erase t (Some inode_block_erase); Some ((), t) }) t fs;
          Some (Some t, fs)
        })"

definition nkfs_inode_delete :: "nat \<Rightarrow> nkfs_fs \<Rightarrow> nkfs_fs option" where
  "nkfs_inode_delete p fs = do {
     i \<leftarrow> fs_heap fs p;
     (t, fs) \<leftarrow> inode_tree_erase (i_blocks_tree i) fs;
     (s, fs) \<leftarrow> inode_tree_erase (i_blocks_sum_tree i) fs;
     fs \<leftarrow> nkfs_inodes_remove p (put_inode p (i\<lparr>i_blocks_tree := t, i_blocks_sum_tree := s\<rparr>) fs);
     i \<leftarrow> fs_heap fs p;
     (_, fs) \<leftarrow> on_fsb (\<lambda>sb. nkfs_balloc_block_free sb (i_block i)) fs;
     Some (put_inode p (i\<lparr>i_block := 0, i_size := 0\<rparr>) fs)
   }"

definition nkfs_inode_write :: "nat \<Rightarrow> nkfs_fs \<Rightarrow> (int \<times> nkfs_fs) option" where
  "nkfs_inode_write p fs = do {
     i \<leftarrow> fs_heap fs p;
     assert_that (i_block i \<noteq> 0);
     (ok, fs) \<leftarrow> on_fdev (\<lambda>dev. dio_clu_get dev (i_block i)) fs;
     if \<not> ok then Some (- EIO, fs)
     else (case fs_mem fs of
       (ok, fs) \<Rightarrow> (if \<not> ok then do {
           fs \<leftarrow> fs_clu_put (i_block i) fs;
           Some (- ENOMEM, fs)
         } else do {
           (err, fs) \<leftarrow> on_fdev (\<lambda>dev. dio_clu_write dev (i_block i) (inode_disk_bytes (nkfs_inode_to_on_disk i)) 0) fs;
           (err, fs) \<leftarrow> (if err \<noteq> 0 then Some (err, fs) else on_fdev (\<lambda>dev. dio_clu_sync_index dev (i_block i)) fs);
           fs \<leftarrow> fs_clu_put (i_block i) fs;
           Some (err, fs)
         }))
   }"

definition nkfs_inode_write_dirty :: "nat \<Rightarrow> nkfs_fs \<Rightarrow> (int \<times> nkfs_fs) option" where
  "nkfs_inode_write_dirty p fs = do {
     i \<leftarrow> fs_heap fs p;
     if \<not> i_dirty i then Some (0, fs)
     else do {
       (err, fs) \<leftarrow> nkfs_inode_write p fs;
       if err \<noteq> 0 then Some (err, fs)
       else do {
         i \<leftarrow> fs_heap fs p;
         Some (0, put_inode p (i\<lparr>i_dirty := False\<rparr>) fs)
       }
     }
   }"

text \<open>The trees of a new inode, the numbers of their root blocks, and the inode's block written.\<close>

definition inode_fill :: "nat \<Rightarrow> nkfs_fs \<Rightarrow> (bool \<times> nkfs_fs) option" where
  "inode_fill p fs = do {
     (ok, fs) \<leftarrow> inode_trees p 0 0 fs;
     if \<not> ok then Some (False, fs)
     else do {
       i \<leftarrow> fs_heap fs p;
       t \<leftarrow> i_blocks_tree i;
       s \<leftarrow> i_blocks_sum_tree i;
       tb \<leftarrow> nkfs_btree_root_block t;
       sb \<leftarrow> nkfs_btree_root_block s;
       (err, fs) \<leftarrow> nkfs_inode_write p (put_inode p (i\<lparr>i_blocks_tree_block := tb, i_blocks_sum_tree_block := sb\<rparr>) fs);
       Some (err = 0, fs)
     }
   }"

definition nkfs_inode_create :: "nkfs_fs \<Rightarrow> nkfs_obj_id \<Rightarrow> (nat option \<times> nkfs_fs) option" where
  "nkfs_inode_create fs ino =
     (case nkfs_inode_alloc fs of
        (None, fs) \<Rightarrow> Some (None, fs)
      | (Some p, fs) \<Rightarrow> do {
          ((err, block), fs) \<leftarrow> on_fsb nkfs_balloc_block_alloc fs;
          if err \<noteq> 0 then do {
            fs \<leftarrow> nkfs_inode_free p fs;
            Some (None, fs)
          } else do {
            assert_that (block \<noteq> 0);
            i \<leftarrow> fs_heap fs p;
            (ok, fs) \<leftarrow> inode_fill p (put_inode p (i\<lparr>i_block := block, i_ino := ino\<rparr>) fs);
            if \<not> ok then do {
              fs \<leftarrow> nkfs_inode_delete p fs;
              fs \<leftarrow> nkfs_inode_free p fs;
              Some (None, fs)
            } else do {
              (inserted, fs) \<leftarrow> nkfs_inodes_insert p fs;
              assert_that (inserted = p);
              fs \<leftarrow> nkfs_inode_deref inserted fs;
              Some (Some p, fs)
            }
          }
        })"

section \<open>Blocks of a file\<close>

definition nkfs_inode_block_to_sum_block :: "u64 \<Rightarrow> u32 \<Rightarrow> u64 \<times> u32" where
  "nkfs_inode_block_to_sum_block block bs = (let nbytes = block * 8 in (nkfs_div nbytes (ucast bs), nkfs_mod nbytes (ucast bs)))"

definition nkfs_inode_block_open_clus :: "inode_block \<Rightarrow> nkfs_fs \<Rightarrow> ((int \<times> inode_block) \<times> nkfs_fs) option" where
  "nkfs_inode_block_open_clus ib fs = do {
     assert_that (ib_clu ib = None \<and> ib_sum_clu ib = None);
     (ok, fs) \<leftarrow> on_fdev (\<lambda>dev. dio_clu_get dev (ib_block ib)) fs;
     if \<not> ok then Some ((- EIO, ib), fs)
     else do {
       (ok, fs) \<leftarrow> on_fdev (\<lambda>dev. dio_clu_get dev (ib_sum_block ib)) fs;
       if \<not> ok then do {
         fs \<leftarrow> fs_clu_put (ib_block ib) fs;
         Some ((- EIO, ib), fs)
       } else Some ((0, ib\<lparr>ib_clu := Some (ib_block ib), ib_sum_clu := Some (ib_sum_block ib)\<rparr>), fs)
     }
   }"

definition fs_put_opt :: "u64 option \<Rightarrow> nkfs_fs \<Rightarrow> nkfs_fs option" where
  "fs_put_opt c fs = (case c of None \<Rightarrow> Some fs | Some i \<Rightarrow> fs_clu_put i fs)"

definition nkfs_inode_block_relse :: "inode_block \<Rightarrow> nkfs_fs \<Rightarrow> nkfs_fs option" where
  "nkfs_inode_block_relse ib fs = do {
     fs \<leftarrow> fs_put_opt (ib_clu ib) fs;
     fs_put_opt (ib_sum_clu ib) fs
   }"

definition nkfs_inode_block_zero :: inode_block where
  "nkfs_inode_block_zero = \<lparr>ib_vblock = 0, ib_block = 0, ib_vsum_block = 0, ib_sum_block = 0, ib_clu = None, ib_sum_clu = None, ib_sum_off = 0\<rparr>"

text \<open>The checksum of a cluster in memory.\<close>

definition clu_sum_of :: "dio_dev \<Rightarrow> u64 \<Rightarrow> u64 option" where
  "clu_sum_of dev i = do {
     c \<leftarrow> RBT.lookup (clus_root dev) i;
     Some (csum_pieces (clu_pages c))
   }"

definition nkfs_inode_block_write :: "inode_block \<Rightarrow> nkfs_fs \<Rightarrow> (int \<times> nkfs_fs) option" where
  "nkfs_inode_block_write ib fs = do {
     clu \<leftarrow> ib_clu ib;
     sum_clu \<leftarrow> ib_sum_clu ib;
     sum \<leftarrow> clu_sum_of (ddev (fs_sb fs)) clu;
     (_, fs) \<leftarrow> on_fdev (\<lambda>dev. do { dev \<leftarrow> dio_clu_poke dev sum_clu (unat (ib_sum_off ib)) (le_bytes 8 sum); Some ((), dev) }) fs;
     (_, fs) \<leftarrow> on_fdev (\<lambda>dev. dio_clu_set_dirty dev clu) fs;
     (_, fs) \<leftarrow> on_fdev (\<lambda>dev. dio_clu_set_dirty dev sum_clu) fs;
     (err, fs) \<leftarrow> on_fdev (\<lambda>dev. dio_clu_sync_index dev clu) fs;
     if err \<noteq> 0 then Some (err, fs) else on_fdev (\<lambda>dev. dio_clu_sync_index dev sum_clu) fs
   }"

text \<open>The end of a failed allocation; the flags say what has been done for the checksum block.\<close>

definition block_alloc_fail :: "nat \<Rightarrow> bool \<Rightarrow> bool \<Rightarrow> inode_block \<Rightarrow> int \<Rightarrow> nkfs_fs \<Rightarrow> ((int \<times> inode_block) \<times> nkfs_fs) option" where
  "block_alloc_fail p sum_block_inserted sum_block_allocated ib err fs = do {
     fs \<leftarrow> (if sum_block_inserted then do {
         (_, fs) \<leftarrow> on_blocks_sum_tree (\<lambda>t. nkfs_btree_delete_key t (nkfs_btree_key_by_u64 (ib_vsum_block ib))) p fs;
         Some fs
       } else Some fs);
     fs \<leftarrow> (if sum_block_allocated then do {
         (_, fs) \<leftarrow> on_fsb (\<lambda>sb. nkfs_balloc_block_free sb (ib_sum_block ib)) fs;
         Some fs
       } else Some fs);
     (_, fs) \<leftarrow> on_fsb (\<lambda>sb. nkfs_balloc_block_free sb (ib_block ib)) fs;
     fs \<leftarrow> nkfs_inode_block_relse ib fs;
     Some ((err, nkfs_inode_block_zero), fs)
   }"

text \<open>The checksum block of a new block: found, or allocated and entered; the flags say how far it came.\<close>

definition block_sum_block :: "nat \<Rightarrow> inode_block \<Rightarrow> nkfs_fs \<Rightarrow> ((int \<times> bool \<times> bool \<times> inode_block) \<times> nkfs_fs) option" where
  "block_sum_block p ib fs = do {
     (r, fs) \<leftarrow> on_blocks_sum_tree (\<lambda>t. nkfs_btree_find_key t (nkfs_btree_key_by_u64 (ib_vsum_block ib))) p fs;
     case r of
       Inr sum_block \<Rightarrow> Some ((0, False, False, ib\<lparr>ib_sum_block := sum_block\<rparr>), fs)
     | Inl _ \<Rightarrow> do {
         ((err, sum_block), fs) \<leftarrow> on_fsb nkfs_balloc_block_alloc fs;
         if err \<noteq> 0 then Some ((err, False, False, ib), fs)
         else do {
           (err, fs) \<leftarrow> on_blocks_sum_tree (\<lambda>t. nkfs_btree_insert_key t (nkfs_btree_key_by_u64 (ib_vsum_block ib)) sum_block False) p fs;
           Some ((err, err = 0, True, ib\<lparr>ib_sum_block := sum_block\<rparr>), fs)
         }
       }
   }"

definition nkfs_inode_block_alloc :: "nat \<Rightarrow> u64 \<Rightarrow> nkfs_fs \<Rightarrow> ((int \<times> inode_block) \<times> nkfs_fs) option" where
  "nkfs_inode_block_alloc p vblock fs = do {
     ((err, block), fs) \<leftarrow> on_fsb nkfs_balloc_block_alloc fs;
     if err \<noteq> 0 then Some ((err, nkfs_inode_block_zero), fs)
     else do {
       let (vsum_block, sum_off) = nkfs_inode_block_to_sum_block vblock (bsize (fs_sb fs));
       let ib = nkfs_inode_block_zero\<lparr>ib_vblock := vblock, ib_block := block, ib_vsum_block := vsum_block, ib_sum_off := sum_off\<rparr>;
       ((err, inserted, allocated, ib), fs) \<leftarrow> block_sum_block p ib fs;
       if err \<noteq> 0 then block_alloc_fail p inserted allocated ib err fs
       else do {
         ((err, ib), fs) \<leftarrow> nkfs_inode_block_open_clus ib fs;
         if err \<noteq> 0 then block_alloc_fail p inserted allocated ib err fs
         else do {
           (err, fs) \<leftarrow> on_blocks_tree (\<lambda>t. nkfs_btree_insert_key t (nkfs_btree_key_by_u64 vblock) (ib_block ib) False) p fs;
           if err \<noteq> 0 then block_alloc_fail p inserted allocated ib err fs
           else Some ((0, ib), fs)
         }
       }
     }
   }"

definition nkfs_inode_block_erase :: "nat \<Rightarrow> inode_block \<Rightarrow> nkfs_fs \<Rightarrow> nkfs_fs option" where
  "nkfs_inode_block_erase p ib fs = do {
     (_, fs) \<leftarrow> on_blocks_tree (\<lambda>t. nkfs_btree_delete_key t (nkfs_btree_key_by_u64 (ib_vblock ib))) p fs;
     (_, fs) \<leftarrow> on_fsb (\<lambda>sb. nkfs_balloc_block_free sb (ib_block ib)) fs;
     Some fs
   }"

definition nkfs_inode_block_check_sum :: "inode_block \<Rightarrow> nkfs_fs \<Rightarrow> int option" where
  "nkfs_inode_block_check_sum ib fs = do {
     clu \<leftarrow> ib_clu ib;
     sum_clu \<leftarrow> ib_sum_clu ib;
     sum \<leftarrow> clu_sum_of (ddev (fs_sb fs)) clu;
     old \<leftarrow> dio_clu_peek (ddev (fs_sb fs)) sum_clu (unat (ib_sum_off ib)) 8;
     Some (if old \<noteq> le_bytes 8 sum then - EINVAL else 0)
   }"

definition nkfs_inode_block_read :: "nat \<Rightarrow> u64 \<Rightarrow> nkfs_fs \<Rightarrow> ((int \<times> inode_block) \<times> nkfs_fs) option" where
  "nkfs_inode_block_read p vblock fs = do {
     (r, fs) \<leftarrow> on_blocks_tree (\<lambda>t. nkfs_btree_find_key t (nkfs_btree_key_by_u64 vblock)) p fs;
     case r of
       Inl err \<Rightarrow> Some ((err, nkfs_inode_block_zero), fs)
     | Inr block \<Rightarrow> do {
         let (vsum_block, sum_off) = nkfs_inode_block_to_sum_block vblock (bsize (fs_sb fs));
         let ib = nkfs_inode_block_zero\<lparr>ib_vblock := vblock, ib_block := block, ib_vsum_block := vsum_block, ib_sum_off := sum_off\<rparr>;
         (r, fs) \<leftarrow> on_blocks_sum_tree (\<lambda>t. nkfs_btree_find_key t (nkfs_btree_key_by_u64 vsum_block)) p fs;
         case r of
           Inl err \<Rightarrow> do {
             fs \<leftarrow> nkfs_inode_block_relse ib fs;
             Some ((err, nkfs_inode_block_zero), fs)
           }
         | Inr sum_block \<Rightarrow> do {
             ((err, ib), fs) \<leftarrow> nkfs_inode_block_open_clus (ib\<lparr>ib_sum_block := sum_block\<rparr>) fs;
             if err \<noteq> 0 then do {
               fs \<leftarrow> nkfs_inode_block_relse ib fs;
               Some ((err, nkfs_inode_block_zero), fs)
             } else Some ((0, ib), fs)
           }
       }
   }"

definition nkfs_inode_block_read_create :: "nat \<Rightarrow> u64 \<Rightarrow> nkfs_fs \<Rightarrow> ((int \<times> inode_block) \<times> nkfs_fs) option" where
  "nkfs_inode_block_read_create p vblock fs = do {
     ((err, ib), fs) \<leftarrow> nkfs_inode_block_read p vblock fs;
     ((err, ib), fs) \<leftarrow> (if err \<noteq> 0 then do {
         ((err, ib), fs) \<leftarrow> nkfs_inode_block_alloc p vblock fs;
         if err \<noteq> 0 then Some ((err, ib), fs)
         else do {
           (err, fs) \<leftarrow> nkfs_inode_block_write ib fs;
           if err \<noteq> 0 then do {
             fs \<leftarrow> nkfs_inode_block_erase p ib fs;
             Some ((err, ib), fs)
           } else Some ((0, ib), fs)
         }
       } else do {
         err \<leftarrow> nkfs_inode_block_check_sum ib fs;
         Some ((err, ib), fs)
       });
     if err \<noteq> 0 then do {
       fs \<leftarrow> nkfs_inode_block_relse ib fs;
       Some ((err, nkfs_inode_block_zero), fs)
     } else Some ((0, ib), fs)
   }"

section \<open>Reading and writing\<close>

abbreviation (input) ERANGE :: int where "ERANGE \<equiv> 34"

text \<open>The result of a transfer: the error, the bytes read, the count and the end of file.\<close>

record io_result =
  io_err :: int
  io_data :: "u8 list"
  io_count :: u32
  io_eof :: bool

definition io_fail :: "int \<Rightarrow> io_result" where
  "io_fail err = \<lparr>io_err = err, io_data = [], io_count = 0, io_eof = False\<rparr>"

definition nkfs_inode_read_block_buf :: "nat \<Rightarrow> u64 \<Rightarrow> u32 \<Rightarrow> u32 \<Rightarrow> nkfs_fs \<Rightarrow> (io_result \<times> nkfs_fs) option" where
  "nkfs_inode_read_block_buf p vblock off len fs = do {
     assert_that (\<not> ucast off + ucast len > (ucast (bsize (fs_sb fs)) :: u64));
     i \<leftarrow> fs_heap fs p;
     let data_off = vblock * ucast (bsize (fs_sb fs)) + ucast off;
     if data_off > i_size i then Some (io_fail (- ERANGE), fs)
     else if data_off = i_size i then Some (\<lparr>io_err = 0, io_data = [], io_count = 0, io_eof = True\<rparr>, fs)
     else do {
       ((err, ib), fs) \<leftarrow> nkfs_inode_block_read p vblock fs;
       if err \<noteq> 0 then Some (io_fail err, fs)
       else do {
         err \<leftarrow> nkfs_inode_block_check_sum ib fs;
         (r, fs) \<leftarrow> (if err \<noteq> 0 then Some (io_fail err, fs)
           else do {
             i \<leftarrow> fs_heap fs p;
             let (llen, eof) = (if data_off + ucast len \<ge> i_size i then (ucast (i_size i - data_off), True) else (len, False));
             clu \<leftarrow> ib_clu ib;
             ((err, buf), fs) \<leftarrow> on_fdev (\<lambda>dev. dio_clu_read dev clu (unat (llen :: u32)) (unat off)) fs;
             if err \<noteq> 0 then Some ((io_fail err)\<lparr>io_eof := eof\<rparr>, fs)
             else Some (\<lparr>io_err = 0, io_data = buf, io_count = llen, io_eof = eof\<rparr>, fs)
           });
         fs \<leftarrow> nkfs_inode_block_relse ib fs;
         Some (r, fs)
       }
     }
   }"

definition nkfs_inode_write_block_buf :: "nat \<Rightarrow> u64 \<Rightarrow> u32 \<Rightarrow> u8 list \<Rightarrow> nkfs_fs \<Rightarrow> (io_result \<times> nkfs_fs) option" where
  "nkfs_inode_write_block_buf p vblock off buf fs = do {
     let len = (of_nat (length buf) :: u32);
     assert_that (\<not> ucast off + ucast len > (ucast (bsize (fs_sb fs)) :: u64));
     ((err, ib), fs) \<leftarrow> nkfs_inode_block_read_create p vblock fs;
     if err \<noteq> 0 then Some (io_fail err, fs)
     else do {
       clu \<leftarrow> ib_clu ib;
       (err, fs) \<leftarrow> on_fdev (\<lambda>dev. dio_clu_write dev clu buf (unat off)) fs;
       (err, fs) \<leftarrow> (if err \<noteq> 0 then Some (err, fs) else nkfs_inode_block_write ib fs);
       (err, fs) \<leftarrow> (if err \<noteq> 0 then Some (err, fs)
         else do {
           let data_end = vblock * ucast (bsize (fs_sb fs)) + ucast off + ucast len;
           i \<leftarrow> fs_heap fs p;
           if data_end > i_size i then nkfs_inode_write_dirty p (put_inode p (nkfs_inode_set_size i data_end) fs)
           else Some (0, fs)
         });
       fs \<leftarrow> nkfs_inode_block_relse ib fs;
       Some (if err \<noteq> 0 then io_fail err else \<lparr>io_err = 0, io_data = [], io_count = len, io_eof = False\<rparr>, fs)
     }
   }"

text \<open>
  The loop over the blocks of a buffer.  For a write the bytes still to be written
  are given, for a read only how many; the bytes read come back in order.
\<close>

datatype io_buf = IoWrite "u8 list" | IoRead u32

definition io_rest :: "io_buf \<Rightarrow> u32" where
  "io_rest b = (case b of IoWrite bs \<Rightarrow> of_nat (length bs) | IoRead n \<Rightarrow> n)"

definition io_skip :: "u32 \<Rightarrow> io_buf \<Rightarrow> io_buf" where
  "io_skip k b = (case b of IoWrite bs \<Rightarrow> IoWrite (drop (unat k) bs) | IoRead n \<Rightarrow> IoRead (n - k))"

definition io_block_buf :: "nat \<Rightarrow> u64 \<Rightarrow> u32 \<Rightarrow> u32 \<Rightarrow> io_buf \<Rightarrow> nkfs_fs \<Rightarrow> (io_result \<times> nkfs_fs) option" where
  "io_block_buf p vblock loff llen b fs =
     (case b of
        IoWrite bs \<Rightarrow> nkfs_inode_write_block_buf p vblock loff (take (unat llen) bs) fs
      | IoRead _ \<Rightarrow> nkfs_inode_read_block_buf p vblock loff llen fs)"

partial_function (option) nkfs_inode_io_loop ::
  "nat \<Rightarrow> u64 \<Rightarrow> u32 \<Rightarrow> io_buf \<Rightarrow> u32 \<Rightarrow> u8 list \<Rightarrow> nkfs_fs \<Rightarrow> (io_result \<times> nkfs_fs) option" where
  "nkfs_inode_io_loop p vblock loff b io_count_sum acc fs =
     (if io_rest b = 0 then Some (\<lparr>io_err = 0, io_data = acc, io_count = io_count_sum, io_eof = False\<rparr>, fs)
      else do {
        let llen = (if io_rest b + loff > bsize (fs_sb fs) then bsize (fs_sb fs) - loff else io_rest b);
        (r, fs) \<leftarrow> io_block_buf p vblock loff llen b fs;
        if io_err r \<noteq> 0 then Some (\<lparr>io_err = io_err r, io_data = acc, io_count = 0, io_eof = False\<rparr>, fs)
        else if io_eof r then Some (\<lparr>io_err = 0, io_data = acc @ io_data r, io_count = io_count_sum + io_count r, io_eof = True\<rparr>, fs)
        else do {
          assert_that (\<not> llen \<noteq> io_count r);
          nkfs_inode_io_loop p (vblock + 1) 0 (io_skip llen b) (io_count_sum + io_count r) (acc @ io_data r) fs
        }
      })"

declare nkfs_inode_io_loop.simps [code]

definition nkfs_inode_io_buf :: "nat \<Rightarrow> u64 \<Rightarrow> io_buf \<Rightarrow> nkfs_fs \<Rightarrow> (io_result \<times> nkfs_fs) option" where
  "nkfs_inode_io_buf p off b fs =
     nkfs_inode_io_loop p (nkfs_div off (ucast (bsize (fs_sb fs)))) (nkfs_mod off (ucast (bsize (fs_sb fs)))) b 0 [] fs"

text \<open>
  The loop over the pages of a request.  The pages are the caller's; a read puts
  the bytes of each part where the part begins.
\<close>

definition page_buf :: "bool \<Rightarrow> u8 list \<Rightarrow> u32 \<Rightarrow> u32 \<Rightarrow> io_buf" where
  "page_buf write page pg_off llen = (if write then IoWrite (take (unat llen) (drop (unat pg_off) page)) else IoRead llen)"

partial_function (option) nkfs_inode_io_pages_loop ::
  "nat \<Rightarrow> bool \<Rightarrow> u64 \<Rightarrow> u32 \<Rightarrow> u32 \<Rightarrow> nat \<Rightarrow> u8 list list \<Rightarrow> u32 \<Rightarrow> nkfs_fs \<Rightarrow> ((int \<times> u32 \<times> u8 list list) \<times> nkfs_fs) option" where
  "nkfs_inode_io_pages_loop p write off pg_off len i pages io_count_sum fs =
     (if len = 0 then Some ((0, io_count_sum, pages), fs)
      else if i \<ge> length pages then Some ((- EINVAL, 0, pages), fs)
      else do {
        let llen = (if len + pg_off > of_nat PAGE_SIZE then of_nat PAGE_SIZE - pg_off else len);
        (r, fs) \<leftarrow> nkfs_inode_io_buf p off (page_buf write (pages ! i) pg_off llen) fs;
        let pages = pages[i := memcpy_at (pages ! i) (unat pg_off) (io_data r)];
        if io_err r \<noteq> 0 then Some ((io_err r, 0, pages), fs)
        else if io_eof r then Some ((0, io_count_sum + io_count r, pages), fs)
        else do {
          assert_that (\<not> io_count r \<noteq> llen);
          nkfs_inode_io_pages_loop p write (off + ucast llen) 0 (len - llen) (i + 1) pages (io_count_sum + io_count r) fs
        }
      })"

declare nkfs_inode_io_pages_loop.simps [code]

definition nkfs_inode_io_pages :: "nat \<Rightarrow> u64 \<Rightarrow> u32 \<Rightarrow> u32 \<Rightarrow> u8 list list \<Rightarrow> bool \<Rightarrow> nkfs_fs \<Rightarrow> ((int \<times> u32 \<times> u8 list list) \<times> nkfs_fs) option" where
  "nkfs_inode_io_pages p off pg_off len pages write fs = nkfs_inode_io_pages_loop p write off pg_off len 0 pages 0 fs"

end
