(* ===== verification/Super.thy ===== *)
theory Super
  imports Inode
begin

text \<open>
  The superblock (\<open>src/core/super.c\<close>): the header of an image, formatting and
  loading, and the objects of an image, which are its inodes found by identifier
  in the tree of inodes.  \<open>nkfs_world\<close> has the superblocks of all devices under
  their addresses and the list of those in use; an operation on objects looks for
  the superblocks that know the object.

  The block device gives its size; what the random generator returns for a new
  identifier is an argument.  The semaphore of the list is not modelled.
\<close>

section \<open>The header of an image\<close>

abbreviation (input) NKFS_IMAGE_MAGIC :: u32 where "NKFS_IMAGE_MAGIC \<equiv> 0x3EFFBDAE"
abbreviation (input) NKFS_IMAGE_SIG :: u32 where "NKFS_IMAGE_SIG \<equiv> 0xBEDABEDA"
abbreviation (input) NKFS_IMAGE_VER_1 :: u32 where "NKFS_IMAGE_VER_1 \<equiv> 1"
abbreviation (input) NKFS_IMAGE_BM_BLOCK :: u64 where "NKFS_IMAGE_BM_BLOCK \<equiv> 1"

record nkfs_image_header =
  hd_magic :: u32
  hd_version :: u32
  hd_id :: nkfs_obj_id
  hd_size :: u64
  hd_bm_block :: u64
  hd_bm_blocks :: u64
  hd_inodes_tree_block :: u64
  hd_used_blocks :: u64
  hd_bsize :: u32
  hd_sum :: u64
  hd_sig :: u32

definition image_header_bytes :: "nkfs_image_header \<Rightarrow> u8 list" where
  "image_header_bytes h = le_bytes 4 (hd_magic h) @ le_bytes 4 (hd_version h) @ nkfs_obj_id_bytes (hd_id h) @ le_bytes 8 (hd_size h)
     @ le_bytes 8 (hd_bm_block h) @ le_bytes 8 (hd_bm_blocks h) @ le_bytes 8 (hd_inodes_tree_block h) @ le_bytes 8 (hd_used_blocks h)
     @ le_bytes 4 (hd_bsize h) @ le_bytes 8 (hd_sum h) @ le_bytes 4 (hd_sig h)"

definition image_header_of_bytes :: "u8 list \<Rightarrow> nkfs_image_header" where
  "image_header_of_bytes bs = \<lparr>hd_magic = le_word (take 4 bs), hd_version = le_word (take 4 (drop 4 bs)),
     hd_id = nkfs_obj_id_of_bytes (take 16 (drop 8 bs)), hd_size = le_word (take 8 (drop 24 bs)),
     hd_bm_block = le_word (take 8 (drop 32 bs)), hd_bm_blocks = le_word (take 8 (drop 40 bs)),
     hd_inodes_tree_block = le_word (take 8 (drop 48 bs)), hd_used_blocks = le_word (take 8 (drop 56 bs)),
     hd_bsize = le_word (take 4 (drop 64 bs)), hd_sum = le_word (take 8 (drop 68 bs)), hd_sig = le_word (take 4 (drop 76 bs))\<rparr>"

abbreviation image_header_size :: nat where "image_header_size \<equiv> 80"

definition nkfs_sb_gen_header :: "nkfs_sb \<Rightarrow> u64 \<Rightarrow> u32 \<Rightarrow> int + u8 list \<Rightarrow> int \<times> nkfs_sb" where
  "nkfs_sb_gen_header sb sz bs rnd =
     (if nkfs_mod sz (ucast bs) \<noteq> 0 \<or> sz \<le> ucast bs then (- EINVAL, sb)
      else
        let blocks = nkfs_div_round_up (nkfs_div_round_up (nkfs_div sz (ucast bs)) 8) (ucast bs) in
        if sz \<le> (NKFS_IMAGE_BM_BLOCK + blocks) * ucast bs then (- EINVAL, sb)
        else (case nkfs_obj_id_gen rnd of
            Inl err \<Rightarrow> (err, sb)
          | Inr oid \<Rightarrow> (0, sb\<lparr>sb_id := oid, sb_magic := NKFS_IMAGE_MAGIC, sb_version := NKFS_IMAGE_VER_1, sb_size := sz, bsize := bs,
              bm_block := NKFS_IMAGE_BM_BLOCK, bm_blocks := blocks\<rparr>)))"

definition nkfs_image_header_sum :: "nkfs_image_header \<Rightarrow> u64" where
  "nkfs_image_header_sum h = csum_pieces [take 68 (image_header_bytes h)]"

definition nkfs_sb_parse_header :: "nkfs_sb \<Rightarrow> nkfs_image_header \<Rightarrow> int \<times> nkfs_sb" where
  "nkfs_sb_parse_header sb h =
     (if be32_to_cpu (hd_sig h) \<noteq> NKFS_IMAGE_SIG then (- EINVAL, sb)
      else if hd_sum h \<noteq> nkfs_image_header_sum h then (- EINVAL, sb)
      else (0, sb\<lparr>sb_magic := be32_to_cpu (hd_magic h), sb_version := be32_to_cpu (hd_version h), sb_size := be64_to_cpu (hd_size h),
        bsize := be32_to_cpu (hd_bsize h), bm_block := be64_to_cpu (hd_bm_block h), bm_blocks := be64_to_cpu (hd_bm_blocks h),
        inodes_tree_block := be64_to_cpu (hd_inodes_tree_block h), used_blocks := be64_to_cpu (hd_used_blocks h), sb_id := hd_id h\<rparr>))"

definition nkfs_sb_fill_header :: "nkfs_sb \<Rightarrow> nkfs_image_header" where
  "nkfs_sb_fill_header sb =
     (let h = \<lparr>hd_magic = cpu_to_be32 (sb_magic sb), hd_version = cpu_to_be32 (sb_version sb), hd_id = sb_id sb,
         hd_size = cpu_to_be64 (sb_size sb), hd_bm_block = cpu_to_be64 (bm_block sb), hd_bm_blocks = cpu_to_be64 (bm_blocks sb),
         hd_inodes_tree_block = cpu_to_be64 (inodes_tree_block sb), hd_used_blocks = cpu_to_be64 (used_blocks sb),
         hd_bsize = cpu_to_be32 (bsize sb), hd_sum = 0, hd_sig = cpu_to_be32 NKFS_IMAGE_SIG\<rparr> in
      h\<lparr>hd_sum := nkfs_image_header_sum h\<rparr>)"

definition nkfs_sb_sync :: "nkfs_fs \<Rightarrow> (int \<times> nkfs_fs) option" where
  "nkfs_sb_sync fs = do {
     (ok, fs) \<leftarrow> on_fdev (\<lambda>dev. dio_clu_get dev 0) fs;
     if \<not> ok then Some (- EIO, fs)
     else do {
       (err, fs) \<leftarrow> on_fdev (\<lambda>dev. dio_clu_write dev 0 (image_header_bytes (nkfs_sb_fill_header (fs_sb fs))) 0) fs;
       (err, fs) \<leftarrow> (if err \<noteq> 0 then Some (err, fs) else on_fdev (\<lambda>dev. dio_clu_sync_index dev 0) fs);
       fs \<leftarrow> fs_clu_put 0 fs;
       Some (err, fs)
     }
   }"

definition nkfs_sb_check :: "nkfs_sb \<Rightarrow> int" where
  "nkfs_sb_check sb =
     (if sb_magic sb \<noteq> NKFS_IMAGE_MAGIC then - EINVAL
      else if sb_version sb \<noteq> NKFS_IMAGE_VER_1 then - EINVAL
      else if sb_size sb = 0 \<or> bsize sb = 0 \<or> sb_size sb \<le> ucast (bsize sb) \<or> nkfs_mod (sb_size sb) (ucast (bsize sb)) \<noteq> 0 then - EINVAL
      else if bm_block sb \<noteq> NKFS_IMAGE_BM_BLOCK then - EINVAL
      else if sb_size sb \<le> bm_blocks sb + NKFS_IMAGE_BM_BLOCK then - EINVAL
      else 0)"

text \<open>A zeroed superblock of a device.\<close>

definition new_fs :: "dio_dev \<Rightarrow> nkfs_fs" where
  "new_fs dev = \<lparr>fs_sb = \<lparr>ddev = dev, sb_refs = 1, sb_id = nkfs_obj_id_zero, nr_blocks = 0, sb_magic = 0, sb_version = 0, sb_size = 0,
     bm_block = 0, bm_blocks = 0, inodes_tree_block = 0, used_blocks = 0, bsize = 0, sb_stopping = False\<rparr>,
     fs_inodes = RBT.empty, inodes_active = 0, inodes_tree = None, fs_heap = (\<lambda>_. None), fs_next = 0\<rparr>"

text \<open>
  The header is None when the image is to be generated.  The device is returned
  when there is no superblock.
\<close>

definition nkfs_sb_create :: "dio_dev \<Rightarrow> u64 \<Rightarrow> u32 \<Rightarrow> int + u8 list \<Rightarrow> nkfs_image_header option \<Rightarrow> (int \<times> dio_dev) + nkfs_fs" where
  "nkfs_sb_create dev dev_size dev_bsize rnd header =
     (case next_mem dev of
        (ok, dev) \<Rightarrow>
          if \<not> ok then Inl (- ENOMEM, dev)
          else
            let fs = new_fs dev;
                (err, sb) = (case header of
                    None \<Rightarrow> nkfs_sb_gen_header (fs_sb fs) dev_size dev_bsize rnd
                  | Some h \<Rightarrow> nkfs_sb_parse_header (fs_sb fs) h) in
            if err \<noteq> 0 then Inl (err, dev)
            else
              let err = nkfs_sb_check sb in
              if err \<noteq> 0 then Inl (err, dev)
              else Inr (fs\<lparr>fs_sb := sb\<lparr>nr_blocks := nkfs_div (sb_size sb) (ucast (bsize sb))\<rparr>\<rparr>))"

section \<open>References\<close>

definition nkfs_sb_release :: "nkfs_fs \<Rightarrow> nkfs_fs option" where
  "nkfs_sb_release fs = do {
     fs \<leftarrow> fs_tree_deref (inodes_tree fs) fs;
     Some (fs\<lparr>inodes_tree := None\<rparr>)
   }"

text \<open>What remains of a deleted superblock is its device.\<close>

definition nkfs_sb_delete :: "nkfs_fs \<Rightarrow> dio_dev option" where
  "nkfs_sb_delete fs = do {
     fs \<leftarrow> nkfs_sb_release fs;
     Some (ddev (fs_sb fs))
   }"

definition nkfs_sb_ref :: "nkfs_fs \<Rightarrow> nkfs_fs option" where
  "nkfs_sb_ref fs = do {
     assert_that (\<not> sb_refs (fs_sb fs) \<le> 0);
     Some (fs\<lparr>fs_sb := (fs_sb fs)\<lparr>sb_refs := sb_refs (fs_sb fs) + 1\<rparr>\<rparr>)
   }"

text \<open>Inl is the device of a superblock that is gone.\<close>

definition nkfs_sb_deref :: "nkfs_fs \<Rightarrow> (dio_dev + nkfs_fs) option" where
  "nkfs_sb_deref fs = do {
     assert_that (\<not> sb_refs (fs_sb fs) \<le> 0);
     let fs = fs\<lparr>fs_sb := (fs_sb fs)\<lparr>sb_refs := sb_refs (fs_sb fs) - 1\<rparr>\<rparr>;
     if sb_refs (fs_sb fs) = 0 then do {
       dev \<leftarrow> nkfs_sb_delete fs;
       Some (Inl dev)
     } else Some (Inr fs)
   }"

section \<open>Formatting and loading\<close>

text \<open>The blocks of the header and of the bitmap are marked one by one.\<close>

partial_function (option) sb_mark_loop :: "u64 \<Rightarrow> nkfs_sb \<Rightarrow> (int \<times> nkfs_sb) option" where
  "sb_mark_loop i sb =
     (if \<not> i < bm_block sb + bm_blocks sb then Some (0, sb)
      else do {
        (err, sb) \<leftarrow> nkfs_balloc_block_mark sb i True;
        if err \<noteq> 0 then Some (err, sb) else sb_mark_loop (i + 1) sb
      })"

declare sb_mark_loop.simps [code]

definition sb_format_tree :: "nkfs_fs \<Rightarrow> (int \<times> nkfs_fs) option" where
  "sb_format_tree fs = do {
     (err, fs) \<leftarrow> on_fsb nkfs_balloc_bm_clear fs;
     if err \<noteq> 0 then Some (err, fs)
     else do {
       (err, fs) \<leftarrow> on_fsb (sb_mark_loop 0) fs;
       if err \<noteq> 0 then Some (err, fs)
       else do {
         (t, fs) \<leftarrow> on_fsb (\<lambda>sb. nkfs_btree_create sb 0) fs;
         let fs = fs\<lparr>inodes_tree := t\<rparr>;
         case t of
           None \<Rightarrow> Some (- ENOMEM, fs)
         | Some t \<Rightarrow> do {
             block \<leftarrow> nkfs_btree_root_block t;
             Some (0, fs\<lparr>fs_sb := (fs_sb fs)\<lparr>inodes_tree_block := block\<rparr>\<rparr>)
           }
       }
     }
   }"

definition sb_format_header :: "nkfs_fs \<Rightarrow> (int \<times> nkfs_fs) option" where
  "sb_format_header fs = do {
     (_, fs) \<leftarrow> on_fdev (\<lambda>dev. dio_clu_zero dev 0) fs;
     (err, fs) \<leftarrow> on_fdev (\<lambda>dev. dio_clu_write dev 0 (image_header_bytes (nkfs_sb_fill_header (fs_sb fs))) 0) fs;
     if err \<noteq> 0 then Some (err, fs) else on_fdev (\<lambda>dev. dio_clu_sync_index dev 0) fs
   }"

definition nkfs_sb_format :: "dio_dev \<Rightarrow> u64 \<Rightarrow> u32 \<Rightarrow> int + u8 list \<Rightarrow> ((int \<times> dio_dev) + nkfs_fs) option" where
  "nkfs_sb_format dev dev_size dev_bsize rnd = do {
     (ok, dev) \<leftarrow> dio_clu_get dev 0;
     if \<not> ok then Some (Inl (- EIO, dev))
     else (case nkfs_sb_create dev dev_size dev_bsize rnd None of
         Inl (err, dev) \<Rightarrow> do {
           dev \<leftarrow> dio_clu_put dev 0;
           Some (Inl (err, dev))
         }
       | Inr fs \<Rightarrow> do {
           (err, fs) \<leftarrow> sb_format_tree fs;
           (err, fs) \<leftarrow> (if err \<noteq> 0 then Some (err, fs) else sb_format_header fs);
           if err \<noteq> 0 then do {
             dev \<leftarrow> nkfs_sb_delete fs;
             dev \<leftarrow> dio_clu_put dev 0;
             Some (Inl (err, dev))
           } else do {
             fs \<leftarrow> fs_clu_put 0 fs;
             Some (Inr fs)
           }
         })
   }"

definition sb_load_tree :: "u64 \<Rightarrow> nkfs_fs \<Rightarrow> (int \<times> nkfs_fs) option" where
  "sb_load_tree dev_size fs =
     (if sb_size (fs_sb fs) > dev_size then Some (- EINVAL, fs)
      else if inodes_tree_block (fs_sb fs) \<ge> nr_blocks (fs_sb fs) then Some (- EINVAL, fs)
      else do {
        (t, fs) \<leftarrow> on_fsb (\<lambda>sb. nkfs_btree_create sb (inodes_tree_block sb)) fs;
        let fs = fs\<lparr>inodes_tree := t\<rparr>;
        Some (if Option.is_none t then - EINVAL else 0, fs)
      })"

definition nkfs_sb_load :: "dio_dev \<Rightarrow> u64 \<Rightarrow> u32 \<Rightarrow> ((int \<times> dio_dev) + nkfs_fs) option" where
  "nkfs_sb_load dev dev_size dev_bsize = do {
     (ok, dev) \<leftarrow> dio_clu_get dev 0;
     if \<not> ok then Some (Inl (- EIO, dev))
     else do {
       ((err, buf), dev) \<leftarrow> dio_clu_read dev 0 image_header_size 0;
       case (if err \<noteq> 0 then Inl (err, dev) else nkfs_sb_create dev dev_size dev_bsize (Inl 0) (Some (image_header_of_bytes buf))) of
         Inl (err, dev) \<Rightarrow> do {
           dev \<leftarrow> dio_clu_put dev 0;
           Some (Inl (err, dev))
         }
       | Inr fs \<Rightarrow> do {
           (err, fs) \<leftarrow> sb_load_tree dev_size fs;
           if err \<noteq> 0 then do {
             dev \<leftarrow> nkfs_sb_delete fs;
             dev \<leftarrow> dio_clu_put dev 0;
             Some (Inl (err, dev))
           } else do {
             fs \<leftarrow> fs_clu_put 0 fs;
             Some (Inr fs)
           }
         }
     }
   }"

section \<open>Objects of one superblock\<close>

definition on_inodes_tree :: "(nkfs_btree \<Rightarrow> ('r \<times> nkfs_btree) option) \<Rightarrow> nkfs_fs \<Rightarrow> ('r \<times> nkfs_fs) option" where
  "on_inodes_tree f fs = do {
     t \<leftarrow> inodes_tree fs;
     (r, t, fs) \<leftarrow> on_tree f t fs;
     Some (r, fs\<lparr>inodes_tree := Some t\<rparr>)
   }"

text \<open>The tree of inodes and the inode of an object: Inl is the error of the search.\<close>

definition sb_open_obj :: "nkfs_obj_id \<Rightarrow> nkfs_fs \<Rightarrow> ((int + nat) \<times> nkfs_fs) option" where
  "sb_open_obj oid fs =
     (if sb_stopping (fs_sb fs) then Some (Inl (- EAGAIN), fs)
      else do {
        (r, fs) \<leftarrow> on_inodes_tree (\<lambda>t. nkfs_btree_find_key t (nkfs_obj_id_bytes oid)) fs;
        case r of
          Inl err \<Rightarrow> Some (Inl err, fs)
        | Inr iblock \<Rightarrow> do {
            (r, fs) \<leftarrow> nkfs_inode_read fs iblock;
            case r of
              None \<Rightarrow> Some (Inl (- EIO), fs)
            | Some p \<Rightarrow> do {
                i \<leftarrow> fs_heap fs p;
                assert_that (i_block i = iblock);
                Some (Inr p, fs)
              }
          }
      })"

definition nkfs_sb_get_obj :: "nkfs_obj_id \<Rightarrow> u64 \<Rightarrow> u32 \<Rightarrow> u32 \<Rightarrow> u8 list list \<Rightarrow> nkfs_fs \<Rightarrow> ((int \<times> u32 \<times> u8 list list) \<times> nkfs_fs) option" where
  "nkfs_sb_get_obj oid off pg_off len pages fs = do {
     (r, fs) \<leftarrow> sb_open_obj oid fs;
     case r of
       Inl err \<Rightarrow> Some ((err, 0, pages), fs)
     | Inr p \<Rightarrow> do {
         i \<leftarrow> fs_heap fs p;
         (r, fs) \<leftarrow> (if nkfs_obj_id_cmp (i_ino i) oid \<noteq> 0 then Some ((- ENOENT, 0, pages), fs)
           else nkfs_inode_io_pages p off pg_off len pages False fs);
         fs \<leftarrow> nkfs_inode_deref p fs;
         Some (r, fs)
       }
   }"

text \<open>
  The result of the generator is not looked at: when it fails, the identifier is
  what the stack held.
\<close>

definition nkfs_sb_create_obj :: "int + u8 list \<Rightarrow> nkfs_obj_id \<Rightarrow> nkfs_fs \<Rightarrow> ((int + nkfs_obj_id) \<times> nkfs_fs) option" where
  "nkfs_sb_create_obj rnd stack_id fs =
     (if sb_stopping (fs_sb fs) then Some (Inl (- EAGAIN), fs)
      else
        let obj_id = (case nkfs_obj_id_gen rnd of Inl _ \<Rightarrow> stack_id | Inr oid \<Rightarrow> oid) in
        do {
          (r, fs) \<leftarrow> nkfs_inode_create fs obj_id;
          case r of
            None \<Rightarrow> Some (Inl (- ENOMEM), fs)
          | Some p \<Rightarrow> do {
              i \<leftarrow> fs_heap fs p;
              (err, fs) \<leftarrow> on_inodes_tree (\<lambda>t. nkfs_btree_insert_key t (nkfs_obj_id_bytes (i_ino i)) (i_block i) False) fs;
              fs \<leftarrow> (if err \<noteq> 0 then nkfs_inode_delete p fs else Some fs);
              fs \<leftarrow> nkfs_inode_deref p fs;
              Some (if err \<noteq> 0 then Inl err else Inr obj_id, fs)
            }
        })"

definition nkfs_sb_put_obj :: "nkfs_obj_id \<Rightarrow> u64 \<Rightarrow> u32 \<Rightarrow> u32 \<Rightarrow> u8 list list \<Rightarrow> nkfs_fs \<Rightarrow> (int \<times> nkfs_fs) option" where
  "nkfs_sb_put_obj obj_id off pg_off len pages fs = do {
     (r, fs) \<leftarrow> sb_open_obj obj_id fs;
     case r of
       Inl err \<Rightarrow> Some (err, fs)
     | Inr p \<Rightarrow> do {
         ((err, _, _), fs) \<leftarrow> nkfs_inode_io_pages p off pg_off len pages True fs;
         fs \<leftarrow> nkfs_inode_deref p fs;
         Some (err, fs)
       }
   }"

text \<open>The two operations that test the tree's signature and do not compare the inode's block.\<close>

definition sb_find_obj :: "nkfs_obj_id \<Rightarrow> nkfs_fs \<Rightarrow> ((int + nat) \<times> nkfs_fs) option" where
  "sb_find_obj obj_id fs = do {
     t \<leftarrow> inodes_tree fs;
     assert_that (\<not> bt_sig1 t \<noteq> NKFS_BTREE_SIG1);
     if sb_stopping (fs_sb fs) then Some (Inl (- EAGAIN), fs)
     else do {
       (r, fs) \<leftarrow> on_inodes_tree (\<lambda>t. nkfs_btree_find_key t (nkfs_obj_id_bytes obj_id)) fs;
       case r of
         Inl err \<Rightarrow> Some (Inl err, fs)
       | Inr iblock \<Rightarrow> do {
           (r, fs) \<leftarrow> nkfs_inode_read fs iblock;
           Some (case r of None \<Rightarrow> Inl (- EIO) | Some p \<Rightarrow> Inr p, fs)
         }
     }
   }"

definition nkfs_sb_delete_obj :: "nkfs_obj_id \<Rightarrow> nkfs_fs \<Rightarrow> (int \<times> nkfs_fs) option" where
  "nkfs_sb_delete_obj obj_id fs = do {
     (r, fs) \<leftarrow> sb_find_obj obj_id fs;
     case r of
       Inl err \<Rightarrow> Some (err, fs)
     | Inr p \<Rightarrow> do {
         i \<leftarrow> fs_heap fs p;
         (_, fs) \<leftarrow> on_inodes_tree (\<lambda>t. nkfs_btree_delete_key t (nkfs_obj_id_bytes (i_ino i))) fs;
         fs \<leftarrow> nkfs_inode_delete p fs;
         fs \<leftarrow> nkfs_inode_deref p fs;
         Some (0, fs)
       }
   }"

record nkfs_obj_info =
  oi_obj_id :: nkfs_obj_id
  oi_sb_id :: nkfs_obj_id
  oi_size :: u64
  oi_block :: u64
  oi_bsize :: u32

definition nkfs_sb_query_obj :: "nkfs_obj_id \<Rightarrow> nkfs_fs \<Rightarrow> ((int + nkfs_obj_info) \<times> nkfs_fs) option" where
  "nkfs_sb_query_obj obj_id fs = do {
     (r, fs) \<leftarrow> sb_find_obj obj_id fs;
     case r of
       Inl err \<Rightarrow> Some (Inl err, fs)
     | Inr p \<Rightarrow> do {
         i \<leftarrow> fs_heap fs p;
         let info = \<lparr>oi_obj_id = i_ino i, oi_sb_id = sb_id (fs_sb fs), oi_size = i_size i, oi_block = i_block i, oi_bsize = bsize (fs_sb fs)\<rparr>;
         fs \<leftarrow> nkfs_inode_deref p fs;
         Some (Inr info, fs)
       }
   }"

section \<open>The list of superblocks\<close>

record nkfs_world =
  w_sbs :: "nat \<rightharpoonup> nkfs_fs"
  w_sb_list :: "nat list"
  w_next :: nat

definition on_sb_at :: "nat \<Rightarrow> (nkfs_fs \<Rightarrow> ('r \<times> nkfs_fs) option) \<Rightarrow> nkfs_world \<Rightarrow> ('r \<times> nkfs_world) option" where
  "on_sb_at s f w = do {
     fs \<leftarrow> w_sbs w s;
     (r, fs) \<leftarrow> f fs;
     Some (r, w\<lparr>w_sbs := (w_sbs w)(s \<mapsto> fs)\<rparr>)
   }"

definition sb_ref_at :: "nat \<Rightarrow> nkfs_world \<Rightarrow> nkfs_world option" where
  "sb_ref_at s w = do {
     (_, w) \<leftarrow> on_sb_at s (\<lambda>fs. do { fs \<leftarrow> nkfs_sb_ref fs; Some ((), fs) }) w;
     Some w
   }"

text \<open>The device of a superblock that is gone comes back.\<close>

definition sb_deref_at :: "nat \<Rightarrow> nkfs_world \<Rightarrow> (dio_dev option \<times> nkfs_world) option" where
  "sb_deref_at s w = do {
     fs \<leftarrow> w_sbs w s;
     r \<leftarrow> nkfs_sb_deref fs;
     Some (case r of
         Inl dev \<Rightarrow> (Some dev, w\<lparr>w_sbs := (w_sbs w)(s := None)\<rparr>)
       | Inr fs \<Rightarrow> (None, w\<lparr>w_sbs := (w_sbs w)(s \<mapsto> fs)\<rparr>))
   }"

definition nkfs_sb_stop :: "nat \<Rightarrow> nkfs_world \<Rightarrow> nkfs_world option" where
  "nkfs_sb_stop s w = do {
     (_, w) \<leftarrow> on_sb_at s (\<lambda>fs. do {
         let fs = fs\<lparr>fs_sb := (fs_sb fs)\<lparr>sb_stopping := True\<rparr>\<rparr>;
         let fs = fs\<lparr>inodes_tree := map_option nkfs_btree_stop (inodes_tree fs)\<rparr>;
         assert_that (\<not> inodes_active fs \<noteq> 0);
         nkfs_sb_sync fs
       }) w;
     Some (w\<lparr>w_sb_list := remove1 s (w_sb_list w)\<rparr>)
   }"

primrec sb_lookup_loop :: "nkfs_obj_id \<Rightarrow> nat list \<Rightarrow> nkfs_world \<Rightarrow> (nat option \<times> nkfs_world) option" where
  "sb_lookup_loop oid [] w = Some (None, w)"
| "sb_lookup_loop oid (s # ss) w = do {
     fs \<leftarrow> w_sbs w s;
     if nkfs_obj_id_cmp (sb_id (fs_sb fs)) oid = 0 then do {
       w \<leftarrow> sb_ref_at s w;
       Some (Some s, w)
     } else sb_lookup_loop oid ss w
   }"

definition nkfs_sb_lookup :: "nkfs_obj_id \<Rightarrow> nkfs_world \<Rightarrow> (nat option \<times> nkfs_world) option" where
  "nkfs_sb_lookup oid w = sb_lookup_loop oid (w_sb_list w) w"

definition nkfs_sb_free_blocks :: "nkfs_fs \<Rightarrow> u64 option" where
  "nkfs_sb_free_blocks fs = do {
     assert_that (\<not> nr_blocks (fs_sb fs) < used_blocks (fs_sb fs));
     Some (nr_blocks (fs_sb fs) - used_blocks (fs_sb fs))
   }"

text \<open>The number of free blocks is cut to 32 bits.\<close>

primrec sb_most_free_loop :: "nat list \<Rightarrow> nkfs_world \<Rightarrow> nat option \<Rightarrow> u64 \<Rightarrow> nat option option" where
  "sb_most_free_loop [] w found max_free_blocks = Some found"
| "sb_most_free_loop (s # ss) w found max_free_blocks = do {
     fs \<leftarrow> w_sbs w s;
     n \<leftarrow> nkfs_sb_free_blocks fs;
     let free_blocks = (ucast n :: u32);
     if ucast free_blocks \<ge> max_free_blocks then sb_most_free_loop ss w (Some s) (ucast free_blocks)
     else sb_most_free_loop ss w found max_free_blocks
   }"

definition nkfs_sb_select_most_free :: "nkfs_world \<Rightarrow> (nat option \<times> nkfs_world) option" where
  "nkfs_sb_select_most_free w = do {
     found \<leftarrow> sb_most_free_loop (w_sb_list w) w None 0;
     case found of
       None \<Rightarrow> Some (None, w)
     | Some s \<Rightarrow> do {
         w \<leftarrow> sb_ref_at s w;
         Some (Some s, w)
       }
   }"

text \<open>The links of a list hold references to their superblocks.\<close>

primrec nkfs_sb_list_release :: "nat list \<Rightarrow> nkfs_world \<Rightarrow> nkfs_world option" where
  "nkfs_sb_list_release [] w = Some w"
| "nkfs_sb_list_release (s # ss) w = do {
     (_, w) \<leftarrow> sb_deref_at s w;
     nkfs_sb_list_release ss w
   }"

definition nkfs_sb_list_first :: "nat list \<Rightarrow> nat option" where
  "nkfs_sb_list_first links = (case links of [] \<Rightarrow> None | s # _ \<Rightarrow> Some s)"

definition nkfs_sb_link_create :: "nat \<Rightarrow> nkfs_world \<Rightarrow> (bool \<times> nkfs_world) option" where
  "nkfs_sb_link_create s w = do {
     (ok, w) \<leftarrow> on_sb_at s (\<lambda>fs. Some (fs_mem fs)) w;
     if \<not> ok then Some (False, w)
     else do {
       w \<leftarrow> sb_ref_at s w;
       Some (True, w)
     }
   }"

primrec sb_by_obj_loop :: "nkfs_obj_id \<Rightarrow> nat list \<Rightarrow> nat list \<Rightarrow> nkfs_world \<Rightarrow> ((int \<times> nat list) \<times> nkfs_world) option" where
  "sb_by_obj_loop obj_id [] links w = Some ((0, links), w)"
| "sb_by_obj_loop obj_id (s # ss) links w = do {
     (r, w) \<leftarrow> on_sb_at s (on_inodes_tree (\<lambda>t. nkfs_btree_find_key t (nkfs_obj_id_bytes obj_id))) w;
     case r of
       Inl _ \<Rightarrow> sb_by_obj_loop obj_id ss links w
     | Inr _ \<Rightarrow> do {
         (ok, w) \<leftarrow> nkfs_sb_link_create s w;
         if \<not> ok then Some ((- ENOMEM, links), w)
         else sb_by_obj_loop obj_id ss (links @ [s]) w
       }
   }"

definition nkfs_sb_list_by_obj :: "nkfs_obj_id \<Rightarrow> nkfs_world \<Rightarrow> ((int + nat list) \<times> nkfs_world) option" where
  "nkfs_sb_list_by_obj obj_id w = do {
     ((err, links), w) \<leftarrow> sb_by_obj_loop obj_id (w_sb_list w) [] w;
     if err \<noteq> 0 then do {
       w \<leftarrow> nkfs_sb_list_release links w;
       Some (Inl err, w)
     } else Some (Inr links, w)
   }"

primrec sb_id_taken :: "nkfs_obj_id \<Rightarrow> nat list \<Rightarrow> nkfs_world \<Rightarrow> bool option" where
  "sb_id_taken oid [] w = Some False"
| "sb_id_taken oid (s # ss) w = do {
     fs \<leftarrow> w_sbs w s;
     if nkfs_obj_id_cmp (sb_id (fs_sb fs)) oid = 0 then Some True else sb_id_taken oid ss w
   }"

definition nkfs_sb_insert :: "nat \<Rightarrow> nkfs_world \<Rightarrow> (int \<times> nkfs_world) option" where
  "nkfs_sb_insert cand w = do {
     fs \<leftarrow> w_sbs w cand;
     taken \<leftarrow> sb_id_taken (sb_id (fs_sb fs)) (w_sb_list w) w;
     Some (if taken then (- EEXIST, w) else (0, w\<lparr>w_sb_list := w_sb_list w @ [cand]\<rparr>))
   }"

text \<open>What the operations on objects share: the one superblock that knows the object.\<close>

definition sb_list_with_obj :: "nkfs_obj_id \<Rightarrow> (int \<Rightarrow> 'r) \<Rightarrow> (nkfs_fs \<Rightarrow> ('r \<times> nkfs_fs) option) \<Rightarrow> nkfs_world \<Rightarrow> ('r \<times> nkfs_world) option" where
  "sb_list_with_obj obj_id fail f w = do {
     (r, w) \<leftarrow> nkfs_sb_list_by_obj obj_id w;
     case r of
       Inl err \<Rightarrow> Some (fail err, w)
     | Inr links \<Rightarrow> do {
         assert_that (\<not> length links > 1);
         (r, w) \<leftarrow> (case nkfs_sb_list_first links of
             None \<Rightarrow> Some (fail (- ENOENT), w)
           | Some s \<Rightarrow> on_sb_at s f w);
         w \<leftarrow> nkfs_sb_list_release links w;
         Some (r, w)
       }
   }"

definition nkfs_sb_list_get_obj :: "nkfs_obj_id \<Rightarrow> u64 \<Rightarrow> u32 \<Rightarrow> u32 \<Rightarrow> u8 list list \<Rightarrow> nkfs_world \<Rightarrow> ((int \<times> u32 \<times> u8 list list) \<times> nkfs_world) option" where
  "nkfs_sb_list_get_obj obj_id off pg_off len pages =
     sb_list_with_obj obj_id (\<lambda>err. (err, 0, pages)) (nkfs_sb_get_obj obj_id off pg_off len pages)"

definition nkfs_sb_list_put_obj :: "nkfs_obj_id \<Rightarrow> u64 \<Rightarrow> u32 \<Rightarrow> u32 \<Rightarrow> u8 list list \<Rightarrow> nkfs_world \<Rightarrow> (int \<times> nkfs_world) option" where
  "nkfs_sb_list_put_obj obj_id off pg_off len pages = sb_list_with_obj obj_id (\<lambda>err. err) (nkfs_sb_put_obj obj_id off pg_off len pages)"

definition nkfs_sb_list_delete_obj :: "nkfs_obj_id \<Rightarrow> nkfs_world \<Rightarrow> (int \<times> nkfs_world) option" where
  "nkfs_sb_list_delete_obj obj_id = sb_list_with_obj obj_id (\<lambda>err. err) (nkfs_sb_delete_obj obj_id)"

definition nkfs_sb_list_query_obj :: "nkfs_obj_id \<Rightarrow> nkfs_world \<Rightarrow> ((int + nkfs_obj_info) \<times> nkfs_world) option" where
  "nkfs_sb_list_query_obj obj_id = sb_list_with_obj obj_id Inl (nkfs_sb_query_obj obj_id)"

definition nkfs_sb_list_create_obj :: "int + u8 list \<Rightarrow> nkfs_obj_id \<Rightarrow> nkfs_world \<Rightarrow> ((int + nkfs_obj_id) \<times> nkfs_world) option" where
  "nkfs_sb_list_create_obj rnd stack_id w = do {
     (found, w) \<leftarrow> nkfs_sb_select_most_free w;
     case found of
       None \<Rightarrow> Some (Inl (- ENOENT), w)
     | Some s \<Rightarrow> do {
         (r, w) \<leftarrow> on_sb_at s (nkfs_sb_create_obj rnd stack_id) w;
         (_, w) \<leftarrow> sb_deref_at s w;
         Some (r, w)
       }
   }"

end
