(* ===== verification/Fs_Frame.thy ===== *)
theory Fs_Frame
  imports Super
begin

text \<open>
  What the operations of a file system leave alone, and the total-correctness
  rules of the steps on which files are built.  \<open>sb_frame N B\<close> relates two states
  of a superblock between which the blocks of \<open>N\<close> were allocated and only blocks
  of \<open>B\<close>, new blocks and the bitmap changed; \<open>inode_rep\<close> says that an inode in
  memory has its two trees as leaves.
\<close>


section \<open>The structures on disk\<close>

lemma inode_disk_roundtrip: "inode_disk_of_bytes (inode_disk_bytes d) = d"
  by (simp add: inode_disk_of_bytes_def inode_disk_bytes_def nkfs_obj_id_bytes_def nkfs_obj_id_of_bytes_def)

lemma length_inode_disk_bytes [simp]: "length (inode_disk_bytes d) = 56"
  by (simp add: inode_disk_bytes_def nkfs_obj_id_bytes_def)

lemma inode_codec:
  "nkfs_inode_parse_on_disk j (inode_disk_of_bytes (inode_disk_bytes (nkfs_inode_to_on_disk i)))
     = (0, j\<lparr>i_ino := i_ino i, i_size := i_size i, i_blocks_tree_block := i_blocks_tree_block i,
          i_blocks_sum_tree_block := i_blocks_sum_tree_block i, i_sig1 := NKFS_INODE_SIG1, i_sig2 := NKFS_INODE_SIG2\<rparr>)"
  by (simp add: inode_disk_roundtrip nkfs_inode_parse_on_disk_def nkfs_inode_to_on_disk_def Let_def)
    (simp add: nkfs_inode_on_disk_sum_def inode_disk_bytes_def nkfs_obj_id_bytes_def)

lemma image_header_roundtrip: "image_header_of_bytes (image_header_bytes h) = h"
  by (simp add: image_header_of_bytes_def image_header_bytes_def nkfs_obj_id_bytes_def nkfs_obj_id_of_bytes_def)

lemma length_image_header_bytes [simp]: "length (image_header_bytes h) = 80"
  by (simp add: image_header_bytes_def nkfs_obj_id_bytes_def)

lemma header_codec:
  "nkfs_sb_parse_header sb0 (image_header_of_bytes (image_header_bytes (nkfs_sb_fill_header sb)))
     = (0, sb0\<lparr>sb_magic := sb_magic sb, sb_version := sb_version sb, sb_size := sb_size sb, bsize := bsize sb, bm_block := bm_block sb,
          bm_blocks := bm_blocks sb, inodes_tree_block := inodes_tree_block sb, used_blocks := used_blocks sb, sb_id := sb_id sb\<rparr>)"
  by (simp add: image_header_roundtrip nkfs_sb_parse_header_def nkfs_sb_fill_header_def Let_def)
    (simp add: nkfs_image_header_sum_def image_header_bytes_def nkfs_obj_id_bytes_def)


section \<open>What an operation leaves alone\<close>

text \<open>
  A sane superblock: 64 KiB blocks, and the header's block and the blocks of the
  bitmap are marked.
\<close>

definition sb_sane :: "nkfs_sb \<Rightarrow> bool" where
  "sb_sane sb \<longleftrightarrow> sb_ok sb \<and> bsize sb = 65536 \<and> unat (nr_blocks sb) * 128 \<le> 2 ^ 64 \<and> 0 < nr_blocks sb \<and> bm_used sb 0
     \<and> (\<forall>i \<in> set (bm_indices sb). i < nr_blocks sb \<and> bm_used sb (unat i))"

abbreviation sb_pins :: "nkfs_sb \<Rightarrow> u64 \<Rightarrow> nat" where
  "sb_pins sb \<equiv> pins (dio_abs (ddev sb))"

abbreviation sb_content :: "nkfs_sb \<Rightarrow> u64 \<Rightarrow> u8 list" where
  "sb_content sb \<equiv> content (dio_abs (ddev sb))"

text \<open>A block in use, beside the header and the bitmap.\<close>

definition data_block :: "nkfs_sb \<Rightarrow> u64 \<Rightarrow> bool" where
  "data_block sb b \<longleftrightarrow> b \<noteq> 0 \<and> b < nr_blocks sb \<and> b \<notin> set (bm_indices sb) \<and> bm_used sb (unat b)"

text \<open>
  From one superblock to the next: the blocks of \<open>N\<close> are new, and only the
  content of new blocks, of the bitmap and of the blocks of \<open>B\<close> changes.
\<close>

definition sb_frame :: "u64 set \<Rightarrow> u64 set \<Rightarrow> nkfs_sb \<Rightarrow> nkfs_sb \<Rightarrow> bool" where
  "sb_frame N B sb sb' \<longleftrightarrow> sb_sane sb' \<and> sb' = sb\<lparr>ddev := ddev sb', used_blocks := used_blocks sb'\<rparr>
     \<and> (\<forall>b < nr_blocks sb. bm_used sb' (unat b) \<longleftrightarrow> b \<in> N \<or> bm_used sb (unat b))
     \<and> (\<forall>b \<in> N. b < nr_blocks sb \<and> \<not> bm_used sb (unat b))
     \<and> (\<forall>i. i \<notin> set (bm_indices sb) \<and> i \<notin> B \<longrightarrow> content (dio_abs (ddev sb')) i = content (dio_abs (ddev sb)) i)"

lemma sb_frame_fields:
  assumes "sb_frame N B sb sb'"
  shows "bsize sb' = bsize sb" "nr_blocks sb' = nr_blocks sb" "bm_block sb' = bm_block sb" "bm_blocks sb' = bm_blocks sb" "bm_indices sb' = bm_indices sb"
    "sb_stopping sb' = sb_stopping sb" "sb_id sb' = sb_id sb" "sb_size sb' = sb_size sb" "inodes_tree_block sb' = inodes_tree_block sb"
    "sb_magic sb' = sb_magic sb" "sb_version sb' = sb_version sb" "sb_refs sb' = sb_refs sb"
proof -
  obtain d u where "sb' = sb\<lparr>ddev := d, used_blocks := u\<rparr>"
    using assms unfolding sb_frame_def by blast
  then show "bsize sb' = bsize sb" "nr_blocks sb' = nr_blocks sb" "bm_block sb' = bm_block sb" "bm_blocks sb' = bm_blocks sb" "bm_indices sb' = bm_indices sb"
    "sb_stopping sb' = sb_stopping sb" "sb_id sb' = sb_id sb" "sb_size sb' = sb_size sb" "inodes_tree_block sb' = inodes_tree_block sb"
    "sb_magic sb' = sb_magic sb" "sb_version sb' = sb_version sb" "sb_refs sb' = sb_refs sb"
    by (simp_all add: bm_indices_def)
qed

lemma sb_frame_sane: "sb_frame N B sb sb' \<Longrightarrow> sb_sane sb'"
  by (simp add: sb_frame_def)

lemma sb_sane_dev_ok: "sb_sane sb \<Longrightarrow> sb_dev_ok sb"
  by (auto simp: sb_sane_def sb_dev_ok_def sb_ok_def)

lemma sb_sane_good: "sb_sane sb \<Longrightarrow> dio_good 65536 (ddev sb)"
  by (auto simp: sb_sane_def sb_ok_def)

lemma sb_frame_refl [simp]: "sb_sane sb \<Longrightarrow> sb_frame {} B sb sb"
  by (simp add: sb_frame_def)

lemma sb_frame_mono: "sb_frame N B sb sb' \<Longrightarrow> B \<subseteq> C \<Longrightarrow> sb_frame N C sb sb'"
  unfolding sb_frame_def by blast

lemma sb_frame_trans:
  assumes "sb_frame N B sb sb'" "sb_frame M C sb' sb''"
  shows "sb_frame (N \<union> M) (B \<union> C) sb sb''"
proof -
  note f = sb_frame_fields [OF assms(1)]
  obtain d u d' u' where e: "sb' = sb\<lparr>ddev := d, used_blocks := u\<rparr>" "sb'' = sb'\<lparr>ddev := d', used_blocks := u'\<rparr>"
    using assms unfolding sb_frame_def by blast
  have eq: "sb'' = sb\<lparr>ddev := ddev sb'', used_blocks := used_blocks sb''\<rparr>"
    using e by simp
  have used: "\<forall>b < nr_blocks sb. bm_used sb'' (unat b) \<longleftrightarrow> b \<in> N \<union> M \<or> bm_used sb (unat b)"
    using assms f(2) unfolding sb_frame_def by auto
  have new: "\<forall>b \<in> N \<union> M. b < nr_blocks sb \<and> \<not> bm_used sb (unat b)"
    using assms f(2) unfolding sb_frame_def by auto
  have con: "\<forall>i. i \<notin> set (bm_indices sb) \<and> i \<notin> B \<union> C \<longrightarrow> content (dio_abs (ddev sb'')) i = content (dio_abs (ddev sb)) i"
    using assms f(5) unfolding sb_frame_def by auto
  show ?thesis
    using assms eq used new con unfolding sb_frame_def by simp
qed

lemma sb_frame_used:
  assumes "sb_frame N B sb sb'" "b < nr_blocks sb"
  shows "bm_used sb' (unat b) \<longleftrightarrow> b \<in> N \<or> bm_used sb (unat b)"
  using assms by (simp add: sb_frame_def)

lemma sb_frame_content:
  "sb_frame N B sb sb' \<Longrightarrow> data_block sb b \<Longrightarrow> b \<notin> B \<Longrightarrow> content (dio_abs (ddev sb')) b = content (dio_abs (ddev sb)) b"
  unfolding sb_frame_def data_block_def by blast

lemma data_block_frame: "sb_frame N B sb sb' \<Longrightarrow> data_block sb b \<Longrightarrow> data_block sb' b"
  using sb_frame_used [of N B sb sb' b] sb_frame_fields [of N B sb sb'] by (simp add: data_block_def)

lemma data_block_new:
  assumes "sb_sane sb" "sb_frame N B sb sb'" "b \<in> N"
  shows "data_block sb' b"
proof -
  have b: "b < nr_blocks sb" "\<not> bm_used sb (unat b)"
    using assms(2,3) by (auto simp: sb_frame_def)
  moreover have "b \<noteq> 0" "b \<notin> set (bm_indices sb)"
    using b assms(1) by (auto simp: sb_sane_def)
  ultimately show ?thesis
    using sb_frame_used [OF assms(2) b(1)] sb_frame_fields [OF assms(2)] assms(3) by (simp add: data_block_def)
qed

lemma data_block_not_new: "sb_frame N B sb sb' \<Longrightarrow> data_block sb b \<Longrightarrow> b \<notin> N"
  by (auto simp: sb_frame_def data_block_def)

text \<open>A change of data blocks on the device.\<close>

lemma bm_used_dev:
  assumes "\<And>i. i \<in> set (bm_indices sb) \<Longrightarrow> content (dio_abs dev) i = content (dio_abs (ddev sb)) i" "sb_ok sb" "b < unat (nr_blocks sb)"
  shows "bm_used (sb\<lparr>ddev := dev\<rparr>) b = bm_used sb b"
proof (rule bm_bit_cases [of sb "of_nat b", OF assms(2)])
  have b: "unat (of_nat b :: u64) = b"
    using assms(3) unat_lt64 [of "nr_blocks sb"] by (simp add: unat_of_nat)
  show "unat (of_nat b :: u64) < unat (nr_blocks sb)"
    using assms(3) b by simp
  fix j i n
  assume m: "j < unat (bm_blocks sb)" "8 * i < unat (bsize sb)" "n < 64" "64 * (j * (unat (bsize sb) div 8) + i) + n = unat (of_nat b :: u64)"
  have "bm_block sb + of_nat j \<in> set (bm_indices sb)"
    using m(1) by (auto simp: bm_indices_eq [OF assms(2)])
  from assms(1) [OF this] show ?thesis
    using bm_used_at [OF m(3) m(4) [unfolded b], of sb] bm_used_at [OF m(3) m(4) [unfolded b], of "sb\<lparr>ddev := dev\<rparr>"]
      bm_long_at [of i sb j] bm_long_at [of i "sb\<lparr>ddev := dev\<rparr>" j] m(2) sb_ok_bsize8 [OF assms(2)] by simp
qed

lemma sb_frame_outside:
  assumes "sb_sane sb" "dio_good 65536 dev"
    and "\<And>i. i \<notin> B \<Longrightarrow> content (dio_abs dev) i = content (dio_abs (ddev sb)) i" "B \<inter> set (bm_indices sb) = {}"
  shows "sb_frame {} B sb (sb\<lparr>ddev := dev\<rparr>)"
proof -
  have s: "sb_ok sb" "bsize sb = 65536"
    using assms(1) by (simp_all add: sb_sane_def)
  have ok: "sb_ok (sb\<lparr>ddev := dev\<rparr>)"
    using s assms(2) by (simp add: sb_ok_def)
  have bm: "bm_used (sb\<lparr>ddev := dev\<rparr>) b = bm_used sb b" if "b < unat (nr_blocks sb)" for b
    by (rule bm_used_dev [OF _ s(1) that]) (use assms(3,4) in blast)
  have bm': "bm_used (sb\<lparr>ddev := dev\<rparr>) (unat b) = bm_used sb (unat b)" if "b < nr_blocks sb" for b
    using bm that by (simp add: word_less_nat_alt)
  have ix: "bm_indices (sb\<lparr>ddev := dev\<rparr>) = bm_indices sb"
    by (simp add: bm_indices_def)
  have z: "bm_used (sb\<lparr>ddev := dev\<rparr>) 0 = bm_used sb 0"
    by (rule bm) (use assms(1) in \<open>simp add: sb_sane_def word_less_nat_alt\<close>)
  show ?thesis
    unfolding sb_frame_def
    using assms(1,3) ok bm' z ix by (auto simp: sb_sane_def)
qed

lemma sb_frame_dev:
  assumes "sb_sane sb" "dio_good 65536 dev"
    and "\<And>i. i \<notin> B \<Longrightarrow> content (dio_abs dev) i = content (dio_abs (ddev sb)) i" "\<And>b. b \<in> B \<Longrightarrow> data_block sb b"
  shows "sb_frame {} B sb (sb\<lparr>ddev := dev\<rparr>)"
  by (rule sb_frame_outside [OF assms(1-3)]) (use assms(4) in \<open>auto simp: data_block_def\<close>)


section \<open>Allocation\<close>

lemma sb_frame_changed:
  assumes "sb_sane sb" "bm_changed sb (unat b) True sb'" "b < nr_blocks sb" "\<not> bm_used sb (unat b)"
  shows "sb_frame {b} {} sb sb'"
proof -
  obtain d u where e: "sb' = sb\<lparr>ddev := d, used_blocks := u\<rparr>"
    using assms(2) unfolding bm_changed_def by blast
  have c: "sb_ok sb'" "\<forall>b' < unat (bm_blocks sb) * (8 * unat (bsize sb)). bm_used sb' b' = (if b' = unat b then True else bm_used sb b')"
    "\<forall>i. i \<notin> set (bm_indices sb) \<longrightarrow> content (dio_abs (ddev sb')) i = content (dio_abs (ddev sb)) i"
    using assms(2) unfolding bm_changed_def by blast+
  have le: "unat (nr_blocks sb) \<le> unat (bm_blocks sb) * (8 * unat (bsize sb))"
    using assms(1) by (auto simp: sb_sane_def sb_ok_def)
  have used: "bm_used sb' (unat b') \<longleftrightarrow> b' \<in> {b} \<or> bm_used sb (unat b')" if "b' < nr_blocks sb" for b'
    using c(2) le that by (auto simp: word_less_nat_alt word_unat_eq_iff [symmetric])
  have ix: "bm_indices sb' = bm_indices sb"
    by (simp add: e bm_indices_def)
  have "bm_used sb' 0"
    using used [of 0] assms(1) by (simp add: sb_sane_def)
  then have "sb_sane sb'"
    using assms(1) c(1) used ix e by (auto simp: sb_sane_def)
  then show ?thesis
    using e used c(3) assms(3,4) unfolding sb_frame_def by auto
qed

lemma wp_sb_alloc:
  assumes "sb_sane sb"
    and "\<And>sb'. \<forall>b < nr_blocks sb. bm_used sb (unat b) \<Longrightarrow> sb_frame {} {} sb sb' \<Longrightarrow> sb_pins sb' = sb_pins sb \<Longrightarrow> Q ((- ENOSPC, 0), sb')"
    and "\<And>b sb'. b < nr_blocks sb \<Longrightarrow> \<not> bm_used sb (unat b) \<Longrightarrow> sb_frame {b} {} sb sb' \<Longrightarrow> sb_pins sb' = sb_pins sb \<Longrightarrow> Q ((0, b), sb')"
  shows "wpo (nkfs_balloc_block_alloc sb) Q"
proof -
  have ok: "sb_ok sb" "bsize sb = 65536"
    using assms(1) by (simp_all add: sb_sane_def)
  show ?thesis
  proof (rule wp_block_alloc [OF ok(1)])
    fix dev
    assume a: "\<forall>b < unat (nr_blocks sb). bm_used sb b" "dio_good (unat (bsize sb)) dev" "content (dio_abs dev) = content (dio_abs (ddev sb))"
      "pins (dio_abs dev) = pins (dio_abs (ddev sb))"
    have "sb_frame {} {} sb (sb\<lparr>ddev := dev\<rparr>)"
      by (rule sb_frame_dev [OF assms(1)]) (use a ok(2) in simp_all)
    then show "Q ((- ENOSPC, 0), sb\<lparr>ddev := dev\<rparr>)"
      using assms(2) a(1,4) by (simp add: word_less_nat_alt)
  next
    fix b :: u64 and sb'
    assume b: "unat b < unat (nr_blocks sb)" "\<not> bm_used sb (unat b)" "bm_changed sb (unat b) True sb'"
      "pins (dio_abs (ddev sb')) = pins (dio_abs (ddev sb))"
    then show "Q ((0, b), sb')"
      using assms(3) sb_frame_changed [OF assms(1) b(3)] by (simp add: word_less_nat_alt)
  qed
qed

section \<open>The trees of an inode\<close>

text \<open>An inode without its trees, which are given by their leaves.\<close>

definition bare :: "nkfs_inode \<Rightarrow> nkfs_inode" where
  "bare i = i\<lparr>i_blocks_tree := None, i_blocks_sum_tree := None\<rparr>"

lemma bare_simps [simp]: "i_block (bare i) = i_block i" "i_size (bare i) = i_size i" "i_dirty (bare i) = i_dirty i" "i_ref (bare i) = i_ref i"
  "i_ino (bare i) = i_ino i" "i_blocks_tree_block (bare i) = i_blocks_tree_block i" "i_blocks_sum_tree_block (bare i) = i_blocks_sum_tree_block i"
  "bare (i\<lparr>i_blocks_tree := t\<rparr>) = bare i" "bare (i\<lparr>i_blocks_sum_tree := t\<rparr>) = bare i"
  by (simp_all add: bare_def)

definition inode_rep :: "nat \<Rightarrow> nkfs_fs \<Rightarrow> nkfs_inode \<Rightarrow> nkfs_btree_node \<Rightarrow> nkfs_btree_node \<Rightarrow> bool" where
  "inode_rep p fs i n s \<longleftrightarrow> sb_sane (fs_sb fs) \<and> data_block (fs_sb fs) (n_block n) \<and> data_block (fs_sb fs) (n_block s) \<and> n_block n \<noteq> n_block s
     \<and> (\<exists>i' t ts a b. fs_heap fs p = Some i' \<and> bare i' = i \<and> i_blocks_tree i' = Some t \<and> leaf_at a n (t\<lparr>bt_sb := fs_sb fs\<rparr>)
         \<and> i_blocks_sum_tree i' = Some ts \<and> leaf_at b s (ts\<lparr>bt_sb := fs_sb fs\<rparr>))"

text \<open>Beside the superblock only the inode at \<open>p\<close> changes.\<close>

definition fs_frame :: "nat \<Rightarrow> u64 set \<Rightarrow> u64 set \<Rightarrow> nkfs_fs \<Rightarrow> nkfs_fs \<Rightarrow> bool" where
  "fs_frame p N B fs fs' \<longleftrightarrow> sb_frame N B (fs_sb fs) (fs_sb fs') \<and> fs_inodes fs' = fs_inodes fs \<and> inodes_active fs' = inodes_active fs
     \<and> inodes_tree fs' = inodes_tree fs \<and> fs_next fs' = fs_next fs \<and> (\<forall>q. q \<noteq> p \<longrightarrow> fs_heap fs' q = fs_heap fs q)"

lemma fs_frame_trans: "fs_frame p N B fs fs' \<Longrightarrow> fs_frame p M C fs' fs'' \<Longrightarrow> fs_frame p (N \<union> M) (B \<union> C) fs fs''"
  unfolding fs_frame_def using sb_frame_trans by auto

lemma fs_frame_mono: "fs_frame p N B fs fs' \<Longrightarrow> B \<subseteq> C \<Longrightarrow> fs_frame p N C fs fs'"
  unfolding fs_frame_def using sb_frame_mono by auto

lemma fs_frame_sb: "fs_frame p N B fs fs' \<Longrightarrow> sb_frame N B (fs_sb fs) (fs_sb fs')"
  by (simp add: fs_frame_def)

lemma fs_frame_set_sb: "sb_frame N B (fs_sb fs) sb \<Longrightarrow> fs_frame p N B fs (fs\<lparr>fs_sb := sb\<rparr>)"
  by (simp add: fs_frame_def)

lemma fs_frame_put: "sb_frame N B (fs_sb fs) sb \<Longrightarrow> fs_frame p N B fs (put_inode p i (fs\<lparr>fs_sb := sb\<rparr>))"
  by (simp add: fs_frame_def put_inode_def)

lemma fs_upd_simps [simp]: "fs_sb (put_inode p i fs) = fs_sb fs" "fs_heap (put_inode p i fs) = (fs_heap fs)(p \<mapsto> i)"
  "put_inode p j (put_inode p i fs) = put_inode p j fs" "fs_inodes (put_inode p i fs) = fs_inodes fs" "inodes_active (put_inode p i fs) = inodes_active fs"
  "inodes_tree (put_inode p i fs) = inodes_tree fs" "fs_next (put_inode p i fs) = fs_next fs"
  by (simp_all add: put_inode_def)

lemma inode_rep_frame:
  assumes "inode_rep p fs i n s" "sb_frame N B (fs_sb fs) (fs_sb fs')" "fs_heap fs' p = fs_heap fs p" "n_block n \<notin> B" "n_block s \<notin> B"
  shows "inode_rep p fs' i n s"
proof -
  note f = sb_frame_fields(2) [OF assms(2)] and sane = sb_frame_sane [OF assms(2)]
  have d: "data_block (fs_sb fs) (n_block n)" "data_block (fs_sb fs) (n_block s)"
    using assms(1) by (simp_all add: inode_rep_def)
  note c = sb_frame_content [OF assms(2) d(1) assms(4)] sb_frame_content [OF assms(2) d(2) assms(5)]
  note l = leaf_at_sb [OF _ sb_sane_dev_ok [OF sane] f c(1)] leaf_at_sb [OF _ sb_sane_dev_ok [OF sane] f c(2)]
  show ?thesis
    using assms(1,3) sane data_block_frame [OF assms(2) d(1)] data_block_frame [OF assms(2) d(2)] l
    unfolding inode_rep_def by metis
qed

lemma sb_frame_of_block:
  assumes "sb_sane sb" "sb_frame_block sb b sb'" "data_block sb b"
  shows "sb_frame {} {b} sb sb'"
proof -
  obtain d where d: "sb' = sb\<lparr>ddev := d\<rparr>"
    using assms(2) unfolding sb_frame_block_def by blast
  then show ?thesis
    using assms by (auto simp: sb_frame_block_def intro!: sb_frame_dev)
qed

lemma wpo_on_tree: "wpo (on_tree f t fs) Q \<longleftrightarrow> wpo (f (t\<lparr>bt_sb := fs_sb fs\<rparr>)) (\<lambda>(r, t). Q (r, t, fs\<lparr>fs_sb := bt_sb t\<rparr>))"
  by (auto simp: on_tree_def wpo_def split: bind_splits prod.splits)

lemma sb_upd_id [simp]: "(t :: nkfs_btree)\<lparr>bt_sb := bt_sb t\<rparr> = t" "(fs :: nkfs_fs)\<lparr>fs_sb := fs_sb fs\<rparr> = fs"
  by simp_all

lemma wp_blocks_find:
  assumes "inode_rep p fs i n s" "length key = 16"
    and "\<And>fs'. inode_rep p fs' i n s \<Longrightarrow> fs_sb fs' = fs_sb fs \<Longrightarrow> fs_frame p {} {} fs fs' \<Longrightarrow>
      Q (case node_map n key of None \<Rightarrow> Inl (- ENOENT) | Some v \<Rightarrow> Inr v, fs')"
  shows "wpo (on_blocks_tree (\<lambda>t. nkfs_btree_find_key t key) p fs) Q"
proof -
  obtain i' t ts a b where r: "fs_heap fs p = Some i'" "bare i' = i" "i_blocks_tree i' = Some t" "leaf_at a n (t\<lparr>bt_sb := fs_sb fs\<rparr>)"
    "i_blocks_sum_tree i' = Some ts" "leaf_at b s (ts\<lparr>bt_sb := fs_sb fs\<rparr>)"
    using assms(1) by (auto simp: inode_rep_def)
  let ?fs = "put_inode p (i'\<lparr>i_blocks_tree := Some (t\<lparr>bt_sb := fs_sb fs\<rparr>)\<rparr>) fs"
  have "inode_rep p ?fs i n s"
    using assms(1) r by (auto simp: inode_rep_def)
  moreover have "fs_frame p {} {} fs ?fs"
    using assms(1) by (simp add: fs_frame_def inode_rep_def)
  ultimately show ?thesis
    using r leaf_find_key [OF r(4) assms(2)] assms(3) [of ?fs] by (simp add: on_blocks_tree_def wpo_on_tree)
qed

lemma wp_sums_find:
  assumes "inode_rep p fs i n s" "length key = 16"
    and "\<And>fs'. inode_rep p fs' i n s \<Longrightarrow> fs_sb fs' = fs_sb fs \<Longrightarrow> fs_frame p {} {} fs fs' \<Longrightarrow>
      Q (case node_map s key of None \<Rightarrow> Inl (- ENOENT) | Some v \<Rightarrow> Inr v, fs')"
  shows "wpo (on_blocks_sum_tree (\<lambda>t. nkfs_btree_find_key t key) p fs) Q"
proof -
  obtain i' t ts a b where r: "fs_heap fs p = Some i'" "bare i' = i" "i_blocks_tree i' = Some t" "leaf_at a n (t\<lparr>bt_sb := fs_sb fs\<rparr>)"
    "i_blocks_sum_tree i' = Some ts" "leaf_at b s (ts\<lparr>bt_sb := fs_sb fs\<rparr>)"
    using assms(1) by (auto simp: inode_rep_def)
  let ?fs = "put_inode p (i'\<lparr>i_blocks_sum_tree := Some (ts\<lparr>bt_sb := fs_sb fs\<rparr>)\<rparr>) fs"
  have "inode_rep p ?fs i n s"
    using assms(1) r by (auto simp: inode_rep_def)
  moreover have "fs_frame p {} {} fs ?fs"
    using assms(1) by (simp add: fs_frame_def inode_rep_def)
  ultimately show ?thesis
    using r leaf_find_key [OF r(6) assms(2)] assms(3) [of ?fs] by (simp add: on_blocks_sum_tree_def wpo_on_tree)
qed

lemma wp_blocks_insert:
  assumes "inode_rep p fs i n s" "length key = 16" "node_map n key = None" "node_nr n < 1791"
    and "\<And>fs' n'. inode_rep p fs' i n' s \<Longrightarrow> node_map n' = (node_map n)(key \<mapsto> v) \<Longrightarrow> n_block n' = n_block n \<Longrightarrow>
      fs_frame p {} {n_block n} fs fs' \<Longrightarrow> sb_pins (fs_sb fs') = sb_pins (fs_sb fs) \<Longrightarrow> Q (0, fs')"
  shows "wpo (on_blocks_tree (\<lambda>t. nkfs_btree_insert_key t key v False) p fs) Q"
proof -
  obtain i' t ts a b where r: "fs_heap fs p = Some i'" "bare i' = i" "i_blocks_tree i' = Some t" "leaf_at a n (t\<lparr>bt_sb := fs_sb fs\<rparr>)"
    "i_blocks_sum_tree i' = Some ts" "leaf_at b s (ts\<lparr>bt_sb := fs_sb fs\<rparr>)"
    using assms(1) by (auto simp: inode_rep_def)
  have d: "sb_sane (fs_sb fs)" "data_block (fs_sb fs) (n_block n)" "data_block (fs_sb fs) (n_block s)" "n_block n \<noteq> n_block s"
    using assms(1) by (auto simp: inode_rep_def)
  have "wpo (nkfs_btree_insert_key (t\<lparr>bt_sb := fs_sb fs\<rparr>) key v False)
    (\<lambda>(r, t). Q (r, put_inode p (i'\<lparr>i_blocks_tree := Some t\<rparr>) (fs\<lparr>fs_sb := bt_sb t\<rparr>)))"
  proof (rule wp_leaf_insert [OF r(4) assms(2,4)], unfold prod.case)
    fix t' n'
    assume t': "leaf_at a n' t'" "node_map n' = (node_map n)(key \<mapsto> v)" "n_block n' = n_block n"
      "tree_frame (t\<lparr>bt_sb := fs_sb fs\<rparr>) (n_block n) t'"
    let ?fs = "put_inode p (i'\<lparr>i_blocks_tree := Some t'\<rparr>) (fs\<lparr>fs_sb := bt_sb t'\<rparr>)"
    have f: "sb_frame {} {n_block n} (fs_sb fs) (bt_sb t')"
      by (rule sb_frame_of_block [OF d(1) _ d(2)]) (use t'(4) in simp)
    note sane = sb_frame_sane [OF f]
    have "leaf_at b s (ts\<lparr>bt_sb := bt_sb t'\<rparr>)"
      by (rule leaf_at_sb [OF r(6) sb_sane_dev_ok [OF sane] sb_frame_fields(2) [OF f]])
        (use sb_frame_content [OF f d(3)] d(4) in simp)
    moreover have "leaf_at a n' (t'\<lparr>bt_sb := bt_sb t'\<rparr>)"
      using t'(1) by simp
    ultimately have "inode_rep p ?fs i n' s"
      unfolding inode_rep_def using r sane data_block_frame [OF f d(2)] data_block_frame [OF f d(3)] d(4) t'(3) by fastforce
    moreover have "sb_pins (fs_sb ?fs) = sb_pins (fs_sb fs)"
      using t'(4) by (simp add: sb_frame_block_def)
    ultimately show "Q (0, ?fs)"
      using assms(5) t' fs_frame_put [OF f] by blast
  qed (use assms(3) in simp)
  then show ?thesis
    using r by (simp add: on_blocks_tree_def wpo_on_tree split_def)
qed

lemma wp_sums_insert:
  assumes "inode_rep p fs i n s" "length key = 16" "node_map s key = None" "node_nr s < 1791"
    and "\<And>fs' s'. inode_rep p fs' i n s' \<Longrightarrow> node_map s' = (node_map s)(key \<mapsto> v) \<Longrightarrow> n_block s' = n_block s \<Longrightarrow>
      fs_frame p {} {n_block s} fs fs' \<Longrightarrow> sb_pins (fs_sb fs') = sb_pins (fs_sb fs) \<Longrightarrow> Q (0, fs')"
  shows "wpo (on_blocks_sum_tree (\<lambda>t. nkfs_btree_insert_key t key v False) p fs) Q"
proof -
  obtain i' t ts a b where r: "fs_heap fs p = Some i'" "bare i' = i" "i_blocks_tree i' = Some t" "leaf_at a n (t\<lparr>bt_sb := fs_sb fs\<rparr>)"
    "i_blocks_sum_tree i' = Some ts" "leaf_at b s (ts\<lparr>bt_sb := fs_sb fs\<rparr>)"
    using assms(1) by (auto simp: inode_rep_def)
  have d: "sb_sane (fs_sb fs)" "data_block (fs_sb fs) (n_block n)" "data_block (fs_sb fs) (n_block s)" "n_block n \<noteq> n_block s"
    using assms(1) by (auto simp: inode_rep_def)
  have "wpo (nkfs_btree_insert_key (ts\<lparr>bt_sb := fs_sb fs\<rparr>) key v False)
    (\<lambda>(r, t). Q (r, put_inode p (i'\<lparr>i_blocks_sum_tree := Some t\<rparr>) (fs\<lparr>fs_sb := bt_sb t\<rparr>)))"
  proof (rule wp_leaf_insert [OF r(6) assms(2,4)], unfold prod.case)
    fix t' s'
    assume t': "leaf_at b s' t'" "node_map s' = (node_map s)(key \<mapsto> v)" "n_block s' = n_block s"
      "tree_frame (ts\<lparr>bt_sb := fs_sb fs\<rparr>) (n_block s) t'"
    let ?fs = "put_inode p (i'\<lparr>i_blocks_sum_tree := Some t'\<rparr>) (fs\<lparr>fs_sb := bt_sb t'\<rparr>)"
    have f: "sb_frame {} {n_block s} (fs_sb fs) (bt_sb t')"
      by (rule sb_frame_of_block [OF d(1) _ d(3)]) (use t'(4) in simp)
    note sane = sb_frame_sane [OF f]
    have "leaf_at a n (t\<lparr>bt_sb := bt_sb t'\<rparr>)"
      by (rule leaf_at_sb [OF r(4) sb_sane_dev_ok [OF sane] sb_frame_fields(2) [OF f]])
        (use sb_frame_content [OF f d(2)] d(4) in simp)
    moreover have "leaf_at b s' (t'\<lparr>bt_sb := bt_sb t'\<rparr>)"
      using t'(1) by simp
    ultimately have "inode_rep p ?fs i n s'"
      unfolding inode_rep_def using r sane data_block_frame [OF f d(2)] data_block_frame [OF f d(3)] d(4) t'(3) by fastforce
    moreover have "sb_pins (fs_sb ?fs) = sb_pins (fs_sb fs)"
      using t'(4) by (simp add: sb_frame_block_def)
    ultimately show "Q (0, ?fs)"
      using assms(5) t' fs_frame_put [OF f] by blast
  qed (use assms(3) in simp)
  then show ?thesis
    using r by (simp add: on_blocks_sum_tree_def wpo_on_tree split_def)
qed


section \<open>Clusters of a file system\<close>

definition fs_dev :: "dio_dev \<Rightarrow> nkfs_fs \<Rightarrow> nkfs_fs" where
  "fs_dev dev fs = fs\<lparr>fs_sb := (fs_sb fs)\<lparr>ddev := dev\<rparr>\<rparr>"

lemma fs_dev_simps [simp]: "fs_sb (fs_dev dev fs) = (fs_sb fs)\<lparr>ddev := dev\<rparr>" "fs_heap (fs_dev dev fs) = fs_heap fs"
  "fs_dev d (fs_dev dev fs) = fs_dev d fs" "inodes_tree (fs_dev dev fs) = inodes_tree fs"
  "fs_inodes (fs_dev dev fs) = fs_inodes fs" "inodes_active (fs_dev dev fs) = inodes_active fs" "fs_next (fs_dev dev fs) = fs_next fs"
  by (simp_all add: fs_dev_def)

lemma fs_dev_id [simp]: "fs_dev (ddev (fs_sb fs)) fs = fs"
  by (simp add: fs_dev_def)

lemma wpo_on_fsb [simp]: "wpo (on_fsb f fs) Q \<longleftrightarrow> wpo (f (fs_sb fs)) (\<lambda>(r, sb). Q (r, fs\<lparr>fs_sb := sb\<rparr>))"
  by (auto simp: on_fsb_def wpo_def split: bind_splits prod.splits)

lemma wpo_on_fdev [simp]: "wpo (on_fdev f fs) Q \<longleftrightarrow> wpo (f (ddev (fs_sb fs))) (\<lambda>(r, dev). Q (r, fs_dev dev fs))"
  by (auto simp: on_fdev_def on_fsb_def on_dev_def fs_dev_def wpo_def split: bind_splits prod.splits)

lemma wpo_fs_clu_put [simp]: "wpo (fs_clu_put b fs) Q \<longleftrightarrow> wpo (dio_clu_put (ddev (fs_sb fs)) b) (\<lambda>dev. Q (fs_dev dev fs))"
  by (auto simp: fs_clu_put_def sb_clu_put_def fs_dev_def wpo_def split: bind_splits)

lemma fs_mem_ok: "dio_good sz (ddev (fs_sb fs)) \<Longrightarrow> fs_mem fs = (True, fs)"
  by (simp add: fs_mem_def next_mem_def dio_good_def env_ok_def)

lemma data_block_index: "sb_sane sb \<Longrightarrow> data_block sb b \<Longrightarrow> index_ok 65536 b"
proof -
  assume a: "sb_sane sb" "data_block sb b"
  have "unat b * 128 < unat (nr_blocks sb) * 128"
    using a(2) by (simp add: data_block_def word_less_nat_alt)
  then show ?thesis
    using a(1) by (simp add: sb_sane_def index_ok_def)
qed

lemma clu_sum_ok:
  assumes "dio_good 65536 dev" "0 < pins (dio_abs dev) b"
  shows "clu_sum_of dev b = Some (XXH64 (content (dio_abs dev) b) 0)"
proof -
  have d: "dio_wf dev" "dev_clu_size dev = 65536"
    using assms by (simp_all add: dio_good_def)
  obtain c where c: "RBT.lookup (clus_root dev) b = Some c" "content (dio_abs dev) b = concat (clu_pages c)"
    using pinned_clu [OF d(1) assms(2)] by metis
  have "length (content (dio_abs dev) b) = 65536"
    using length_content [of dev b] assms d by simp
  then show ?thesis
    using c csum_pieces_XXH64 [of "clu_pages c"] by (simp add: clu_sum_of_def)
qed

section \<open>The checksum of a block\<close>

abbreviation "vkey \<equiv> nkfs_btree_key_by_u64"

lemma length_vkey [simp]: "length (vkey v) = 16"
  by (simp add: nkfs_btree_key_by_u64_def)

lemma vkey_inj: "vkey v = vkey w \<longleftrightarrow> v = w"
proof
  assume "vkey v = vkey w"
  then have "le_bytes 8 v = le_bytes 8 w"
    by (simp add: nkfs_btree_key_by_u64_def)
  then have "le_word (le_bytes 8 v) = (le_word (le_bytes 8 w) :: u64)"
    by simp
  then show "v = w"
    by simp
qed simp

definition sum_blk :: "u64 \<Rightarrow> u64" where
  "sum_blk v = fst (nkfs_inode_block_to_sum_block v 65536)"

definition sum_pos :: "u64 \<Rightarrow> nat" where
  "sum_pos v = unat (snd (nkfs_inode_block_to_sum_block v 65536))"

lemma sum_place:
  assumes "unat v < 2 ^ 48"
  shows "unat (sum_blk v) = unat v div 8192" "sum_pos v = 8 * (unat v mod 8192)"
proof -
  have m: "unat (v * 8) = unat v * 8"
    using assms by (simp add: unat_word_ariths)
  have d: "unat v * 8 div (8192 * 8) = unat v div 8192" "unat v * 8 mod (8192 * 8) = unat v mod 8192 * 8"
    by (rule div_mult_mult2, simp, rule mod_mult_mult2)
  show "unat (sum_blk v) = unat v div 8192"
    using m d(1) by (simp add: sum_blk_def nkfs_inode_block_to_sum_block_def nkfs_div_def do_div_def unat_div Let_def)
  have lt: "unat (v * 8 mod 65536) < 65536"
    by (simp add: unat_mod)
  show "sum_pos v = 8 * (unat v mod 8192)"
    using m d(2) lt by (simp add: sum_pos_def nkfs_inode_block_to_sum_block_def nkfs_mod_def do_div_def Let_def unsigned_ucast_eq take_bit_eq_mod unat_mod)
qed

lemma sum_pos_fits:
  assumes "unat v < 2 ^ 48"
  shows "sum_pos v + 8 \<le> 65536" "sum_pos v mod 4096 + 8 \<le> 4096"
proof -
  have e: "sum_pos v = 8 * (unat v mod 8192)"
    by (rule sum_place(2) [OF assms])
  then show "sum_pos v + 8 \<le> 65536"
    by simp
  have "sum_pos v mod 4096 = 8 * (unat v mod 8192 mod 512)"
    unfolding e by (simp add: mod_mult_mult1 [of 8 _ 512, simplified])
  then show "sum_pos v mod 4096 + 8 \<le> 4096"
    by simp
qed

lemma sum_pos_distinct:
  assumes "unat v < 2 ^ 48" "unat w < 2 ^ 48" "v \<noteq> w" "sum_blk v = sum_blk w"
  shows "sum_pos v + 8 \<le> sum_pos w \<or> sum_pos w + 8 \<le> sum_pos v"
proof -
  have "unat v div 8192 = unat w div 8192"
    using sum_place(1) [OF assms(1)] sum_place(1) [OF assms(2)] assms(4) by simp
  moreover have "unat v \<noteq> unat w"
    using assms(3) by (simp add: word_unat_eq_iff)
  ultimately have "unat v mod 8192 \<noteq> unat w mod 8192"
    by (metis div_mult_mod_eq)
  then show ?thesis
    unfolding sum_place(2) [OF assms(1)] sum_place(2) [OF assms(2)] by linarith
qed


section \<open>Opening, summing and closing a block\<close>

definition pin_add :: "u64 \<Rightarrow> (u64 \<Rightarrow> nat) \<Rightarrow> u64 \<Rightarrow> nat" where
  "pin_add b f = f(b := f b + 1)"

lemma pin_add_pos [simp]: "0 < pin_add b f b" "0 < f x \<Longrightarrow> 0 < pin_add b f x"
  by (simp_all add: pin_add_def)

lemma wp_open_clus:
  assumes "dio_good 65536 (ddev (fs_sb fs))" "index_ok 65536 (ib_block ib)" "index_ok 65536 (ib_sum_block ib)" "ib_clu ib = None" "ib_sum_clu ib = None"
    and "\<And>dev. dio_good 65536 dev \<Longrightarrow> content (dio_abs dev) = sb_content (fs_sb fs) \<Longrightarrow>
      pins (dio_abs dev) = pin_add (ib_sum_block ib) (pin_add (ib_block ib) (sb_pins (fs_sb fs))) \<Longrightarrow>
      Q ((0, ib\<lparr>ib_clu := Some (ib_block ib), ib_sum_clu := Some (ib_sum_block ib)\<rparr>), fs_dev dev fs)"
  shows "wpo (nkfs_inode_block_open_clus ib fs) Q"
proof -
  have "wpo (dio_clu_get (ddev (fs_sb fs)) (ib_block ib)) (\<lambda>(ok, dev). ok \<and> wpo (dio_clu_get dev (ib_sum_block ib)) (\<lambda>(ok, dev). ok \<and>
      Q ((0, ib\<lparr>ib_clu := Some (ib_block ib), ib_sum_clu := Some (ib_sum_block ib)\<rparr>), fs_dev dev fs)))"
  proof (rule wp_dio_clu_get [OF assms(1,2)], unfold prod.case, intro conjI TrueI)
    fix dev1
    assume 1: "dio_good 65536 dev1" "content (dio_abs dev1) = sb_content (fs_sb fs)"
      "pins (dio_abs dev1) = (sb_pins (fs_sb fs))(ib_block ib := sb_pins (fs_sb fs) (ib_block ib) + 1)"
    show "wpo (dio_clu_get dev1 (ib_sum_block ib)) (\<lambda>(ok, dev). ok \<and>
      Q ((0, ib\<lparr>ib_clu := Some (ib_block ib), ib_sum_clu := Some (ib_sum_block ib)\<rparr>), fs_dev dev fs))"
      by (rule wp_dio_clu_get [OF 1(1) assms(3)]) (use 1 in \<open>simp add: assms(6) pin_add_def\<close>)
  qed
  then show ?thesis
    using assms(4,5) by (auto simp: nkfs_inode_block_open_clus_def elim!: wpo_mono)
qed

lemma wp_relse:
  assumes "dio_good 65536 (ddev (fs_sb fs))" "ib_clu ib = Some b" "ib_sum_clu ib = Some c" "sb_pins (fs_sb fs) = pin_add c (pin_add b f)"
    and "\<And>dev. dio_good 65536 dev \<Longrightarrow> content (dio_abs dev) = sb_content (fs_sb fs) \<Longrightarrow> pins (dio_abs dev) = f \<Longrightarrow> Q (fs_dev dev fs)"
  shows "wpo (nkfs_inode_block_relse ib fs) Q"
proof -
  have b: "0 < sb_pins (fs_sb fs) b"
    using assms(4) by (simp add: pin_add_def)
  have "wpo (dio_clu_put (ddev (fs_sb fs)) b) (\<lambda>dev. wpo (dio_clu_put dev c) (\<lambda>dev. Q (fs_dev dev fs)))"
  proof (rule wp_dio_clu_put [OF assms(1) b])
    fix dev1
    assume 1: "dio_good 65536 dev1" "content (dio_abs dev1) = sb_content (fs_sb fs)"
      "pins (dio_abs dev1) = (sb_pins (fs_sb fs))(b := sb_pins (fs_sb fs) b - 1)"
    then have c: "0 < pins (dio_abs dev1) c"
      using assms(4) by (auto simp: pin_add_def)
    show "wpo (dio_clu_put dev1 c) (\<lambda>dev. Q (fs_dev dev fs))"
      by (rule wp_dio_clu_put [OF 1(1) c]) (use 1 assms(4) in \<open>auto intro!: assms(5) simp: pin_add_def fun_eq_iff\<close>)
  qed
  then show ?thesis
    using assms(2,3) by (simp add: nkfs_inode_block_relse_def fs_put_opt_def)
qed

lemma check_sum_ok:
  assumes "dio_good 65536 (ddev (fs_sb fs))" "ib_clu ib = Some b" "ib_sum_clu ib = Some c" "0 < sb_pins (fs_sb fs) b" "0 < sb_pins (fs_sb fs) c"
    and "unat (ib_sum_off ib) mod 4096 + 8 \<le> 4096" "unat (ib_sum_off ib) < 65536"
  shows "nkfs_inode_block_check_sum ib fs = Some (if take 8 (drop (unat (ib_sum_off ib)) (sb_content (fs_sb fs) c)) = le_bytes 8 (XXH64 (sb_content (fs_sb fs) b) 0)
    then 0 else - EINVAL)"
proof -
  have "wpo (dio_clu_peek (ddev (fs_sb fs)) c (unat (ib_sum_off ib)) 8) (\<lambda>x. x = take 8 (drop (unat (ib_sum_off ib)) (sb_content (fs_sb fs) c)))"
    by (rule wp_dio_clu_peek [OF assms(1,5,6,7)]) simp
  then show ?thesis
    using assms(2,3) clu_sum_ok [OF assms(1,4)] by (auto simp: nkfs_inode_block_check_sum_def wpo_def)
qed

lemma poked_other_dirty:
  assumes "dio_good sz dev" "0 < pins (dio_abs dev) b" "b \<noteq> c" "dio_poked dev c v dev1"
    and "\<And>dev0 dev2. dio_good sz dev0 \<Longrightarrow> dio_abs dev0 = dio_abs dev \<Longrightarrow> dio_poked dev0 c v dev2 \<Longrightarrow> Q ((), dev2)"
  shows "wpo (dio_clu_set_dirty dev1 b) Q"
proof -
  have d: "dio_wf dev"
    using assms(1) by (simp add: dio_good_def)
  obtain cb where cb: "RBT.lookup (clus_root dev) b = Some cb"
    using pinned_clu [OF d assms(2)] by metis
  obtain cc pages where cc: "RBT.lookup (clus_root dev) c = Some cc" "dio_upd c (cc\<lparr>clu_pages := pages\<rparr>) dev dev1"
    "pages_wf pages" "length pages = length (clu_pages cc)" "concat pages = v"
    using assms(4) by (auto simp: dio_poked_def)
  let ?cb = "cb\<lparr>CLU_DIRTY := True\<rparr>"
  let ?dev0 = "dev\<lparr>clus_root := RBT.insert b ?cb (clus_root dev)\<rparr>"
  let ?dev2 = "dev1\<lparr>clus_root := RBT.insert b ?cb (clus_root dev1)\<rparr>"
  have s0: "dio_clu_set_dirty dev b = Some ((), ?dev0)"
    using cb by (simp add: dio_clu_set_dirty_def with_clu_def)
  have "wpo (dio_clu_set_dirty dev b) (\<lambda>(_, dev0). dio_good sz dev0 \<and> pins (dio_abs dev0) = pins (dio_abs dev) \<and> content (dio_abs dev0) = content (dio_abs dev))"
    by (rule wp_dio_clu_dirty [OF assms(1,2) dio_poked_refl [OF assms(1,2)]]) simp
  then have g: "dio_good sz ?dev0" "dio_abs ?dev0 = dio_abs dev"
    using s0 by (auto simp: wpo_def intro: flat_store.equality)
  have l1: "RBT.lookup (clus_root dev1) = (RBT.lookup (clus_root dev))(c \<mapsto> cc\<lparr>clu_pages := pages\<rparr>)"
    using cc(2) by (simp add: dio_upd_def)
  have dom: "dom (RBT.lookup (clus_root ?dev2)) = dom (RBT.lookup (clus_root dev1))"
    using cb assms(3) by (auto simp: l1)
  have "dio_upd c (cc\<lparr>clu_pages := pages\<rparr>) ?dev0 ?dev2"
    unfolding dio_upd_def
  proof (intro conjI)
    have "dio_frame c dev ?dev2"
      using cc(2) by (simp add: dio_upd_def)
    then show "dio_frame c ?dev0 ?dev2"
      by (simp add: dio_frame_def)
    show "RBT.lookup (clus_root ?dev2) = (RBT.lookup (clus_root ?dev0))(c \<mapsto> cc\<lparr>clu_pages := pages\<rparr>)"
      using assms(3) by (simp add: l1 fun_upd_twist)
    show "nr_clus ?dev2 = card (dom (RBT.lookup (clus_root ?dev2)))"
      using cc(2) dom by (simp add: dio_upd_def)
  qed
  then have "dio_poked ?dev0 c v ?dev2"
    unfolding dio_poked_def using cc(1,3-5) assms(3) by (intro exI [of _ cc] exI [of _ pages]) simp
  then have "Q ((), ?dev2)"
    by (rule assms(5) [OF g])
  then show ?thesis
    using cb assms(3) by (simp add: dio_clu_set_dirty_def with_clu_def l1)
qed

lemma wp_block_write:
  assumes "dio_good 65536 (ddev (fs_sb fs))" "ib_clu ib = Some b" "ib_sum_clu ib = Some c" "0 < sb_pins (fs_sb fs) b" "0 < sb_pins (fs_sb fs) c" "b \<noteq> c"
    and "unat (ib_sum_off ib) mod 4096 + 8 \<le> 4096" "unat (ib_sum_off ib) < 65536"
    and "\<And>dev. dio_good 65536 dev \<Longrightarrow> pins (dio_abs dev) = sb_pins (fs_sb fs) \<Longrightarrow>
      content (dio_abs dev) = (sb_content (fs_sb fs))(c := memcpy_at (sb_content (fs_sb fs) c) (unat (ib_sum_off ib)) (le_bytes 8 (XXH64 (sb_content (fs_sb fs) b) 0))) \<Longrightarrow>
      Q (0, fs_dev dev fs)"
  shows "wpo (nkfs_inode_block_write ib fs) Q"
proof -
  let ?d = "ddev (fs_sb fs)"
  let ?v = "memcpy_at (sb_content (fs_sb fs) c) (unat (ib_sum_off ib)) (le_bytes 8 (XXH64 (sb_content (fs_sb fs) b) 0))"
  have "wpo (dio_clu_poke ?d c (unat (ib_sum_off ib)) (le_bytes 8 (XXH64 (sb_content (fs_sb fs) b) 0))) (\<lambda>dev.
    wpo (dio_clu_set_dirty dev b) (\<lambda>(_, dev). wpo (dio_clu_set_dirty dev c) (\<lambda>(_, dev).
      wpo (dio_clu_sync_index dev b) (\<lambda>(err, dev). err = 0 \<and> wpo (dio_clu_sync_index dev c) (\<lambda>(err, dev). Q (err, fs_dev dev fs))))))"
  proof (rule wp_dio_clu_poke [OF assms(1,5) dio_poked_refl [OF assms(1,5)] _ assms(8)])
    fix dev1
    assume 1: "dio_poked ?d c ?v dev1"
    show "wpo (dio_clu_set_dirty dev1 b) (\<lambda>(_, dev). wpo (dio_clu_set_dirty dev c) (\<lambda>(_, dev).
      wpo (dio_clu_sync_index dev b) (\<lambda>(err, dev). err = 0 \<and> wpo (dio_clu_sync_index dev c) (\<lambda>(err, dev). Q (err, fs_dev dev fs)))))"
    proof (rule poked_other_dirty [OF assms(1,4,6) 1], unfold prod.case)
      fix dev0 dev2
      assume 2: "dio_good 65536 dev0" "dio_abs dev0 = dio_abs ?d" "dio_poked dev0 c ?v dev2"
      then have pc: "0 < pins (dio_abs dev0) c"
        using assms(5) by simp
      show "wpo (dio_clu_set_dirty dev2 c) (\<lambda>(_, dev).
        wpo (dio_clu_sync_index dev b) (\<lambda>(err, dev). err = 0 \<and> wpo (dio_clu_sync_index dev c) (\<lambda>(err, dev). Q (err, fs_dev dev fs))))"
      proof (rule wp_dio_clu_dirty [OF 2(1) pc 2(3)], unfold prod.case)
        fix dev3
        assume 3: "dio_good 65536 dev3" "pins (dio_abs dev3) = pins (dio_abs dev0)" "content (dio_abs dev3) = (content (dio_abs dev0))(c := ?v)"
        have p3: "0 < pins (dio_abs dev3) b"
          using 3 2 assms(4) by simp
        show "wpo (dio_clu_sync_index dev3 b) (\<lambda>(err, dev). err = 0 \<and> wpo (dio_clu_sync_index dev c) (\<lambda>(err, dev). Q (err, fs_dev dev fs)))"
        proof (rule wp_dio_clu_sync [OF 3(1) p3], unfold prod.case, intro conjI refl)
          fix dev4
          assume 4: "dio_good 65536 dev4" "dio_abs dev4 = dio_abs dev3"
          have p4: "0 < pins (dio_abs dev4) c"
            using 4 3 2 assms(5) by simp
          show "wpo (dio_clu_sync_index dev4 c) (\<lambda>(err, dev). Q (err, fs_dev dev fs))"
            by (rule wp_dio_clu_sync [OF 4(1) p4]) (use 4 3 2 in \<open>auto intro!: assms(9)\<close>)
        qed
      qed
    qed
  qed (use assms(7) in simp)
  then show ?thesis
    using assms(2,3) clu_sum_ok [OF assms(1,4)] by (auto simp: nkfs_inode_block_write_def elim!: wpo_mono)
qed

end
