(* ===== verification/Inode_Block.thy ===== *)
theory Inode_Block
  imports Fs_Frame
begin

text \<open>
  The blocks of a file (\<open>src/core/inode.c\<close>).  \<open>inode_ok X\<close> is the invariant of
  an inode in memory whose trees are leaves: its blocks are in use and apart from
  each other, the checksum of every block but those of \<open>X\<close> is the one in its
  checksum block, and the block of the inode has its image.  Each step on a block
  returns and keeps it; \<open>file_of\<close> is the content of the file block by block.
\<close>

section \<open>The blocks of a file\<close>

lemma length_sb_content:
  assumes "sb_sane sb" "data_block sb b"
  shows "length (sb_content sb b) = 65536"
proof -
  have g: "dio_wf (ddev sb)" "dev_clu_size (ddev sb) = 65536" "index_ok 65536 b" "unread (ddev sb) = {}"
    using sb_sane_good [OF assms(1)] data_block_index [OF assms] by (auto simp: dio_good_def)
  show ?thesis
  proof (cases "RBT.lookup (clus_root (ddev sb)) b")
    case None
    then show ?thesis
      using g by (simp add: dio_abs_def dio_view_def clu_view_def dio_wf_ex_def dev_ok_def)
  next
    case (Some c)
    have "clu_base (ddev sb) 0 b c"
      using g(1) Some unfolding dio_wf_ex_def clu_ok_def by blast
    then show ?thesis
      using g Some by (auto simp: dio_abs_def dio_view_def clu_view_def dio_wf_ex_def dev_ok_def length_concat_clu)
  qed
qed

text \<open>
  The blocks of a file with the maps \<open>M\<close> of its data blocks and \<open>S\<close> of its
  checksum blocks.
\<close>

definition own :: "nkfs_inode \<Rightarrow> (nkfs_btree_key \<rightharpoonup> u64) \<Rightarrow> (nkfs_btree_key \<rightharpoonup> u64) \<Rightarrow> u64 set" where
  "own i M S = {i_block i, i_blocks_tree_block i, i_blocks_sum_tree_block i} \<union> ran M \<union> ran S"

definition places_ok :: "nkfs_sb \<Rightarrow> nkfs_inode \<Rightarrow> (nkfs_btree_key \<rightharpoonup> u64) \<Rightarrow> (nkfs_btree_key \<rightharpoonup> u64) \<Rightarrow> bool" where
  "places_ok sb i M S \<longleftrightarrow> distinct [i_block i, i_blocks_tree_block i, i_blocks_sum_tree_block i] \<and> (\<forall>b \<in> own i M S. data_block sb b)
     \<and> (\<forall>b \<in> ran M \<union> ran S. b \<notin> {i_block i, i_blocks_tree_block i, i_blocks_sum_tree_block i}) \<and> ran M \<inter> ran S = {}
     \<and> inj_on M (dom M) \<and> inj_on S (dom S) \<and> (\<forall>k \<in> dom M. \<exists>v. k = vkey v \<and> unat v < 2 ^ 48)
     \<and> (\<forall>v. vkey v \<in> dom M \<longrightarrow> vkey (sum_blk v) \<in> dom S)"

text \<open>The checksums of all blocks but those of \<open>X\<close> are right.\<close>

definition sums_ok :: "u64 set \<Rightarrow> (u64 \<Rightarrow> u8 list) \<Rightarrow> (nkfs_btree_key \<rightharpoonup> u64) \<Rightarrow> (nkfs_btree_key \<rightharpoonup> u64) \<Rightarrow> bool" where
  "sums_ok X C M S \<longleftrightarrow> (\<forall>v b c. v \<notin> X \<and> M (vkey v) = Some b \<and> S (vkey (sum_blk v)) = Some c \<longrightarrow>
     take 8 (drop (sum_pos v) (C c)) = le_bytes 8 (XXH64 (C b) 0))"

definition inode_ok :: "u64 set \<Rightarrow> nat \<Rightarrow> nkfs_fs \<Rightarrow> nkfs_inode \<Rightarrow> nkfs_btree_node \<Rightarrow> nkfs_btree_node \<Rightarrow> bool" where
  "inode_ok X p fs i n s \<longleftrightarrow> inode_rep p fs i n s \<and> i_blocks_tree_block i = n_block n \<and> i_blocks_sum_tree_block i = n_block s \<and> \<not> i_dirty i
     \<and> places_ok (fs_sb fs) i (node_map n) (node_map s) \<and> sums_ok X (sb_content (fs_sb fs)) (node_map n) (node_map s)
     \<and> take 56 (sb_content (fs_sb fs) (i_block i)) = inode_disk_bytes (nkfs_inode_to_on_disk i)"

lemma places_okD:
  assumes "places_ok sb i M S"
  shows "inj_on M (dom M)" "inj_on S (dom S)" "ran M \<inter> ran S = {}" "\<forall>b \<in> own i M S. data_block sb b"
    "\<forall>b \<in> ran M \<union> ran S. b \<notin> {i_block i, i_blocks_tree_block i, i_blocks_sum_tree_block i}"
    "\<forall>k \<in> dom M. \<exists>v. k = vkey v \<and> unat v < 2 ^ 48" "\<forall>v. vkey v \<in> dom M \<longrightarrow> vkey (sum_blk v) \<in> dom S"
    "distinct [i_block i, i_blocks_tree_block i, i_blocks_sum_tree_block i]"
  using assms unfolding places_ok_def by - (elim conjE, assumption)+

lemma places_key:
  assumes "places_ok sb i M S" "M (vkey v) = Some b"
  shows "unat v < 2 ^ 48"
proof -
  obtain v' where "vkey v = vkey v'" "unat v' < 2 ^ 48"
    using places_okD(6) [OF assms(1)] assms(2) by blast
  then show ?thesis
    by (simp add: vkey_inj)
qed

lemma places_apart: "places_ok sb i M S \<Longrightarrow> M k = Some b \<Longrightarrow> S k' = Some c \<Longrightarrow> b \<noteq> c"
  using places_okD(3) ranI [of M k b] ranI [of S k' c] by fastforce

lemma places_frame: "places_ok sb i M S \<Longrightarrow> sb_frame N B sb sb' \<Longrightarrow> places_ok sb' i M S"
  by (simp add: places_ok_def data_block_frame [of N B sb sb'])

lemma sums_cong: "sums_ok X C M S \<Longrightarrow> (\<And>b. b \<in> ran M \<union> ran S \<Longrightarrow> C' b = C b) \<Longrightarrow> sums_ok X C' M S"
  unfolding sums_ok_def by (metis UnI1 UnI2 ranI)

lemma sums_mono: "sums_ok X C M S \<Longrightarrow> X \<subseteq> Y \<Longrightarrow> sums_ok Y C M S"
  unfolding sums_ok_def by blast

lemma ran_inj: "inj_on M (dom M) \<Longrightarrow> M k = Some b \<Longrightarrow> M k' = Some b \<longleftrightarrow> k' = k"
  by (metis domI inj_onD)

text \<open>A change of the data of block \<open>v\<close> spoils its checksum only.\<close>

lemma sums_data:
  assumes "sums_ok X C M S" "places_ok sb i M S" "M (vkey v) = Some b"
  shows "sums_ok (insert v X) (C(b := x)) M S"
  unfolding sums_ok_def
proof (intro allI impI, elim conjE)
  fix w bw c
  assume w: "w \<notin> insert v X" "M (vkey w) = Some bw" "S (vkey (sum_blk w)) = Some c"
  have "bw \<noteq> b"
    using ran_inj [OF places_okD(1) [OF assms(2)] assms(3), of "vkey w"] w(1,2) by (auto simp: vkey_inj)
  moreover have "c \<noteq> b"
    using places_apart [OF assms(2,3) w(3)] by simp
  ultimately show "take 8 (drop (sum_pos w) ((C(b := x)) c)) = le_bytes 8 (XXH64 ((C(b := x)) bw) 0)"
    using assms(1) w by (simp add: sums_ok_def)
qed

text \<open>Two ranges of eight bytes that do not meet.\<close>

lemma take_memcpy_other:
  assumes "j + 8 \<le> i \<or> i + 8 \<le> j" "i + 8 \<le> length dst" "length src = 8"
  shows "take 8 (drop j (memcpy_at dst i src)) = take 8 (drop j dst)"
  using assms by (auto simp: memcpy_at_def drop_take)

lemma take_memcpy_same: "i \<le> length dst \<Longrightarrow> take (length src) (drop i (memcpy_at dst i src)) = src"
  by (simp add: memcpy_at_def)

text \<open>Writing the checksum makes it right.\<close>

lemma sums_write:
  assumes "sums_ok X C M S" "places_ok sb i M S" "M (vkey v) = Some b" "S (vkey (sum_blk v)) = Some c" "length (C c) = 65536"
  shows "sums_ok (X - {v}) (C(c := memcpy_at (C c) (sum_pos v) (le_bytes 8 (XXH64 (C b) 0)))) M S"
  unfolding sums_ok_def
proof (intro allI impI, elim conjE)
  let ?C = "C(c := memcpy_at (C c) (sum_pos v) (le_bytes 8 (XXH64 (C b) 0)))"
  fix w bw d
  assume w: "w \<notin> X - {v}" "M (vkey w) = Some bw" "S (vkey (sum_blk w)) = Some d"
  have bw: "bw \<noteq> c"
    by (rule places_apart [OF assms(2) w(2) assms(4)])
  have fits: "sum_pos v + 8 \<le> 65536"
    by (rule sum_pos_fits(1) [OF places_key [OF assms(2,3)]])
  show "take 8 (drop (sum_pos w) (?C d)) = le_bytes 8 (XXH64 (?C bw) 0)"
  proof (cases "w = v")
    case True
    then show ?thesis
      using w assms(3,4,5) bw fits take_memcpy_same [of "sum_pos v" "C c" "le_bytes 8 (XXH64 (C b) 0)"] by simp
  next
    case False
    then have old: "take 8 (drop (sum_pos w) (C d)) = le_bytes 8 (XXH64 (C bw) 0)"
      using assms(1) w by (simp add: sums_ok_def)
    show ?thesis
    proof (cases "d = c")
      case True
      then have "sum_blk w = sum_blk v"
        using ran_inj [OF places_okD(2) [OF assms(2)] assms(4), of "vkey (sum_blk w)"] w(3) by (simp add: vkey_inj)
      then have "take 8 (drop (sum_pos w) (?C c)) = take 8 (drop (sum_pos w) (C c))"
        using sum_pos_distinct [OF places_key [OF assms(2) w(2)] places_key [OF assms(2,3)] False] fits assms(5) by (simp add: take_memcpy_other)
      then show ?thesis
        using old bw True by simp
    next
      case False
      then show ?thesis
        using old bw by simp
    qed
  qed
qed

text \<open>A new block has no checksum yet.\<close>

lemma sums_new:
  assumes "sums_ok X C M S" "\<forall>w. vkey w \<in> dom M \<longrightarrow> vkey (sum_blk w) \<in> dom S" "S' = S \<or> S' = S(k \<mapsto> c) \<and> k \<notin> dom S"
  shows "sums_ok (insert v X) C (M(vkey v \<mapsto> b)) S'"
  unfolding sums_ok_def
proof (intro allI impI, elim conjE)
  fix w bw d
  assume w: "w \<notin> insert v X" "(M(vkey v \<mapsto> b)) (vkey w) = Some bw" "S' (vkey (sum_blk w)) = Some d"
  then have m: "M (vkey w) = Some bw"
    by (auto simp: vkey_inj split: if_splits)
  then have "vkey (sum_blk w) \<in> dom S"
    using assms(2) by blast
  then have "S (vkey (sum_blk w)) = Some d"
    using w(3) assms(3) by (auto split: if_splits)
  then show "take 8 (drop (sum_pos w) (C d)) = le_bytes 8 (XXH64 (C bw) 0)"
    using assms(1) w(1) m by (simp add: sums_ok_def)
qed


abbreviation iown :: "nkfs_inode \<Rightarrow> nkfs_btree_node \<Rightarrow> nkfs_btree_node \<Rightarrow> u64 set" where
  "iown i n s \<equiv> own i (node_map n) (node_map s)"

lemma inode_okD:
  assumes "inode_ok X p fs i n s"
  shows "inode_rep p fs i n s" "places_ok (fs_sb fs) i (node_map n) (node_map s)" "sums_ok X (sb_content (fs_sb fs)) (node_map n) (node_map s)"
    "i_blocks_tree_block i = n_block n" "i_blocks_sum_tree_block i = n_block s" "\<not> i_dirty i" "sb_sane (fs_sb fs)" "dio_good 65536 (ddev (fs_sb fs))"
    "take 56 (sb_content (fs_sb fs) (i_block i)) = inode_disk_bytes (nkfs_inode_to_on_disk i)" "bsize (fs_sb fs) = 65536"
  using assms sb_sane_good [of "fs_sb fs"] by (simp_all add: inode_ok_def inode_rep_def) (simp add: sb_sane_def)

lemma inode_ok_frame:
  assumes "inode_ok X p fs i n s" "sb_frame N B (fs_sb fs) (fs_sb fs')" "fs_heap fs' p = fs_heap fs p" "B \<inter> iown i n s = {}"
  shows "inode_ok X p fs' i n s"
proof -
  note ok = inode_okD [OF assms(1)]
  have c: "sb_content (fs_sb fs') b = sb_content (fs_sb fs) b" if "b \<in> iown i n s" for b
    by (rule sb_frame_content [OF assms(2)]) (use places_okD(4) [OF ok(2)] assms(4) that in auto)
  have "sums_ok X (sb_content (fs_sb fs')) (node_map n) (node_map s)"
    by (rule sums_cong [OF ok(3)]) (use c in \<open>auto simp: own_def\<close>)
  moreover have "inode_rep p fs' i n s"
    by (rule inode_rep_frame [OF ok(1) assms(2,3)]) (use ok(4,5) assms(4) in \<open>auto simp: own_def\<close>)
  moreover have "sb_content (fs_sb fs') (i_block i) = sb_content (fs_sb fs) (i_block i)"
    by (rule c) (simp add: own_def)
  ultimately show ?thesis
    using ok places_frame [OF ok(2) assms(2)] by (simp add: inode_ok_def)
qed

lemma sb_frame_same:
  assumes "sb_sane (fs_sb fs)" "dio_good 65536 dev" "content (dio_abs dev) = sb_content (fs_sb fs)"
  shows "sb_frame {} {} (fs_sb fs) (fs_sb (fs_dev dev fs))"
  using sb_frame_dev [OF assms(1,2), of "{}"] assms(3) by simp

lemma inode_ok_dev:
  assumes "inode_ok X p fs i n s" "dio_good 65536 dev" "content (dio_abs dev) = sb_content (fs_sb fs)"
  shows "inode_ok X p (fs_dev dev fs) i n s" "fs_frame p {} {} fs (fs_dev dev fs)"
proof -
  note f = sb_frame_same [OF inode_okD(7) [OF assms(1)] assms(2,3)]
  show "inode_ok X p (fs_dev dev fs) i n s"
    by (rule inode_ok_frame [OF assms(1) f]) simp_all
  show "fs_frame p {} {} fs (fs_dev dev fs)"
    using f by (simp add: fs_frame_def)
qed

lemma inode_ok_heap:
  "inode_ok X p fs i n s \<Longrightarrow> \<exists>i'. fs_heap fs p = Some i' \<and> bare i' = i"
  by (auto simp: inode_ok_def inode_rep_def)

text \<open>An open block.\<close>

definition opened :: "u64 \<Rightarrow> u64 \<Rightarrow> u64 \<Rightarrow> inode_block" where
  "opened v b c = \<lparr>ib_vblock = v, ib_block = b, ib_vsum_block = sum_blk v, ib_sum_block = c, ib_clu = Some b, ib_sum_clu = Some c,
     ib_sum_off = snd (nkfs_inode_block_to_sum_block v 65536)\<rparr>"

lemma opened_simps [simp]: "ib_clu (opened v b c) = Some b" "ib_sum_clu (opened v b c) = Some c" "unat (ib_sum_off (opened v b c)) = sum_pos v"
  "ib_block (opened v b c) = b" "ib_vblock (opened v b c) = v"
  by (simp_all add: opened_def sum_pos_def)

lemma inode_ok_transfer:
  assumes "inode_ok X p fs i n s" "inode_rep p fs' i n s" "fs_sb fs' = fs_sb fs"
  shows "inode_ok X p fs' i n s"
  using assms by (simp add: inode_ok_def)

lemma fs_frame_id: "sb_sane (fs_sb fs) \<Longrightarrow> fs_frame p {} {} fs fs"
  by (simp add: fs_frame_def)

lemma wpoE: "wpo m Q \<Longrightarrow> (\<And>x. m = Some x \<Longrightarrow> Q x \<Longrightarrow> thesis) \<Longrightarrow> thesis"
  by (auto simp: wpo_def)

lemma blocks_find:
  assumes "inode_ok X p fs i n s"
  obtains fs' where "on_blocks_tree (\<lambda>t. nkfs_btree_find_key t (vkey v)) p fs = Some (case node_map n (vkey v) of None \<Rightarrow> Inl (- ENOENT) | Some b \<Rightarrow> Inr b, fs')"
    "inode_ok X p fs' i n s" "fs_frame p {} {} fs fs'" "fs_sb fs' = fs_sb fs"
proof -
  have "wpo (on_blocks_tree (\<lambda>t. nkfs_btree_find_key t (vkey v)) p fs) (\<lambda>(r, fs'). r = (case node_map n (vkey v) of None \<Rightarrow> Inl (- ENOENT) | Some b \<Rightarrow> Inr b)
    \<and> inode_ok X p fs' i n s \<and> fs_frame p {} {} fs fs' \<and> fs_sb fs' = fs_sb fs)"
    by (rule wp_blocks_find [OF inode_okD(1) [OF assms] length_vkey]) (simp add: inode_ok_transfer [OF assms])
  then show ?thesis
    using that by (auto simp: wpo_def)
qed

lemma sums_find:
  assumes "inode_ok X p fs i n s"
  obtains fs' where "on_blocks_sum_tree (\<lambda>t. nkfs_btree_find_key t (vkey v)) p fs = Some (case node_map s (vkey v) of None \<Rightarrow> Inl (- ENOENT) | Some b \<Rightarrow> Inr b, fs')"
    "inode_ok X p fs' i n s" "fs_frame p {} {} fs fs'" "fs_sb fs' = fs_sb fs"
proof -
  have "wpo (on_blocks_sum_tree (\<lambda>t. nkfs_btree_find_key t (vkey v)) p fs) (\<lambda>(r, fs'). r = (case node_map s (vkey v) of None \<Rightarrow> Inl (- ENOENT) | Some b \<Rightarrow> Inr b)
    \<and> inode_ok X p fs' i n s \<and> fs_frame p {} {} fs fs' \<and> fs_sb fs' = fs_sb fs)"
    by (rule wp_sums_find [OF inode_okD(1) [OF assms] length_vkey]) (simp add: inode_ok_transfer [OF assms])
  then show ?thesis
    using that by (auto simp: wpo_def)
qed

lemma open_clus:
  assumes "inode_ok X p fs i n s" "data_block (fs_sb fs) b" "data_block (fs_sb fs) c"
  obtains fs' where "nkfs_inode_block_open_clus \<lparr>ib_vblock = v, ib_block = b, ib_vsum_block = sum_blk v, ib_sum_block = c, ib_clu = None, ib_sum_clu = None,
      ib_sum_off = snd (nkfs_inode_block_to_sum_block v 65536)\<rparr> fs = Some ((0, opened v b c), fs')"
    "inode_ok X p fs' i n s" "fs_frame p {} {} fs fs'" "sb_content (fs_sb fs') = sb_content (fs_sb fs)"
    "sb_pins (fs_sb fs') = pin_add c (pin_add b (sb_pins (fs_sb fs)))"
proof -
  note ok = inode_okD [OF assms(1)]
  let ?ib = "\<lparr>ib_vblock = v, ib_block = b, ib_vsum_block = sum_blk v, ib_sum_block = c, ib_clu = None, ib_sum_clu = None,
      ib_sum_off = snd (nkfs_inode_block_to_sum_block v 65536)\<rparr>"
  have "wpo (nkfs_inode_block_open_clus ?ib fs) (\<lambda>(r, fs'). r = (0, opened v b c) \<and> inode_ok X p fs' i n s \<and> fs_frame p {} {} fs fs' \<and>
      sb_content (fs_sb fs') = sb_content (fs_sb fs) \<and> sb_pins (fs_sb fs') = pin_add c (pin_add b (sb_pins (fs_sb fs))))"
    by (rule wp_open_clus [OF ok(8)]) (use data_block_index [OF ok(7)] assms in \<open>simp_all add: opened_def inode_ok_dev\<close>)
  then show ?thesis
    using that by (auto simp: wpo_def)
qed

lemma block_read_none:
  assumes "inode_ok X p fs i n s" "node_map n (vkey v) = None"
  obtains fs' where "nkfs_inode_block_read p v fs = Some ((- ENOENT, nkfs_inode_block_zero), fs')" "inode_ok X p fs' i n s" "fs_frame p {} {} fs fs'" "fs_sb fs' = fs_sb fs"
  using blocks_find [OF assms(1), of v] assms(2) that by (force simp: nkfs_inode_block_read_def)

lemma block_read_some:
  assumes "inode_ok X p fs i n s" "node_map n (vkey v) = Some b"
  obtains c fs' where "nkfs_inode_block_read p v fs = Some ((0, opened v b c), fs')" "node_map s (vkey (sum_blk v)) = Some c" "inode_ok X p fs' i n s" "fs_frame p {} {} fs fs'"
    "sb_content (fs_sb fs') = sb_content (fs_sb fs)" "sb_pins (fs_sb fs') = pin_add c (pin_add b (sb_pins (fs_sb fs)))"
proof -
  note ok = inode_okD [OF assms(1)]
  obtain c where c: "node_map s (vkey (sum_blk v)) = Some c"
    using places_okD(7) [OF ok(2)] assms(2) by blast
  have d: "data_block (fs_sb fs) b" "data_block (fs_sb fs) c"
    using places_okD(4) [OF ok(2)] assms(2) c by (auto simp: own_def ran_def)
  obtain fs1 where 1: "on_blocks_tree (\<lambda>t. nkfs_btree_find_key t (vkey v)) p fs = Some (Inr b, fs1)" "inode_ok X p fs1 i n s" "fs_frame p {} {} fs fs1" "fs_sb fs1 = fs_sb fs"
    using blocks_find [OF assms(1), of v] assms(2) by auto
  obtain fs2 where 2: "on_blocks_sum_tree (\<lambda>t. nkfs_btree_find_key t (vkey (sum_blk v))) p fs1 = Some (Inr c, fs2)" "inode_ok X p fs2 i n s" "fs_frame p {} {} fs1 fs2" "fs_sb fs2 = fs_sb fs1"
    using sums_find [OF 1(2), of "sum_blk v"] c by auto
  have d2: "data_block (fs_sb fs2) b" "data_block (fs_sb fs2) c"
    using d 1(4) 2(4) by simp_all
  obtain fs3 where 3: "nkfs_inode_block_open_clus \<lparr>ib_vblock = v, ib_block = b, ib_vsum_block = sum_blk v, ib_sum_block = c, ib_clu = None, ib_sum_clu = None,
      ib_sum_off = snd (nkfs_inode_block_to_sum_block v 65536)\<rparr> fs2 = Some ((0, opened v b c), fs3)"
    "inode_ok X p fs3 i n s" "fs_frame p {} {} fs2 fs3" "sb_content (fs_sb fs3) = sb_content (fs_sb fs2)"
    "sb_pins (fs_sb fs3) = pin_add c (pin_add b (sb_pins (fs_sb fs2)))"
    by (rule open_clus [OF 2(2) d2])
  obtain off where bs: "nkfs_inode_block_to_sum_block v 65536 = (sum_blk v, off)"
    unfolding sum_blk_def by (metis prod.collapse)
  have "nkfs_inode_block_read p v fs = Some ((0, opened v b c), fs3)"
    using 1 2 3(1) ok(10) by (simp add: nkfs_inode_block_read_def bs nkfs_inode_block_zero_def)
  moreover have "fs_frame p {} {} fs fs3"
    using fs_frame_trans [OF fs_frame_trans [OF 1(3) 2(3)] 3(3)] by simp
  ultimately show ?thesis
    using that c 3 1(4) 2(4) by simp
qed


section \<open>Entering new blocks\<close>

lemma inj_on_map_upd: "inj_on M (dom M) \<Longrightarrow> b \<notin> ran M \<Longrightarrow> inj_on (M(k \<mapsto> b)) (dom (M(k \<mapsto> b)))"
  by (auto simp: inj_on_def ran_def)

lemma ran_upd_new: "M k = None \<Longrightarrow> ran (M(k \<mapsto> b)) = insert b (ran M)"
  by (rule ran_map_upd)

lemma places_new_sum:
  assumes "places_ok sb i M S" "S k = None" "data_block sb c" "c \<notin> own i M S"
  shows "places_ok sb i M (S(k \<mapsto> c))"
proof -
  note p = places_okD [OF assms(1)]
  have c: "c \<notin> ran S" "c \<notin> ran M" "c \<notin> {i_block i, i_blocks_tree_block i, i_blocks_sum_tree_block i}"
    using assms(4) by (auto simp: own_def)
  have o: "own i M (S(k \<mapsto> c)) = insert c (own i M S)"
    using assms(2) by (auto simp: own_def)
  show ?thesis
    unfolding places_ok_def o
  proof (intro conjI)
    show "\<forall>b \<in> insert c (own i M S). data_block sb b"
      using p(4) assms(3) by blast
    show "\<forall>b \<in> ran M \<union> ran (S(k \<mapsto> c)). b \<notin> {i_block i, i_blocks_tree_block i, i_blocks_sum_tree_block i}"
      using p(5) c(3) by (simp add: ran_upd_new assms(2))
    show "ran M \<inter> ran (S(k \<mapsto> c)) = {}"
      using p(3) c(2) by (simp add: ran_upd_new assms(2))
    show "\<forall>v. vkey v \<in> dom M \<longrightarrow> vkey (sum_blk v) \<in> dom (S(k \<mapsto> c))"
      using p(7) by simp
  qed (rule p inj_on_map_upd [OF p(2) c(1)])+
qed

lemma places_new_block:
  assumes "places_ok sb i M S" "M (vkey v) = None" "data_block sb b" "b \<notin> own i M S" "unat v < 2 ^ 48" "S (vkey (sum_blk v)) = Some c"
  shows "places_ok sb i (M(vkey v \<mapsto> b)) S"
proof -
  note p = places_okD [OF assms(1)]
  have b: "b \<notin> ran M" "b \<notin> ran S" "b \<notin> {i_block i, i_blocks_tree_block i, i_blocks_sum_tree_block i}"
    using assms(4) by (auto simp: own_def)
  have o: "own i (M(vkey v \<mapsto> b)) S = insert b (own i M S)"
    using assms(2) by (auto simp: own_def)
  have d: "\<forall>w. vkey w \<in> dom (M(vkey v \<mapsto> b)) \<longrightarrow> vkey (sum_blk w) \<in> dom S"
    using p(7) assms(6) by (auto simp: vkey_inj)
  show ?thesis
    unfolding places_ok_def o
  proof (intro conjI)
    show "\<forall>b \<in> insert b (own i M S). data_block sb b"
      using p(4) assms(3) by blast
    show "\<forall>b \<in> ran (M(vkey v \<mapsto> b)) \<union> ran S. b \<notin> {i_block i, i_blocks_tree_block i, i_blocks_sum_tree_block i}"
      using p(5) b(3) by (simp add: ran_upd_new assms(2))
    show "ran (M(vkey v \<mapsto> b)) \<inter> ran S = {}"
      using p(3) b(2) by (simp add: ran_upd_new assms(2))
    show "\<forall>k \<in> dom (M(vkey v \<mapsto> b)). \<exists>v. k = vkey v \<and> unat v < 2 ^ 48"
      using p(6) assms(5) by auto
  qed (rule p d inj_on_map_upd [OF p(1) b(1)])+
qed

lemma inode_own_tree:
  assumes "inode_ok X p fs i n s"
  shows "n_block n \<notin> ran (node_map n) \<union> ran (node_map s)" "n_block s \<notin> ran (node_map n) \<union> ran (node_map s)" "i_block i \<noteq> n_block n" "i_block i \<noteq> n_block s"
    "i_block i \<notin> ran (node_map n) \<union> ran (node_map s)" "data_block (fs_sb fs) (n_block n)" "data_block (fs_sb fs) (n_block s)" "data_block (fs_sb fs) (i_block i)"
  using inode_okD(4,5) [OF assms] places_okD(4,5,8) [OF inode_okD(2) [OF assms]] by (auto simp: own_def)

lemma sums_insert:
  assumes "inode_ok X p fs i n s" "node_map s (vkey k) = None" "data_block (fs_sb fs) c" "c \<notin> iown i n s" "node_nr s < 1791"
  obtains fs' s' where "on_blocks_sum_tree (\<lambda>t. nkfs_btree_insert_key t (vkey k) c False) p fs = Some (0, fs')" "inode_ok X p fs' i n s'"
    "node_map s' = (node_map s)(vkey k \<mapsto> c)" "fs_frame p {} {n_block s} fs fs'" "sb_pins (fs_sb fs') = sb_pins (fs_sb fs)"
proof -
  note ok = inode_okD [OF assms(1)] and t = inode_own_tree [OF assms(1)]
  have "wpo (on_blocks_sum_tree (\<lambda>t. nkfs_btree_insert_key t (vkey k) c False) p fs) (\<lambda>(r, fs'). r = 0 \<and> (\<exists>s'. inode_ok X p fs' i n s' \<and>
    node_map s' = (node_map s)(vkey k \<mapsto> c) \<and> fs_frame p {} {n_block s} fs fs' \<and> sb_pins (fs_sb fs') = sb_pins (fs_sb fs)))"
  proof (rule wp_sums_insert [OF ok(1) length_vkey assms(2,5)], unfold prod.case, intro conjI refl)
    fix fs' s'
    assume a: "inode_rep p fs' i n s'" "node_map s' = (node_map s)(vkey k \<mapsto> c)" "n_block s' = n_block s" "fs_frame p {} {n_block s} fs fs'"
      "sb_pins (fs_sb fs') = sb_pins (fs_sb fs)"
    note f = fs_frame_sb [OF a(4)]
    have c: "sb_content (fs_sb fs') b = sb_content (fs_sb fs) b" if "b \<in> iown i n s" "b \<noteq> n_block s" for b
      by (rule sb_frame_content [OF f]) (use places_okD(4) [OF ok(2)] that in auto)
    have pl: "places_ok (fs_sb fs') i (node_map n) (node_map s')"
      unfolding a(2) by (rule places_new_sum [OF places_frame [OF ok(2) f] assms(2) data_block_frame [OF f assms(3)] assms(4)])
    have "sums_ok X (sb_content (fs_sb fs)) (node_map n) (node_map s')"
      unfolding sums_ok_def
    proof (intro allI impI, elim conjE)
      fix v b d
      assume v: "v \<notin> X" "node_map n (vkey v) = Some b" "node_map s' (vkey (sum_blk v)) = Some d"
      then have "vkey (sum_blk v) \<in> dom (node_map s)"
        using places_okD(7) [OF ok(2)] by blast
      then have "node_map s (vkey (sum_blk v)) = Some d"
        using v(3) a(2) assms(2) by (auto split: if_splits)
      then show "take 8 (drop (sum_pos v) (sb_content (fs_sb fs) d)) = le_bytes 8 (XXH64 (sb_content (fs_sb fs) b) 0)"
        using ok(3) v by (simp add: sums_ok_def)
    qed
    moreover have "sb_content (fs_sb fs') b = sb_content (fs_sb fs) b" if "b \<in> ran (node_map n) \<union> ran (node_map s')" for b
    proof (rule sb_frame_content [OF f])
      have "b \<in> ran (node_map n) \<union> ran (node_map s) \<or> b = c"
        using that a(2) assms(2) by auto
      then show "data_block (fs_sb fs) b" "b \<notin> {n_block s}"
        using places_okD(4) [OF ok(2)] t(2) assms(3,4) ok(5) by (auto simp: own_def)
    qed
    ultimately have "sums_ok X (sb_content (fs_sb fs')) (node_map n) (node_map s')"
      by (rule sums_cong)
    moreover have "sb_content (fs_sb fs') (i_block i) = sb_content (fs_sb fs) (i_block i)"
      by (rule c) (use t(4) in \<open>auto simp: own_def\<close>)
    ultimately have "inode_ok X p fs' i n s'"
      using a ok pl by (simp add: inode_ok_def)
    then show "\<exists>s'. inode_ok X p fs' i n s' \<and> node_map s' = (node_map s)(vkey k \<mapsto> c) \<and> fs_frame p {} {n_block s} fs fs' \<and> sb_pins (fs_sb fs') = sb_pins (fs_sb fs)"
      using a by blast
  qed
  then show ?thesis
    using that by (auto simp: wpo_def)
qed

lemma blocks_insert:
  assumes "inode_ok X p fs i n s" "node_map n (vkey v) = None" "data_block (fs_sb fs) b" "b \<notin> iown i n s" "node_nr n < 1791"
    and "unat v < 2 ^ 48" "node_map s (vkey (sum_blk v)) = Some c"
  obtains fs' n' where "on_blocks_tree (\<lambda>t. nkfs_btree_insert_key t (vkey v) b False) p fs = Some (0, fs')" "inode_ok (insert v X) p fs' i n' s"
    "node_map n' = (node_map n)(vkey v \<mapsto> b)" "fs_frame p {} {n_block n} fs fs'" "sb_pins (fs_sb fs') = sb_pins (fs_sb fs)"
proof -
  note ok = inode_okD [OF assms(1)] and t = inode_own_tree [OF assms(1)]
  have "wpo (on_blocks_tree (\<lambda>t. nkfs_btree_insert_key t (vkey v) b False) p fs) (\<lambda>(r, fs'). r = 0 \<and> (\<exists>n'. inode_ok (insert v X) p fs' i n' s \<and>
    node_map n' = (node_map n)(vkey v \<mapsto> b) \<and> fs_frame p {} {n_block n} fs fs' \<and> sb_pins (fs_sb fs') = sb_pins (fs_sb fs)))"
  proof (rule wp_blocks_insert [OF ok(1) length_vkey assms(2,5)], unfold prod.case, intro conjI refl)
    fix fs' n'
    assume a: "inode_rep p fs' i n' s" "node_map n' = (node_map n)(vkey v \<mapsto> b)" "n_block n' = n_block n" "fs_frame p {} {n_block n} fs fs'"
      "sb_pins (fs_sb fs') = sb_pins (fs_sb fs)"
    note f = fs_frame_sb [OF a(4)]
    have pl: "places_ok (fs_sb fs') i (node_map n') (node_map s)"
      unfolding a(2) by (rule places_new_block [OF places_frame [OF ok(2) f] assms(2) data_block_frame [OF f assms(3)] assms(4,6,7)])
    have "sums_ok (insert v X) (sb_content (fs_sb fs)) (node_map n') (node_map s)"
      unfolding a(2) by (rule sums_new [OF ok(3) places_okD(7) [OF ok(2)]]) simp
    moreover have "sb_content (fs_sb fs') x = sb_content (fs_sb fs) x" if "x \<in> ran (node_map n') \<union> ran (node_map s)" for x
    proof (rule sb_frame_content [OF f])
      have "x \<in> ran (node_map n) \<union> ran (node_map s) \<or> x = b"
        using that a(2) assms(2) by auto
      then show "data_block (fs_sb fs) x" "x \<notin> {n_block n}"
        using places_okD(4) [OF ok(2)] t(1) assms(3,4) ok(4) by (auto simp: own_def)
    qed
    ultimately have "sums_ok (insert v X) (sb_content (fs_sb fs')) (node_map n') (node_map s)"
      by (rule sums_cong)
    moreover have "sb_content (fs_sb fs') (i_block i) = sb_content (fs_sb fs) (i_block i)"
      by (rule sb_frame_content [OF f t(8)]) (use t(3) in simp)
    ultimately have "inode_ok (insert v X) p fs' i n' s"
      using a ok pl by (simp add: inode_ok_def)
    then show "\<exists>n'. inode_ok (insert v X) p fs' i n' s \<and> node_map n' = (node_map n)(vkey v \<mapsto> b) \<and> fs_frame p {} {n_block n} fs fs' \<and> sb_pins (fs_sb fs') = sb_pins (fs_sb fs)"
      using a by blast
  qed
  then show ?thesis
    using that by (auto simp: wpo_def)
qed


section \<open>Allocating blocks\<close>

definition sb_free :: "nkfs_sb \<Rightarrow> u64 set" where
  "sb_free sb = {b. b < nr_blocks sb \<and> \<not> bm_used sb (unat b)}"

lemma sb_free_frame: "sb_frame N B sb sb' \<Longrightarrow> sb_free sb' = sb_free sb - N"
  using sb_frame_used [of N B sb sb'] sb_frame_fields(2) [of N B sb sb'] by (auto simp: sb_free_def)

lemma data_block_not_free: "data_block sb b \<Longrightarrow> b \<notin> sb_free sb"
  by (simp add: data_block_def sb_free_def)

lemma sb_alloc:
  assumes "sb_sane sb"
  obtains (full) sb' where "sb_free sb = {}" "nkfs_balloc_block_alloc sb = Some ((- ENOSPC, 0), sb')" "sb_frame {} {} sb sb'" "sb_pins sb' = sb_pins sb"
  | (new) b sb' where "b \<in> sb_free sb" "nkfs_balloc_block_alloc sb = Some ((0, b), sb')" "sb_frame {b} {} sb sb'" "sb_pins sb' = sb_pins sb"
proof -
  have "wpo (nkfs_balloc_block_alloc sb) (\<lambda>(r, sb'). sb_pins sb' = sb_pins sb \<and>
     (r = (- ENOSPC, 0) \<and> sb_free sb = {} \<and> sb_frame {} {} sb sb' \<or> (\<exists>b. r = (0, b) \<and> b \<in> sb_free sb \<and> sb_frame {b} {} sb sb')))"
    by (rule wp_sb_alloc [OF assms]) (auto simp: sb_free_def)
  then show ?thesis
    using that by (auto simp: wpo_def)
qed

text \<open>Giving a new block back.\<close>

lemma sb_undo:
  assumes "sb_sane sb" "sb_frame N B sb sb1" "b \<in> N"
  obtains sb2 where "nkfs_balloc_block_free sb1 b = Some (0, sb2)" "sb_frame (N - {b}) B sb sb2" "sb_pins sb2 = sb_pins sb1"
proof -
  note s1 = sb_frame_sane [OF assms(2)] and f = sb_frame_fields [OF assms(2)]
  have b: "b < nr_blocks sb" "\<not> bm_used sb (unat b)"
    using assms(2,3) by (auto simp: sb_frame_def)
  have u1: "bm_used sb1 (unat b)"
    using sb_frame_used [OF assms(2) b(1)] assms(3) by simp
  have ok1: "sb_ok sb1"
    using s1 by (simp add: sb_sane_def)
  have "wpo (nkfs_balloc_block_mark sb1 b False) (\<lambda>(r, sb2). r = 0 \<and> bm_changed sb1 (unat b) False sb2 \<and> sb_pins sb2 = sb_pins sb1)"
    by (rule wp_block_mark [OF ok1]) (use b f u1 in \<open>simp_all add: word_less_nat_alt\<close>)
  then obtain sb2 where 2: "nkfs_balloc_block_free sb1 b = Some (0, sb2)" "bm_changed sb1 (unat b) False sb2" "sb_pins sb2 = sb_pins sb1"
    by (auto simp: wpo_def nkfs_balloc_block_free_def)
  obtain d1 u1 d2 u2 where e: "sb1 = sb\<lparr>ddev := d1, used_blocks := u1\<rparr>" "sb2 = sb1\<lparr>ddev := d2, used_blocks := u2\<rparr>"
    using assms(2) 2(2) unfolding sb_frame_def bm_changed_def by blast
  have c: "sb_ok sb2" "\<forall>b' < unat (bm_blocks sb1) * (8 * unat (bsize sb1)). bm_used sb2 b' = (if b' = unat b then False else bm_used sb1 b')"
    "\<forall>i. i \<notin> set (bm_indices sb1) \<longrightarrow> content (dio_abs (ddev sb2)) i = content (dio_abs (ddev sb1)) i"
    using 2(2) unfolding bm_changed_def by blast+
  have le: "unat (nr_blocks sb1) \<le> unat (bm_blocks sb1) * (8 * unat (bsize sb1))"
    using ok1 by (auto simp: sb_ok_def)
  have used: "bm_used sb2 (unat b') \<longleftrightarrow> b' \<in> N - {b} \<or> bm_used sb (unat b')" if "b' < nr_blocks sb" for b'
    using c(2) le that f(2) sb_frame_used [OF assms(2) that] b(2) by (auto simp: word_less_nat_alt word_unat_eq_iff [symmetric])
  have ix: "bm_indices sb2 = bm_indices sb"
    by (simp add: e bm_indices_def)
  have "bm_used sb2 (unat 0)"
    using used [of 0] assms(1) by (simp add: sb_sane_def)
  moreover have "i < nr_blocks sb \<and> bm_used sb2 (unat i)" if "i \<in> set (bm_indices sb)" for i
    using used [of i] assms(1) that by (auto simp: sb_sane_def)
  ultimately have "sb_sane sb2"
    using assms(1) c(1) ix e by (auto simp: sb_sane_def)
  moreover have "\<forall>i. i \<notin> set (bm_indices sb) \<and> i \<notin> B \<longrightarrow> content (dio_abs (ddev sb2)) i = content (dio_abs (ddev sb)) i"
    using c(3) assms(2) f(5) unfolding sb_frame_def by metis
  moreover have "\<forall>b' \<in> N - {b}. b' < nr_blocks sb \<and> \<not> bm_used sb (unat b')"
    using assms(2) unfolding sb_frame_def by blast
  ultimately have "sb_frame (N - {b}) B sb sb2"
    using e used unfolding sb_frame_def by simp
  then show ?thesis
    using that 2 by blast
qed

lemma inode_ok_sb:
  assumes "inode_ok X p fs i n s" "sb_sane (fs_sb fs')" "nr_blocks (fs_sb fs') = nr_blocks (fs_sb fs)" "fs_heap fs' p = fs_heap fs p"
    and "\<And>b. b \<in> iown i n s \<Longrightarrow> data_block (fs_sb fs') b \<and> sb_content (fs_sb fs') b = sb_content (fs_sb fs) b"
  shows "inode_ok X p fs' i n s"
proof -
  note ok = inode_okD [OF assms(1)]
  have o: "n_block n \<in> iown i n s" "n_block s \<in> iown i n s" "i_block i \<in> iown i n s"
    using ok(4,5) by (auto simp: own_def)
  note l = leaf_at_sb [OF _ sb_sane_dev_ok [OF assms(2)] assms(3)]
  have "inode_rep p fs' i n s"
    using ok(1) assms(2,4) assms(5) [OF o(1)] assms(5) [OF o(2)] l unfolding inode_rep_def by metis
  moreover have "sums_ok X (sb_content (fs_sb fs')) (node_map n) (node_map s)"
    by (rule sums_cong [OF ok(3)]) (use assms(5) in \<open>auto simp: own_def\<close>)
  moreover have "places_ok (fs_sb fs') i (node_map n) (node_map s)"
    using ok(2) assms(5) by (simp add: places_ok_def)
  ultimately show ?thesis
    using ok assms(5) [OF o(3)] by (simp add: inode_ok_def)
qed


lemma relse_zero: "ib_clu ib = None \<Longrightarrow> ib_sum_clu ib = None \<Longrightarrow> nkfs_inode_block_relse ib fs = Some fs"
  by (simp add: nkfs_inode_block_relse_def fs_put_opt_def)

abbreviation unopened :: "u64 \<Rightarrow> u64 \<Rightarrow> u64 \<Rightarrow> inode_block" where
  "unopened v b c \<equiv> \<lparr>ib_vblock = v, ib_block = b, ib_vsum_block = sum_blk v, ib_sum_block = c, ib_clu = None, ib_sum_clu = None,
      ib_sum_off = snd (nkfs_inode_block_to_sum_block v 65536)\<rparr>"

text \<open>The checksum block of a new block: there, new, or no space for it.\<close>

lemma sum_block:
  assumes "inode_ok X p fs i n s" "node_nr s < 1791"
  obtains (old) c fs' where "block_sum_block p (unopened v b 0) fs = Some ((0, False, False, unopened v b c), fs')"
      "node_map s (vkey (sum_blk v)) = Some c" "inode_ok X p fs' i n s" "fs_frame p {} {} fs fs'" "sb_pins (fs_sb fs') = sb_pins (fs_sb fs)"
  | (new) c s' fs' where "block_sum_block p (unopened v b 0) fs = Some ((0, True, True, unopened v b c), fs')"
      "node_map s' = (node_map s)(vkey (sum_blk v) \<mapsto> c)" "node_map s (vkey (sum_blk v)) = None" "c \<in> sb_free (fs_sb fs)" "inode_ok X p fs' i n s'"
      "fs_frame p {c} {n_block s} fs fs'" "sb_pins (fs_sb fs') = sb_pins (fs_sb fs)"
  | (full) fs' where "block_sum_block p (unopened v b 0) fs = Some ((- ENOSPC, False, False, unopened v b 0), fs')"
      "sb_free (fs_sb fs) = {}" "inode_ok X p fs' i n s" "fs_frame p {} {} fs fs'" "sb_pins (fs_sb fs') = sb_pins (fs_sb fs)"
proof -
  obtain fs1 where 1: "on_blocks_sum_tree (\<lambda>t. nkfs_btree_find_key t (vkey (sum_blk v))) p fs
      = Some (case node_map s (vkey (sum_blk v)) of None \<Rightarrow> Inl (- ENOENT) | Some b \<Rightarrow> Inr b, fs1)"
    "inode_ok X p fs1 i n s" "fs_frame p {} {} fs fs1" "fs_sb fs1 = fs_sb fs"
    by (rule sums_find [OF assms(1)])
  show ?thesis
  proof (cases "node_map s (vkey (sum_blk v))")
    case (Some c)
    then show ?thesis
      using 1 old [of c fs1] by (simp add: block_sum_block_def)
  next
    case None
    have sane: "sb_sane (fs_sb fs1)"
      by (rule inode_okD(7) [OF 1(2)])
    show ?thesis
    proof (cases rule: sb_alloc [OF sane])
      case (1 sb')
      let ?fs = "fs1\<lparr>fs_sb := sb'\<rparr>"
      have "inode_ok X p ?fs i n s"
        by (rule inode_ok_frame [OF \<open>inode_ok X p fs1 i n s\<close>, of "{}" "{}"]) (use 1(3) in simp_all)
      moreover have "fs_frame p {} {} fs ?fs"
        using fs_frame_trans [OF \<open>fs_frame p {} {} fs fs1\<close> fs_frame_set_sb [of "{}" "{}" fs1 sb' p]] 1(3) by simp
      ultimately show ?thesis
        using full [of ?fs] None 1 \<open>fs_sb fs1 = fs_sb fs\<close> \<open>on_blocks_sum_tree _ p fs = _\<close> by (simp add: block_sum_block_def on_fsb_def)
    next
      case (2 c sb')
      let ?fs = "fs1\<lparr>fs_sb := sb'\<rparr>"
      have o: "c \<notin> iown i n s"
        using places_okD(4) [OF inode_okD(2) [OF 1(2)]] data_block_not_free 2(1) by blast
      have d: "data_block (fs_sb ?fs) c"
        using data_block_new [OF sane 2(3)] by simp
      have ok: "inode_ok X p ?fs i n s"
        by (rule inode_ok_frame [OF 1(2), of "{c}" "{}"]) (use 2(3) in simp_all)
      obtain fs3 s' where 3: "on_blocks_sum_tree (\<lambda>t. nkfs_btree_insert_key t (vkey (sum_blk v)) c False) p ?fs = Some (0, fs3)" "inode_ok X p fs3 i n s'"
        "node_map s' = (node_map s)(vkey (sum_blk v) \<mapsto> c)" "fs_frame p {} {n_block s} ?fs fs3" "sb_pins (fs_sb fs3) = sb_pins (fs_sb ?fs)"
        by (rule sums_insert [OF ok None d o assms(2)])
      have "fs_frame p {c} {n_block s} fs fs3"
        using fs_frame_trans [OF fs_frame_trans [OF 1(3) fs_frame_set_sb [of "{c}" "{}" fs1 sb' p]] 3(4)] 2(3) by simp
      then show ?thesis
        using new [of c fs3 s'] None 1(1,4) 2 3 by (simp add: block_sum_block_def on_fsb_def)
    qed
  qed
qed

lemma alloc_unfold:
  assumes "nkfs_balloc_block_alloc (fs_sb fs) = Some ((0, b), sb1)" "bsize sb1 = 65536"
  shows "nkfs_inode_block_alloc p v fs = do {
       ((err, inserted, allocated, ib), fs) \<leftarrow> block_sum_block p (unopened v b 0) (fs\<lparr>fs_sb := sb1\<rparr>);
       if err \<noteq> 0 then block_alloc_fail p inserted allocated ib err fs
       else do {
         ((err, ib), fs) \<leftarrow> nkfs_inode_block_open_clus ib fs;
         if err \<noteq> 0 then block_alloc_fail p inserted allocated ib err fs
         else do {
           (err, fs) \<leftarrow> on_blocks_tree (\<lambda>t. nkfs_btree_insert_key t (nkfs_btree_key_by_u64 v) (ib_block ib) False) p fs;
           if err \<noteq> 0 then block_alloc_fail p inserted allocated ib err fs
           else Some ((0, ib), fs)
         }
       }
     }"
proof -
  obtain off where bs: "nkfs_inode_block_to_sum_block v 65536 = (sum_blk v, off)"
    unfolding sum_blk_def by (metis prod.collapse)
  show ?thesis
    using assms by (simp add: nkfs_inode_block_alloc_def on_fsb_def bs nkfs_inode_block_zero_def)
qed

text \<open>The end of an allocation whose checksum block is there: open the clusters and enter the block.\<close>

lemma alloc_finish:
  assumes "inode_ok X p fs i n s" "node_map n (vkey v) = None" "unat v < 2 ^ 48" "node_nr n < 1791"
    and "node_map s (vkey (sum_blk v)) = Some c" "data_block (fs_sb fs) b" "b \<notin> iown i n s"
  obtains fs1 fs' n' where "nkfs_inode_block_open_clus (unopened v b c) fs = Some ((0, opened v b c), fs1)"
    "on_blocks_tree (\<lambda>t. nkfs_btree_insert_key t (vkey v) b False) p fs1 = Some (0, fs')" "inode_ok (insert v X) p fs' i n' s"
    "node_map n' = (node_map n)(vkey v \<mapsto> b)" "fs_frame p {} {n_block n} fs fs'" "sb_pins (fs_sb fs') = pin_add c (pin_add b (sb_pins (fs_sb fs)))"
proof -
  have d: "data_block (fs_sb fs) c"
    using places_okD(4) [OF inode_okD(2) [OF assms(1)]] assms(5) by (auto simp: own_def ran_def)
  obtain fs1 where 1: "nkfs_inode_block_open_clus (unopened v b c) fs = Some ((0, opened v b c), fs1)" "inode_ok X p fs1 i n s" "fs_frame p {} {} fs fs1"
    "sb_content (fs_sb fs1) = sb_content (fs_sb fs)" "sb_pins (fs_sb fs1) = pin_add c (pin_add b (sb_pins (fs_sb fs)))"
    by (rule open_clus [OF assms(1,6) d])
  have d1: "data_block (fs_sb fs1) b"
    by (rule data_block_frame [OF fs_frame_sb [OF 1(3)] assms(6)])
  obtain fs' n' where 2: "on_blocks_tree (\<lambda>t. nkfs_btree_insert_key t (vkey v) b False) p fs1 = Some (0, fs')" "inode_ok (insert v X) p fs' i n' s"
    "node_map n' = (node_map n)(vkey v \<mapsto> b)" "fs_frame p {} {n_block n} fs1 fs'" "sb_pins (fs_sb fs') = sb_pins (fs_sb fs1)"
    by (rule blocks_insert [OF 1(2) assms(2) d1 assms(7,4,3,5)])
  show ?thesis
    by (rule that [OF 1(1) 2(1,2,3)]) (use fs_frame_trans [OF 1(3) 2(4)] 1 2 in simp_all)
qed

lemma block_alloc:
  assumes "inode_ok X p fs i n s" "node_map n (vkey v) = None" "unat v < 2 ^ 48" "node_nr n < 1791" "node_nr s < 1791"
  obtains (full) fs' where "nkfs_inode_block_alloc p v fs = Some ((- ENOSPC, nkfs_inode_block_zero), fs')" "card (sb_free (fs_sb fs)) \<le> 1"
      "inode_ok X p fs' i n s" "fs_frame p {} {} fs fs'" "sb_pins (fs_sb fs') = sb_pins (fs_sb fs)"
  | (new) b c N n' s' fs' where "nkfs_inode_block_alloc p v fs = Some ((0, opened v b c), fs')" "inode_ok (insert v X) p fs' i n' s'"
      "node_map n' = (node_map n)(vkey v \<mapsto> b)" "node_map s' (vkey (sum_blk v)) = Some c" "node_map s' = (node_map s)(vkey (sum_blk v) \<mapsto> c)"
      "iown i n' s' = iown i n s \<union> N" "fs_frame p N {n_block n, n_block s} fs fs'" "sb_pins (fs_sb fs') = pin_add c (pin_add b (sb_pins (fs_sb fs)))"
proof -
  have sane: "sb_sane (fs_sb fs)"
    by (rule inode_okD(7) [OF assms(1)])
  show ?thesis
  proof (cases rule: sb_alloc [OF sane])
    case (1 sb')
    let ?fs = "fs\<lparr>fs_sb := sb'\<rparr>"
    have "inode_ok X p ?fs i n s"
      by (rule inode_ok_frame [OF assms(1), of "{}" "{}"]) (use 1(3) in simp_all)
    then show ?thesis
      using full [of ?fs] 1 fs_frame_set_sb [of "{}" "{}" fs sb' p] by (simp add: nkfs_inode_block_alloc_def on_fsb_def)
  next
    case (2 b sb1)
    let ?fs = "fs\<lparr>fs_sb := sb1\<rparr>"
    have bs: "bsize sb1 = 65536"
      using sb_frame_fields(1) [OF 2(3)] inode_okD(10) [OF assms(1)] by simp
    have ob: "b \<notin> iown i n s"
      using places_okD(4) [OF inode_okD(2) [OF assms(1)]] data_block_not_free 2(1) by blast
    have db: "data_block (fs_sb ?fs) b"
      using data_block_new [OF sane 2(3)] by simp
    have ok: "inode_ok X p ?fs i n s"
      by (rule inode_ok_frame [OF assms(1), of "{b}" "{}"]) (use 2(3) in simp_all)
    have f: "fs_frame p {b} {} fs ?fs"
      by (rule fs_frame_set_sb [OF 2(3)])
    show ?thesis
    proof (cases rule: sum_block [OF ok assms(5), of v b])
      case (1 c fs2)
      obtain fs3 fs4 n' where 3: "nkfs_inode_block_open_clus (unopened v b c) fs2 = Some ((0, opened v b c), fs3)"
        "on_blocks_tree (\<lambda>t. nkfs_btree_insert_key t (vkey v) b False) p fs3 = Some (0, fs4)" "inode_ok (insert v X) p fs4 i n' s"
        "node_map n' = (node_map n)(vkey v \<mapsto> b)" "fs_frame p {} {n_block n} fs2 fs4" "sb_pins (fs_sb fs4) = pin_add c (pin_add b (sb_pins (fs_sb fs2)))"
        by (rule alloc_finish [OF 1(3) assms(2,3,4) 1(2) data_block_frame [OF fs_frame_sb [OF 1(4)] db] ob])
      have "fs_frame p {b} {n_block n, n_block s} fs fs4"
        by (rule fs_frame_mono [of _ _ "{n_block n}"]) (use fs_frame_trans [OF fs_frame_trans [OF f 1(4)] 3(5)] in simp_all)
      moreover have "iown i n' s = iown i n s \<union> {b}"
        using 3(4) assms(2) by (auto simp: own_def)
      ultimately show ?thesis
        using new [of b c fs4 n' s "{b}"] 1 3 2 by (simp add: alloc_unfold [OF 2(2) bs] map_upd_triv)
    next
      case (2 c s' fs2)
      note b = \<open>b \<in> sb_free (fs_sb fs)\<close> \<open>nkfs_balloc_block_alloc (fs_sb fs) = Some ((0, b), sb1)\<close> \<open>sb_pins sb1 = sb_pins (fs_sb fs)\<close>
      have "data_block (fs_sb ?fs) b"
        by (rule db)
      then have "b \<noteq> c"
        using data_block_not_free 2(4) by blast
      moreover have "iown i n s' = insert c (iown i n s)"
        using 2(2,3) by (auto simp: own_def)
      ultimately have ob': "b \<notin> iown i n s'"
        using ob by simp
      have c': "node_map s' (vkey (sum_blk v)) = Some c"
        using 2(2) by simp
      obtain fs3 fs4 n' where 3: "nkfs_inode_block_open_clus (unopened v b c) fs2 = Some ((0, opened v b c), fs3)"
        "on_blocks_tree (\<lambda>t. nkfs_btree_insert_key t (vkey v) b False) p fs3 = Some (0, fs4)" "inode_ok (insert v X) p fs4 i n' s'"
        "node_map n' = (node_map n)(vkey v \<mapsto> b)" "fs_frame p {} {n_block n} fs2 fs4" "sb_pins (fs_sb fs4) = pin_add c (pin_add b (sb_pins (fs_sb fs2)))"
        by (rule alloc_finish [OF 2(5) assms(2,3,4) c' data_block_frame [OF fs_frame_sb [OF 2(6)] db] ob'])
      have "fs_frame p {b, c} {n_block n, n_block s} fs fs4"
        by (rule fs_frame_mono [of _ _ "{n_block s, n_block n}"])
          (use fs_frame_trans [OF fs_frame_trans [OF f 2(6)] 3(5)] in \<open>simp_all add: insert_commute\<close>)
      moreover have "iown i n' s' = iown i n s \<union> {b, c}"
        using 3(4) assms(2) 2(2,3) by (auto simp: own_def)
      ultimately show ?thesis
        using new [of b c fs4 n' s' "{b, c}"] 2 3 b by (simp add: alloc_unfold [OF b(2) bs])
    next
      case (3 fs2)
      have e: "sb_free (fs_sb fs) - {b} = {}"
        using sb_free_frame [OF 2(3)] 3(2) by simp
      then have card: "card (sb_free (fs_sb fs)) \<le> 1"
        by (metis Diff_eq_empty_iff card.empty card.insert card_mono empty_iff finite.emptyI finite.insertI One_nat_def)
      have f2: "sb_frame {b} {} (fs_sb fs) (fs_sb fs2)"
        using sb_frame_trans [OF 2(3) fs_frame_sb [OF 3(4), simplified]] by simp
      obtain sb3 where 4: "nkfs_balloc_block_free (fs_sb fs2) b = Some (0, sb3)" "sb_frame ({b} - {b}) {} (fs_sb fs) sb3" "sb_pins sb3 = sb_pins (fs_sb fs2)"
        by (rule sb_undo [OF sane f2]) simp
      let ?fs3 = "fs2\<lparr>fs_sb := sb3\<rparr>"
      have f3: "sb_frame {} {} (fs_sb fs) sb3"
        using 4(2) by simp
      have "inode_ok X p ?fs3 i n s"
      proof (rule inode_ok_sb [OF 3(3)])
        show "sb_sane (fs_sb ?fs3)" "nr_blocks (fs_sb ?fs3) = nr_blocks (fs_sb fs2)" "fs_heap ?fs3 p = fs_heap fs2 p"
          using sb_frame_sane [OF f3] sb_frame_fields(2) [OF f3] sb_frame_fields(2) [OF f2] by simp_all
        fix x
        assume "x \<in> iown i n s"
        then have "data_block (fs_sb fs) x"
          using places_okD(4) [OF inode_okD(2) [OF assms(1)]] by blast
        then show "data_block (fs_sb ?fs3) x \<and> sb_content (fs_sb ?fs3) x = sb_content (fs_sb fs2) x"
          using data_block_frame [OF f3] sb_frame_content [OF f3] sb_frame_content [OF f2] by simp
      qed
      moreover have "fs_frame p {} {} fs ?fs3"
        using f3 3(4) by (simp add: fs_frame_def)
      ultimately show ?thesis
        using full [of ?fs3] card 2 3 4 by (simp add: alloc_unfold [OF 2(2) bs] block_alloc_fail_def on_fsb_def relse_zero)
    qed
  qed
qed


section \<open>Writing blocks\<close>

lemma block_pinned:
  assumes "inode_ok X p fs i n s" "node_map n (vkey v) = Some b" "node_map s (vkey (sum_blk v)) = Some c"
  shows "data_block (fs_sb fs) b" "data_block (fs_sb fs) c" "b \<noteq> c" "unat v < 2 ^ 48" "length (sb_content (fs_sb fs) b) = 65536" "length (sb_content (fs_sb fs) c) = 65536"
    "b \<notin> {n_block n, n_block s, i_block i}" "c \<notin> {n_block n, n_block s, i_block i}"
proof -
  note ok = inode_okD [OF assms(1)]
  show d: "data_block (fs_sb fs) b" "data_block (fs_sb fs) c"
    using places_okD(4) [OF ok(2)] assms(2,3) by (auto simp: own_def ran_def)
  show "b \<noteq> c"
    by (rule places_apart [OF ok(2) assms(2,3)])
  show "unat v < 2 ^ 48"
    by (rule places_key [OF ok(2) assms(2)])
  show "length (sb_content (fs_sb fs) b) = 65536" "length (sb_content (fs_sb fs) c) = 65536"
    by (rule length_sb_content [OF ok(7) d(1)], rule length_sb_content [OF ok(7) d(2)])
  show "b \<notin> {n_block n, n_block s, i_block i}" "c \<notin> {n_block n, n_block s, i_block i}"
    using inode_own_tree [OF assms(1)] ranI [of "node_map n", OF assms(2)] ranI [of "node_map s", OF assms(3)] by auto
qed

text \<open>A device on which one block of a file, not of its trees, has changed.\<close>

lemma inode_ok_change:
  assumes "inode_ok X p fs i n s" "dio_good 65536 dev" "content (dio_abs dev) = (sb_content (fs_sb fs))(x := y)" "x \<in> ran (node_map n) \<union> ran (node_map s)"
    and "sums_ok Y (content (dio_abs dev)) (node_map n) (node_map s)"
  shows "inode_ok Y p (fs_dev dev fs) i n s" "fs_frame p {} {x} fs (fs_dev dev fs)"
proof -
  note ok = inode_okD [OF assms(1)]
  have d: "data_block (fs_sb fs) x"
    using places_okD(4) [OF ok(2)] assms(4) by (auto simp: own_def)
  have x: "x \<notin> {n_block n, n_block s, i_block i}"
    using inode_own_tree [OF assms(1)] assms(4) by auto
  have f: "sb_frame {} {x} (fs_sb fs) (fs_sb (fs_dev dev fs))"
    using sb_frame_dev [OF ok(7) assms(2), of "{x}"] assms(3) d by simp
  then show "fs_frame p {} {x} fs (fs_dev dev fs)"
    by (simp add: fs_frame_def)
  have "inode_rep p (fs_dev dev fs) i n s"
    by (rule inode_rep_frame [OF ok(1) f]) (use x in auto)
  moreover have "take 56 (content (dio_abs dev) (i_block i)) = take 56 (sb_content (fs_sb fs) (i_block i))"
    using x by (auto simp: assms(3))
  ultimately show "inode_ok Y p (fs_dev dev fs) i n s"
    using ok assms(5) places_frame [OF ok(2) f] by (simp add: inode_ok_def)
qed

lemma block_write:
  assumes "inode_ok X p fs i n s" "node_map n (vkey v) = Some b" "node_map s (vkey (sum_blk v)) = Some c"
    and "0 < sb_pins (fs_sb fs) b" "0 < sb_pins (fs_sb fs) c"
  obtains fs' y where "nkfs_inode_block_write (opened v b c) fs = Some (0, fs')" "inode_ok (X - {v}) p fs' i n s" "fs_frame p {} {c} fs fs'"
    "sb_pins (fs_sb fs') = sb_pins (fs_sb fs)" "sb_content (fs_sb fs') = (sb_content (fs_sb fs))(c := y)"
proof -
  note ok = inode_okD [OF assms(1)] and b = block_pinned [OF assms(1-3)]
  note fits = sum_pos_fits [OF b(4)]
  let ?y = "memcpy_at (sb_content (fs_sb fs) c) (sum_pos v) (le_bytes 8 (XXH64 (sb_content (fs_sb fs) b) 0))"
  have "wpo (nkfs_inode_block_write (opened v b c) fs) (\<lambda>(r, fs'). r = 0 \<and> inode_ok (X - {v}) p fs' i n s \<and> fs_frame p {} {c} fs fs' \<and>
    sb_pins (fs_sb fs') = sb_pins (fs_sb fs) \<and> sb_content (fs_sb fs') = (sb_content (fs_sb fs))(c := ?y))"
  proof (rule wp_block_write [OF ok(8) _ _ assms(4,5) b(3)])
    fix dev
    assume d: "dio_good 65536 dev" "pins (dio_abs dev) = sb_pins (fs_sb fs)"
      "content (dio_abs dev) = (sb_content (fs_sb fs))(c := memcpy_at (sb_content (fs_sb fs) c) (unat (ib_sum_off (opened v b c))) (le_bytes 8 (XXH64 (sb_content (fs_sb fs) b) 0)))"
    have e: "content (dio_abs dev) = (sb_content (fs_sb fs))(c := ?y)"
      using d(3) by simp
    have c: "c \<in> ran (node_map n) \<union> ran (node_map s)"
      using ranI [of "node_map s", OF assms(3)] by simp
    note u = inode_ok_change [OF assms(1) d(1) e c sums_write [OF ok(3,2) assms(2,3) b(6), folded e]]
    show "case (0, fs_dev dev fs) of (r, fs') \<Rightarrow> r = 0 \<and> inode_ok (X - {v}) p fs' i n s \<and> fs_frame p {} {c} fs fs' \<and>
      sb_pins (fs_sb fs') = sb_pins (fs_sb fs) \<and> sb_content (fs_sb fs') = (sb_content (fs_sb fs))(c := ?y)"
      using u d(2) e by simp
  qed (use fits in simp_all)
  then show ?thesis
    using that by (auto simp: wpo_def)
qed

lemma data_write:
  assumes "inode_ok X p fs i n s" "node_map n (vkey v) = Some b" "0 < sb_pins (fs_sb fs) b" "off + length buf \<le> 65536"
  obtains dev where "dio_clu_write (ddev (fs_sb fs)) b buf off = Some (0, dev)" "inode_ok (insert v X) p (fs_dev dev fs) i n s" "fs_frame p {} {b} fs (fs_dev dev fs)"
    "pins (dio_abs dev) = sb_pins (fs_sb fs)" "content (dio_abs dev) = (sb_content (fs_sb fs))(b := memcpy_at (sb_content (fs_sb fs) b) off buf)"
proof -
  note ok = inode_okD [OF assms(1)]
  have b: "b \<in> ran (node_map n) \<union> ran (node_map s)"
    using ranI [of "node_map n", OF assms(2)] by simp
  have "wpo (dio_clu_write (ddev (fs_sb fs)) b buf off) (\<lambda>(r, dev). r = 0 \<and> dio_good 65536 dev \<and> pins (dio_abs dev) = sb_pins (fs_sb fs) \<and>
    content (dio_abs dev) = (sb_content (fs_sb fs))(b := memcpy_at (sb_content (fs_sb fs) b) off buf))"
    by (rule wp_dio_clu_write [OF ok(8) assms(3,4)]) simp
  then obtain dev where d: "dio_clu_write (ddev (fs_sb fs)) b buf off = Some (0, dev)" "dio_good 65536 dev" "pins (dio_abs dev) = sb_pins (fs_sb fs)"
    "content (dio_abs dev) = (sb_content (fs_sb fs))(b := memcpy_at (sb_content (fs_sb fs) b) off buf)"
    by (auto simp: wpo_def)
  have "sums_ok (insert v X) (content (dio_abs dev)) (node_map n) (node_map s)"
    unfolding d(4) by (rule sums_data [OF ok(3,2) assms(2)])
  note u = inode_ok_change [OF assms(1) d(2,4) b this]
  show ?thesis
    by (rule that [OF d(1) u d(3,4)])
qed

lemma block_relse:
  assumes "inode_ok X p fs i n s" "sb_pins (fs_sb fs) = pin_add c (pin_add b f)"
  obtains fs' where "nkfs_inode_block_relse (opened v b c) fs = Some fs'" "inode_ok X p fs' i n s" "fs_frame p {} {} fs fs'"
    "sb_content (fs_sb fs') = sb_content (fs_sb fs)" "sb_pins (fs_sb fs') = f"
proof -
  note ok = inode_okD [OF assms(1)]
  have "wpo (nkfs_inode_block_relse (opened v b c) fs) (\<lambda>fs'. inode_ok X p fs' i n s \<and> fs_frame p {} {} fs fs' \<and>
    sb_content (fs_sb fs') = sb_content (fs_sb fs) \<and> sb_pins (fs_sb fs') = f)"
    by (rule wp_relse [OF ok(8) _ _ assms(2)]) (simp_all add: inode_ok_dev [OF assms(1)])
  then show ?thesis
    using that by (auto simp: wpo_def)
qed

lemma inode_check_sum:
  assumes "inode_ok X p fs i n s" "v \<notin> X" "node_map n (vkey v) = Some b" "node_map s (vkey (sum_blk v)) = Some c"
    and "0 < sb_pins (fs_sb fs) b" "0 < sb_pins (fs_sb fs) c"
  shows "nkfs_inode_block_check_sum (opened v b c) fs = Some 0"
proof -
  note ok = inode_okD [OF assms(1)] and b = block_pinned [OF assms(1,3,4)]
  note fits = sum_pos_fits [OF b(4)]
  have "take 8 (drop (sum_pos v) (sb_content (fs_sb fs) c)) = le_bytes 8 (XXH64 (sb_content (fs_sb fs) b) 0)"
    using ok(3) assms(2-4) by (simp add: sums_ok_def)
  then show ?thesis
    using check_sum_ok [OF ok(8), of "opened v b c"] assms(5,6) fits by simp
qed


text \<open>The blocks of a file: its content block by block.\<close>

definition file_of :: "nkfs_sb \<Rightarrow> nkfs_btree_node \<Rightarrow> u64 \<rightharpoonup> u8 list" where
  "file_of sb n = (\<lambda>v. map_option (sb_content sb) (node_map n (vkey v)))"

lemma file_of_some: "file_of sb n v = Some x \<longleftrightarrow> (\<exists>b. node_map n (vkey v) = Some b \<and> x = sb_content sb b)"
  by (auto simp: file_of_def)

lemma file_of_none: "file_of sb n v = None \<longleftrightarrow> node_map n (vkey v) = None"
  by (simp add: file_of_def)

lemma file_of_frame:
  assumes "inode_ok X p fs i n s" "sb_frame N B (fs_sb fs) sb'" "B \<inter> ran (node_map n) = {}"
  shows "file_of sb' n = file_of (fs_sb fs) n"
proof
  fix v
  show "file_of sb' n v = file_of (fs_sb fs) n v"
  proof (cases "node_map n (vkey v)")
    case (Some b)
    have "b \<in> ran (node_map n)"
      using Some by (auto simp: ran_def)
    then have "sb_content sb' b = sb_content (fs_sb fs) b"
      using sb_frame_content [OF assms(2)] places_okD(4) [OF inode_okD(2) [OF assms(1)]] assms(3) by (auto simp: own_def)
    then show ?thesis
      using Some by (simp add: file_of_def)
  qed (simp add: file_of_def)
qed

lemma length_file_of:
  assumes "inode_ok X p fs i n s" "file_of (fs_sb fs) n v = Some x"
  shows "length x = 65536"
proof -
  obtain b where b: "node_map n (vkey v) = Some b" "x = sb_content (fs_sb fs) b"
    using assms(2) by (auto simp: file_of_some)
  then have "data_block (fs_sb fs) b"
    using places_okD(4) [OF inode_okD(2) [OF assms(1)]] ranI [of "node_map n", OF b(1)] by (auto simp: own_def)
  then show ?thesis
    using length_sb_content [OF inode_okD(7) [OF assms(1)]] b(2) by simp
qed

lemma read_create_unfold:
  "nkfs_inode_block_read p v fs = Some ((err, ib), fs1) \<Longrightarrow> err \<noteq> 0 \<Longrightarrow> nkfs_inode_block_alloc p v fs1 = Some ((0, ib'), fs2) \<Longrightarrow>
    nkfs_inode_block_write ib' fs2 = Some (0, fs3) \<Longrightarrow> nkfs_inode_block_read_create p v fs = Some ((0, ib'), fs3)"
  "nkfs_inode_block_read p v fs = Some ((err, ib), fs1) \<Longrightarrow> err \<noteq> 0 \<Longrightarrow> nkfs_inode_block_alloc p v fs1 = Some ((err', nkfs_inode_block_zero), fs2) \<Longrightarrow> err' \<noteq> 0 \<Longrightarrow>
    nkfs_inode_block_read_create p v fs = Some ((err', nkfs_inode_block_zero), fs2)"
  "nkfs_inode_block_read p v fs = Some ((0, ib), fs1) \<Longrightarrow> nkfs_inode_block_check_sum ib fs1 = Some 0 \<Longrightarrow>
    nkfs_inode_block_read_create p v fs = Some ((0, ib), fs1)"
  by (simp_all add: nkfs_inode_block_read_create_def relse_zero nkfs_inode_block_zero_def)

lemma block_read_create:
  assumes "inode_ok {} p fs i n s" "unat v < 2 ^ 48" "node_map n (vkey v) = None \<Longrightarrow> node_nr n < 1791 \<and> node_nr s < 1791"
  obtains (full) fs' where "nkfs_inode_block_read_create p v fs = Some ((- ENOSPC, nkfs_inode_block_zero), fs')" "card (sb_free (fs_sb fs)) \<le> 1"
      "node_map n (vkey v) = None" "inode_ok {} p fs' i n s" "fs_frame p {} {} fs fs'" "sb_pins (fs_sb fs') = sb_pins (fs_sb fs)"
  | (ready) b c N n' s' fs' where "nkfs_inode_block_read_create p v fs = Some ((0, opened v b c), fs')" "inode_ok {} p fs' i n' s'"
      "node_map n' = (node_map n)(vkey v \<mapsto> b)" "node_map n (vkey v) = None \<or> node_map n (vkey v) = Some b"
      "node_map s' = (node_map s)(vkey (sum_blk v) \<mapsto> c)" "iown i n' s' = iown i n s \<union> N"
      "fs_frame p N {n_block n, n_block s, c} fs fs'" "sb_pins (fs_sb fs') = pin_add c (pin_add b (sb_pins (fs_sb fs)))"
      "\<exists>x. file_of (fs_sb fs') n' = (file_of (fs_sb fs) n)(v \<mapsto> x) \<and> (file_of (fs_sb fs) n v = None \<or> file_of (fs_sb fs) n v = Some x)"
proof (cases "node_map n (vkey v)")
  case (Some b)
  obtain c fs' where 1: "nkfs_inode_block_read p v fs = Some ((0, opened v b c), fs')" "node_map s (vkey (sum_blk v)) = Some c" "inode_ok {} p fs' i n s" "fs_frame p {} {} fs fs'"
    "sb_content (fs_sb fs') = sb_content (fs_sb fs)" "sb_pins (fs_sb fs') = pin_add c (pin_add b (sb_pins (fs_sb fs)))"
    by (rule block_read_some [OF assms(1) Some])
  have "nkfs_inode_block_check_sum (opened v b c) fs' = Some 0"
    by (rule inode_check_sum [OF 1(3) _ Some 1(2)]) (simp_all add: 1(6))
  note r = read_create_unfold(3) [OF 1(1) this]
  have "file_of (fs_sb fs') n = (file_of (fs_sb fs) n)(v \<mapsto> sb_content (fs_sb fs) b)" "file_of (fs_sb fs) n v = Some (sb_content (fs_sb fs) b)"
    using Some 1(5) by (auto simp: file_of_def)
  moreover have "fs_frame p {} {n_block n, n_block s, c} fs fs'"
    by (rule fs_frame_mono [OF 1(4)]) simp
  ultimately show ?thesis
    using ready [OF r 1(3), where N = "{}"] Some 1 by (simp add: map_upd_triv)
next
  case None
  obtain fs1 where 1: "nkfs_inode_block_read p v fs = Some ((- ENOENT, nkfs_inode_block_zero), fs1)" "inode_ok {} p fs1 i n s" "fs_frame p {} {} fs fs1" "fs_sb fs1 = fs_sb fs"
    by (rule block_read_none [OF assms(1) None])
  have nr: "node_nr n < 1791" "node_nr s < 1791"
    using assms(3) None by simp_all
  show ?thesis
  proof (cases rule: block_alloc [OF 1(2) None assms(2) nr])
    case f: (1 fs2)
    have "fs_frame p {} {} fs fs2"
      using fs_frame_trans [OF 1(3) f(4)] by simp
    then show ?thesis
      using full [OF read_create_unfold(2) [OF 1(1) _ f(1)]] None f 1(4) by simp
  next
    case a: (2 b c N n' s' fs2)
    have m: "node_map n' (vkey v) = Some b"
      using a(3) by simp
    obtain fs3 y where 3: "nkfs_inode_block_write (opened v b c) fs2 = Some (0, fs3)" "inode_ok ({v} - {v}) p fs3 i n' s'" "fs_frame p {} {c} fs2 fs3"
      "sb_pins (fs_sb fs3) = sb_pins (fs_sb fs2)" "sb_content (fs_sb fs3) = (sb_content (fs_sb fs2))(c := y)"
      by (rule block_write [OF a(2) m a(4)]) (simp_all add: a(8))
    note r = read_create_unfold(1) [OF 1(1) _ a(1) 3(1)]
    have f12: "fs_frame p N {n_block n, n_block s} fs fs2"
      using fs_frame_trans [OF 1(3) a(7)] by simp
    have f: "fs_frame p N {n_block n, n_block s, c} fs fs3"
      using fs_frame_trans [OF f12 3(3)] by (simp add: insert_commute Un_commute)
    have fo: "file_of (fs_sb fs3) n' w = file_of (fs_sb fs) n w" if "w \<noteq> v" for w
    proof (cases "node_map n (vkey w)")
      case (Some x)
      have "x \<in> ran (node_map n)"
        using Some by (auto simp: ran_def)
      then have d: "data_block (fs_sb fs) x" "x \<notin> {n_block n, n_block s}"
        using places_okD(4) [OF inode_okD(2) [OF assms(1)]] inode_own_tree [OF assms(1)] by (auto simp: own_def)
      have m': "node_map n' (vkey w) = Some x"
        using Some that a(3) by (simp add: vkey_inj)
      have "x \<noteq> c"
        by (rule places_apart [OF inode_okD(2) [OF 3(2)] m' a(4)])
      then have "sb_content (fs_sb fs3) x = sb_content (fs_sb fs) x"
        using sb_frame_content [OF fs_frame_sb [OF f] d(1)] d(2) by simp
      then show ?thesis
        using Some m' by (simp add: file_of_def)
    qed (use that a(3) in \<open>simp add: file_of_def vkey_inj\<close>)
    have "file_of (fs_sb fs3) n' = (file_of (fs_sb fs) n)(v \<mapsto> sb_content (fs_sb fs3) b)"
    proof
      fix w
      show "file_of (fs_sb fs3) n' w = ((file_of (fs_sb fs) n)(v \<mapsto> sb_content (fs_sb fs3) b)) w"
        using fo [of w] m by (cases "w = v") (simp_all add: file_of_def)
    qed
    moreover have "file_of (fs_sb fs) n v = None"
      using None by (simp add: file_of_def)
    ultimately have "\<exists>x. file_of (fs_sb fs3) n' = (file_of (fs_sb fs) n)(v \<mapsto> x) \<and> (file_of (fs_sb fs) n v = None \<or> file_of (fs_sb fs) n v = Some x)"
      by blast
    then show ?thesis
      using ready [OF r, where N = N and n' = n' and s' = s'] 3(2,4) a f None 1(4) by simp
  qed
qed


end
