(* ===== verification/Inode_Io.thy ===== *)
theory Inode_Io
  imports Inode_Block
begin

text \<open>
  Reading and writing files (\<open>src/core/inode.c\<close>).  \<open>wrote p pos bs\<close> relates two
  states of a file between which the bytes \<open>bs\<close> were written at \<open>pos\<close>; the loops
  over blocks and pages are composed from it, and what a read returns is given by
  the bytes of the file.
\<close>

section \<open>The inode's own block\<close>

lemma inode_write:
  assumes "fs_heap fs p = Some i" "sb_sane (fs_sb fs)" "data_block (fs_sb fs) (i_block i)"
  obtains dev where "nkfs_inode_write p fs = Some (0, fs_dev dev fs)" "dio_good 65536 dev" "pins (dio_abs dev) = sb_pins (fs_sb fs)"
    "content (dio_abs dev) = (sb_content (fs_sb fs))(i_block i := memcpy_at (sb_content (fs_sb fs) (i_block i)) 0 (inode_disk_bytes (nkfs_inode_to_on_disk i)))"
proof -
  note good = sb_sane_good [OF assms(2)] and ix = data_block_index [OF assms(2,3)]
  let ?b = "i_block i" and ?d = "ddev (fs_sb fs)" and ?w = "inode_disk_bytes (nkfs_inode_to_on_disk i)"
  have "wpo (dio_clu_get ?d ?b) (\<lambda>(ok, dev1). ok \<and> fs_mem (fs_dev dev1 fs) = (True, fs_dev dev1 fs) \<and> wpo (dio_clu_write dev1 ?b ?w 0) (\<lambda>(err, dev2). err = 0 \<and>
     wpo (dio_clu_sync_index dev2 ?b) (\<lambda>(err, dev3). err = 0 \<and> wpo (dio_clu_put dev3 ?b) (\<lambda>dev. dio_good 65536 dev \<and> pins (dio_abs dev) = sb_pins (fs_sb fs) \<and>
     content (dio_abs dev) = (sb_content (fs_sb fs))(?b := memcpy_at (sb_content (fs_sb fs) ?b) 0 ?w)))))"
  proof (rule wp_dio_clu_get [OF good ix], unfold prod.case, intro conjI TrueI)
    fix dev1
    assume 1: "dio_good 65536 dev1" "content (dio_abs dev1) = sb_content (fs_sb fs)" "pins (dio_abs dev1) = (sb_pins (fs_sb fs))(?b := sb_pins (fs_sb fs) ?b + 1)"
    show "fs_mem (fs_dev dev1 fs) = (True, fs_dev dev1 fs)"
      by (rule fs_mem_ok) (use 1 in simp)
    have p1: "0 < pins (dio_abs dev1) ?b"
      using 1(3) by simp
    show "wpo (dio_clu_write dev1 ?b ?w 0) (\<lambda>(err, dev2). err = 0 \<and>
     wpo (dio_clu_sync_index dev2 ?b) (\<lambda>(err, dev3). err = 0 \<and> wpo (dio_clu_put dev3 ?b) (\<lambda>dev. dio_good 65536 dev \<and> pins (dio_abs dev) = sb_pins (fs_sb fs) \<and>
     content (dio_abs dev) = (sb_content (fs_sb fs))(?b := memcpy_at (sb_content (fs_sb fs) ?b) 0 ?w))))"
    proof (rule wp_dio_clu_write [OF 1(1) p1], simp, unfold prod.case, intro conjI refl)
      fix dev2
      assume 2: "dio_good 65536 dev2" "pins (dio_abs dev2) = pins (dio_abs dev1)" "content (dio_abs dev2) = (content (dio_abs dev1))(?b := memcpy_at (content (dio_abs dev1) ?b) 0 ?w)"
      have p2: "0 < pins (dio_abs dev2) ?b"
        using p1 2(2) by simp
      show "wpo (dio_clu_sync_index dev2 ?b) (\<lambda>(err, dev3). err = 0 \<and> wpo (dio_clu_put dev3 ?b) (\<lambda>dev. dio_good 65536 dev \<and> pins (dio_abs dev) = sb_pins (fs_sb fs) \<and>
     content (dio_abs dev) = (sb_content (fs_sb fs))(?b := memcpy_at (sb_content (fs_sb fs) ?b) 0 ?w)))"
      proof (rule wp_dio_clu_sync [OF 2(1) p2], unfold prod.case, intro conjI refl)
        fix dev3
        assume 3: "dio_good 65536 dev3" "dio_abs dev3 = dio_abs dev2"
        have p3: "0 < pins (dio_abs dev3) ?b"
          using p2 3(2) by simp
        show "wpo (dio_clu_put dev3 ?b) (\<lambda>dev. dio_good 65536 dev \<and> pins (dio_abs dev) = sb_pins (fs_sb fs) \<and>
     content (dio_abs dev) = (sb_content (fs_sb fs))(?b := memcpy_at (sb_content (fs_sb fs) ?b) 0 ?w))"
          by (rule wp_dio_clu_put [OF 3(1) p3]) (use 1 2 3 in \<open>simp add: fun_eq_iff\<close>)
      qed
    qed
  qed
  moreover have "?b \<noteq> 0"
    using assms(3) by (simp add: data_block_def)
  ultimately have "wpo (nkfs_inode_write p fs) (\<lambda>(r, fs'). \<exists>dev. r = 0 \<and> fs' = fs_dev dev fs \<and> dio_good 65536 dev \<and> pins (dio_abs dev) = sb_pins (fs_sb fs) \<and>
     content (dio_abs dev) = (sb_content (fs_sb fs))(?b := memcpy_at (sb_content (fs_sb fs) ?b) 0 ?w))"
    using assms(1) by (auto simp: nkfs_inode_write_def elim!: wpo_mono)
  then show ?thesis
    using that by (auto simp: wpo_def)
qed

lemma inode_resize:
  assumes "inode_ok X p fs i n s" "fs_heap fs p = Some i'" "z \<noteq> i_size i"
  obtains fs' where "nkfs_inode_write_dirty p (put_inode p (nkfs_inode_set_size i' z) fs) = Some (0, fs')" "inode_ok X p fs' (i\<lparr>i_size := z\<rparr>) n s"
    "fs_frame p {} {i_block i} fs fs'" "sb_pins (fs_sb fs') = sb_pins (fs_sb fs)"
proof -
  note ok = inode_okD [OF assms(1)] and t = inode_own_tree [OF assms(1)]
  have i': "bare i' = i"
    using inode_ok_heap [OF assms(1)] assms(2) by simp
  have f: "i_block i' = i_block i" "i_size i' = i_size i" "nkfs_inode_to_on_disk (i'\<lparr>i_size := z, i_dirty := True\<rparr>) = nkfs_inode_to_on_disk (i\<lparr>i_size := z\<rparr>)"
    unfolding i' [symmetric] by (simp_all add: nkfs_inode_to_on_disk_def Let_def)
  let ?j = "i'\<lparr>i_size := z, i_dirty := True\<rparr>"
  let ?w = "inode_disk_bytes (nkfs_inode_to_on_disk (i\<lparr>i_size := z\<rparr>))"
  let ?fs1 = "put_inode p ?j fs"
  have j: "nkfs_inode_set_size i' z = ?j"
    using assms(3) f(2) by (simp add: nkfs_inode_set_size_def)
  obtain dev where d: "nkfs_inode_write p ?fs1 = Some (0, fs_dev dev ?fs1)" "dio_good 65536 dev" "pins (dio_abs dev) = sb_pins (fs_sb fs)"
    "content (dio_abs dev) = (sb_content (fs_sb fs))(i_block i := memcpy_at (sb_content (fs_sb fs) (i_block i)) 0 ?w)"
    by (rule inode_write [of ?fs1 p ?j]) (use ok(7) t(8) f in simp_all)
  let ?k = "i'\<lparr>i_size := z, i_dirty := False\<rparr>"
  let ?fs2 = "put_inode p ?k (fs_dev dev ?fs1)"
  have r: "nkfs_inode_write_dirty p (put_inode p (nkfs_inode_set_size i' z) fs) = Some (0, ?fs2)"
    using d(1) by (simp add: nkfs_inode_write_dirty_def j)
  have fr: "sb_frame {} {i_block i} (fs_sb fs) (fs_sb ?fs2)"
    using sb_frame_dev [OF ok(7) d(2), of "{i_block i}"] d(4) t(8) by simp
  have k: "bare ?k = i\<lparr>i_size := z\<rparr>"
    using i' ok(6) by (auto simp: bare_def)
  have l: "fs_heap fs' p = Some i' \<Longrightarrow> inode_rep p fs' i n s \<Longrightarrow> inode_rep p (put_inode p ?k fs') (i\<lparr>i_size := z\<rparr>) n s" for fs'
    using k unfolding inode_rep_def by auto
  have "inode_rep p (fs_dev dev fs) i n s"
    by (rule inode_rep_frame [OF ok(1), of "{}" "{i_block i}"]) (use fr t in auto)
  then have "inode_rep p (put_inode p ?k (fs_dev dev fs)) (i\<lparr>i_size := z\<rparr>) n s"
    by (rule l [rotated]) (use assms(2) in simp)
  moreover have "put_inode p ?k (fs_dev dev fs) = ?fs2"
    by (simp add: put_inode_def fs_dev_def)
  ultimately have rep: "inode_rep p ?fs2 (i\<lparr>i_size := z\<rparr>) n s"
    by simp
  have len: "length (sb_content (fs_sb fs) (i_block i)) = 65536"
    by (rule length_sb_content [OF ok(7) t(8)])
  have "sums_ok X (sb_content (fs_sb ?fs2)) (node_map n) (node_map s)"
    by (rule sums_cong [OF ok(3)]) (use t(5) d(4) in auto)
  moreover have "places_ok (fs_sb ?fs2) (i\<lparr>i_size := z\<rparr>) (node_map n) (node_map s)"
    using places_frame [OF ok(2) fr] by (simp add: places_ok_def own_def)
  moreover have "take 56 (sb_content (fs_sb ?fs2) (i_block i)) = ?w"
    using d(4) len by (simp add: memcpy_at_def)
  ultimately have "inode_ok X p ?fs2 (i\<lparr>i_size := z\<rparr>) n s"
    using ok rep by (simp add: inode_ok_def)
  moreover have "fs_frame p {} {i_block i} fs ?fs2"
    using fr by (simp add: fs_frame_def)
  moreover have "sb_pins (fs_sb ?fs2) = sb_pins (fs_sb fs)"
    using d(3) by simp
  ultimately show ?thesis
    by (rule that [OF r])
qed


section \<open>Reading and writing within a block\<close>

lemma unat_lt32: "unat (x :: u32) < 2 ^ 32"
  using unsigned_less [of x] by simp

lemma data_off_unat:
  assumes "unat v < 2 ^ 48" "unat off < 65536"
  shows "unat (v * 65536 + ucast (off :: u32) :: u64) = unat v * 65536 + unat off"
  using assms by (simp add: unat_word_ariths unsigned_ucast_eq take_bit_eq_mod)

lemma data_end_unat:
  assumes "unat v < 2 ^ 48" "unat off < 65536" "unat v * 65536 + unat off + unat len < 2 ^ 64"
  shows "unat (v * 65536 + ucast (off :: u32) + ucast (len :: u32) :: u64) = unat v * 65536 + unat off + unat len"
proof -
  have l: "unat (ucast len :: u64) = unat len"
    using unat_lt32 [of len] by (simp add: unsigned_ucast_eq take_bit_eq_mod)
  show ?thesis
    unfolding unat_word_ariths(1) [of "v * 65536 + ucast off"] l data_off_unat [OF assms(1,2)] using assms(3) by simp
qed

lemma off_len_fits: "unat off + unat len \<le> 65536 \<Longrightarrow> \<not> ucast (off :: u32) + ucast (len :: u32) > (65536 :: u64)"
proof -
  assume a: "unat off + unat len \<le> 65536"
  have "unat (ucast off :: u64) = unat off" "unat (ucast len :: u64) = unat len"
    using unat_lt32 [of off] unat_lt32 [of len] by (simp_all add: unsigned_ucast_eq take_bit_eq_mod)
  then show ?thesis
    using a by (simp add: word_less_nat_alt unat_word_ariths)
qed

text \<open>What a read within block \<open>v\<close> returns for a file of \<open>sz\<close> bytes with the blocks \<open>F\<close>.\<close>

definition read_result :: "(u64 \<rightharpoonup> u8 list) \<Rightarrow> nat \<Rightarrow> u64 \<Rightarrow> nat \<Rightarrow> nat \<Rightarrow> io_result" where
  "read_result F sz v off len = (let pos = unat v * 65536 + off in
     if sz < pos then io_fail (- ERANGE)
     else if pos = sz then \<lparr>io_err = 0, io_data = [], io_count = 0, io_eof = True\<rparr>
     else case F v of
       None \<Rightarrow> io_fail (- ENOENT)
     | Some x \<Rightarrow> \<lparr>io_err = 0, io_data = take (min len (sz - pos)) (drop off x), io_count = of_nat (min len (sz - pos)), io_eof = sz \<le> pos + len\<rparr>)"

lemma read_block_buf:
  assumes "inode_ok {} p fs i n s" "unat v < 2 ^ 48" "unat off < 65536" "unat off + unat len \<le> 65536" "unat v * 65536 + unat off + unat len < 2 ^ 64"
  obtains fs' where "nkfs_inode_read_block_buf p v off len fs = Some (read_result (file_of (fs_sb fs) n) (unat (i_size i)) v (unat off) (unat len), fs')"
    "inode_ok {} p fs' i n s" "fs_frame p {} {} fs fs'" "sb_pins (fs_sb fs') = sb_pins (fs_sb fs)" "sb_content (fs_sb fs') = sb_content (fs_sb fs)"
proof -
  note ok = inode_okD [OF assms(1)] and fits = off_len_fits [OF assms(4)]
  note pos = data_off_unat [OF assms(2,3)] and pend = data_end_unat [OF assms(2,3,5)]
  obtain i' where i': "fs_heap fs p = Some i'" "bare i' = i"
    using inode_ok_heap [OF assms(1)] by blast
  have sz: "i_size i' = i_size i"
    using i'(2) by auto
  let ?pos = "v * 65536 + ucast off :: u64"
  let ?F = "file_of (fs_sb fs) n"
  show ?thesis
  proof (cases "unat ?pos < unat (i_size i)")
    case False
    then consider "i_size i < ?pos" | "?pos = i_size i"
      by (metis linorder_neqE word_less_nat_alt)
    then have "nkfs_inode_read_block_buf p v off len fs = Some (read_result ?F (unat (i_size i)) v (unat off) (unat len), fs)"
    proof cases
      case 1
      then have "unat (i_size i) < unat v * 65536 + unat off"
        using pos by (simp add: word_less_nat_alt)
      then show ?thesis
        using fits ok(10) i'(1) sz 1 by (simp add: nkfs_inode_read_block_buf_def read_result_def)
    next
      case 2
      then have "unat (i_size i) = unat v * 65536 + unat off"
        using pos by simp
      then show ?thesis
        using fits ok(10) i'(1) sz 2 by (simp add: nkfs_inode_read_block_buf_def read_result_def)
    qed
    then show ?thesis
      using that assms(1) fs_frame_id [OF ok(7)] by blast
  next
    case lt: True
    then have nle: "\<not> i_size i < ?pos" "?pos \<noteq> i_size i"
      by (auto simp: word_less_nat_alt)
    show ?thesis
    proof (cases "node_map n (vkey v)")
      case None
      obtain fs1 where 1: "nkfs_inode_block_read p v fs = Some ((- ENOENT, nkfs_inode_block_zero), fs1)" "inode_ok {} p fs1 i n s" "fs_frame p {} {} fs fs1" "fs_sb fs1 = fs_sb fs"
        by (rule block_read_none [OF assms(1) None])
      have "?F v = None"
        using None by (simp add: file_of_none)
      then have "nkfs_inode_read_block_buf p v off len fs = Some (read_result ?F (unat (i_size i)) v (unat off) (unat len), fs1)"
        using fits ok(10) i'(1) sz nle lt 1(1) by (simp add: nkfs_inode_read_block_buf_def read_result_def Let_def pos [symmetric])
      then show ?thesis
        using that 1 by auto
    next
      case (Some b)
      obtain c fs1 where 1: "nkfs_inode_block_read p v fs = Some ((0, opened v b c), fs1)" "node_map s (vkey (sum_blk v)) = Some c" "inode_ok {} p fs1 i n s" "fs_frame p {} {} fs fs1"
        "sb_content (fs_sb fs1) = sb_content (fs_sb fs)" "sb_pins (fs_sb fs1) = pin_add c (pin_add b (sb_pins (fs_sb fs)))"
        by (rule block_read_some [OF assms(1) Some])
      have cs: "nkfs_inode_block_check_sum (opened v b c) fs1 = Some 0"
        by (rule inode_check_sum [OF 1(3) _ Some 1(2)]) (simp_all add: 1(6))
      obtain i1 where i1: "fs_heap fs1 p = Some i1" "i_size i1 = i_size i"
        using inode_ok_heap [OF 1(3)] by auto
      let ?l = "min (unat len) (unat (i_size i) - unat ?pos)"
      define ll :: u32 where "ll = (if ?pos + ucast len \<ge> i_size i then ucast (i_size i - ?pos) else len)"
      have ll: "unat ll = ?l"
      proof (cases "?pos + ucast len \<ge> i_size i")
        case True
        then have le: "unat (i_size i) \<le> unat ?pos + unat len"
          using pend pos by (simp add: word_le_nat_alt)
        have sub: "unat (i_size i - ?pos) = unat (i_size i) - unat ?pos"
          by (rule unat_sub) (use lt in \<open>simp add: word_le_nat_alt\<close>)
        have "unat (i_size i) - unat ?pos < 2 ^ 32"
          using le unat_lt32 [of len] by simp
        then have "unat (ucast (i_size i - ?pos) :: u32) = unat (i_size i) - unat ?pos"
          using sub by (simp add: unsigned_ucast_eq take_bit_eq_mod)
        then show ?thesis
          using True le by (simp add: ll_def)
      next
        case False
        then have "unat ?pos + unat len < unat (i_size i)"
          using pend pos by (simp add: word_le_nat_alt)
        then show ?thesis
          using False by (simp add: ll_def)
      qed
      have eof: "(?pos + ucast len \<ge> i_size i) = (unat (i_size i) \<le> unat ?pos + unat len)"
        using pend pos by (simp add: word_le_nat_alt)
      note ok1 = inode_okD [OF 1(3)]
      have pb: "0 < sb_pins (fs_sb fs1) b"
        by (simp add: 1(6))
      have "unat off + unat ll \<le> 65536"
        using ll assms(4) by simp
      then have "wpo (dio_clu_read (ddev (fs_sb fs1)) b (unat ll) (unat off)) (\<lambda>(r, dev). r = (0, take (unat ll) (drop (unat off) (sb_content (fs_sb fs1) b))) \<and>
        dio_good 65536 dev \<and> dio_abs dev = dio_abs (ddev (fs_sb fs1)))"
        by (intro wp_dio_clu_read [OF ok1(8) pb]) simp_all
      then obtain dev where d: "dio_clu_read (ddev (fs_sb fs1)) b (unat ll) (unat off) = Some ((0, take (unat ll) (drop (unat off) (sb_content (fs_sb fs) b))), dev)"
        "dio_good 65536 dev" "dio_abs dev = dio_abs (ddev (fs_sb fs1))"
        using 1(5) by (auto simp: wpo_def)
      have c2: "content (dio_abs dev) = sb_content (fs_sb fs1)"
        using d(3) by simp
      note o2 = inode_ok_dev [OF 1(3) d(2) c2]
      have p2: "sb_pins (fs_sb (fs_dev dev fs1)) = pin_add c (pin_add b (sb_pins (fs_sb fs)))"
        using d(3) 1(6) by simp
      obtain fs3 where 3: "nkfs_inode_block_relse (opened v b c) (fs_dev dev fs1) = Some fs3" "inode_ok {} p fs3 i n s" "fs_frame p {} {} (fs_dev dev fs1) fs3"
        "sb_content (fs_sb fs3) = sb_content (fs_sb (fs_dev dev fs1))" "sb_pins (fs_sb fs3) = sb_pins (fs_sb fs)"
        by (rule block_relse [OF o2(1) p2])
      have F: "?F v = Some (sb_content (fs_sb fs) b)"
        using Some by (simp add: file_of_def)
      have fd: "on_fdev (\<lambda>dev. dio_clu_read dev b (unat ll) (unat off)) fs1 = Some ((0, take (unat ll) (drop (unat off) (sb_content (fs_sb fs) b))), fs_dev dev fs1)"
        using d(1) by (simp add: on_fdev_def on_fsb_def on_dev_def fs_dev_def)
      let ?eof = "?pos + ucast len \<ge> i_size i"
      have pr: "(if ?eof then (ucast (i_size i1 - ?pos), True) else (len, False)) = (ll, ?eof)"
        using i1(2) by (simp add: ll_def)
      have "nkfs_inode_read_block_buf p v off len fs = Some (\<lparr>io_err = 0, io_data = take (unat ll) (drop (unat off) (sb_content (fs_sb fs) b)), io_count = ll, io_eof = ?eof\<rparr>, fs3)"
        using fits ok(10) i'(1) sz nle 1(1) cs i1 fd 3(1) by (simp add: nkfs_inode_read_block_buf_def Let_def pr)
      moreover have "ll = of_nat ?l"
        unfolding ll [symmetric] by simp
      ultimately have "nkfs_inode_read_block_buf p v off len fs = Some (read_result ?F (unat (i_size i)) v (unat off) (unat len), fs3)"
        using lt F ll eof by (simp add: read_result_def Let_def pos [symmetric])
      moreover have "fs_frame p {} {} fs fs3"
        using fs_frame_trans [OF fs_frame_trans [OF 1(4) o2(2)] 3(3)] by simp
      ultimately show ?thesis
        using that 3 c2 1(5) by simp
    qed
  qed
qed


lemma of_nat_max_size:
  assumes "e < 2 ^ 64"
  shows "of_nat (max (unat (z :: u64)) e) = (if z < of_nat e then of_nat e else z)"
  using assms by (auto simp: word_less_nat_alt unat_of_nat max_def)

lemma write_block_buf:
  assumes "inode_ok {} p fs i n s" "unat v < 2 ^ 48" "unat off < 65536" "unat off + length buf \<le> 65536" "unat v * 65536 + unat off + length buf < 2 ^ 64"
    and "file_of (fs_sb fs) n v = None \<Longrightarrow> node_nr n < 1791 \<and> node_nr s < 1791"
  defines "z \<equiv> max (unat (i_size i)) (unat v * 65536 + unat off + length buf)"
  obtains (full) fs' where "nkfs_inode_write_block_buf p v off buf fs = Some (io_fail (- ENOSPC), fs')" "card (sb_free (fs_sb fs)) \<le> 1"
      "file_of (fs_sb fs) n v = None" "inode_ok {} p fs' i n s" "fs_frame p {} {} fs fs'" "sb_pins (fs_sb fs') = sb_pins (fs_sb fs)"
  | (written) fs' n' s' N x where "nkfs_inode_write_block_buf p v off buf fs = Some (\<lparr>io_err = 0, io_data = [], io_count = of_nat (length buf), io_eof = False\<rparr>, fs')"
      "inode_ok {} p fs' (i\<lparr>i_size := of_nat z\<rparr>) n' s'" "file_of (fs_sb fs') n' = (file_of (fs_sb fs) n)(v \<mapsto> memcpy_at x (unat off) buf)"
      "file_of (fs_sb fs) n v = None \<or> file_of (fs_sb fs) n v = Some x" "length x = 65536" "dom (node_map n') = insert (vkey v) (dom (node_map n))"
      "dom (node_map s') = insert (vkey (sum_blk v)) (dom (node_map s))" "iown i n' s' = iown i n s \<union> N" "fs_frame p N (iown i n' s') fs fs'"
      "sb_pins (fs_sb fs') = sb_pins (fs_sb fs)"
proof -
  have len: "unat (of_nat (length buf) :: u32) = length buf"
    using assms(4) by (simp add: unat_of_nat)
  have fits: "\<not> ucast off + ucast (of_nat (length buf) :: u32) > (65536 :: u64)"
    by (rule off_len_fits) (use assms(4) len in simp)
  note pend = data_end_unat [OF assms(2,3), of "of_nat (length buf)", unfolded len, OF assms(5)]
  have room: "node_map n (vkey v) = None \<Longrightarrow> node_nr n < 1791 \<and> node_nr s < 1791"
    using assms(6) by (simp add: file_of_none)
  note bs0 = inode_okD(10) [OF assms(1)]
  show ?thesis
  proof (cases rule: block_read_create [OF assms(1,2) room])
    case (2 fs')
    then show ?thesis
      using full [of fs'] fits bs0 by (simp add: nkfs_inode_write_block_buf_def file_of_none)
  next
    case rc: (3 b c N n' s' fs1)
    have m: "node_map n' (vkey v) = Some b" "node_map s' (vkey (sum_blk v)) = Some c"
      using rc(3,5) by simp_all
    have pb: "0 < sb_pins (fs_sb fs1) b" "0 < sb_pins (fs_sb fs1) c"
      using rc(8) by simp_all
    obtain dev where d: "dio_clu_write (ddev (fs_sb fs1)) b buf (unat off) = Some (0, dev)" "inode_ok (insert v {}) p (fs_dev dev fs1) i n' s'"
      "fs_frame p {} {b} fs1 (fs_dev dev fs1)" "pins (dio_abs dev) = sb_pins (fs_sb fs1)"
      "content (dio_abs dev) = (sb_content (fs_sb fs1))(b := memcpy_at (sb_content (fs_sb fs1) b) (unat off) buf)"
      by (rule data_write [OF rc(2) m(1) pb(1) assms(4)])
    let ?fs2 = "fs_dev dev fs1"
    have p2: "0 < sb_pins (fs_sb ?fs2) b" "0 < sb_pins (fs_sb ?fs2) c"
      using pb d(4) by simp_all
    obtain fs3 y where w: "nkfs_inode_block_write (opened v b c) ?fs2 = Some (0, fs3)" "inode_ok ({v} - {v}) p fs3 i n' s'" "fs_frame p {} {c} ?fs2 fs3"
      "sb_pins (fs_sb fs3) = sb_pins (fs_sb ?fs2)" "sb_content (fs_sb fs3) = (sb_content (fs_sb ?fs2))(c := y)"
      by (rule block_write [OF d(2) m p2])
    have w2: "inode_ok {} p fs3 i n' s'"
      using w(2) by simp
    obtain i3 where i3: "fs_heap fs3 p = Some i3" "i_size i3 = i_size i"
      using inode_ok_heap [OF w2] by auto
    let ?e = "v * 65536 + ucast off + ucast (of_nat (length buf) :: u32) :: u64"
    have e: "?e = of_nat (unat v * 65536 + unat off + length buf)"
      unfolding pend [symmetric] by simp
    have zz: "of_nat z = (if i_size i < ?e then ?e else i_size i)"
      unfolding z_def e by (rule of_nat_max_size [OF assms(5)])
    note bs3 = inode_okD(10) [OF w2]
    define g where "g = (do {
           let data_end = v * ucast (bsize (fs_sb fs3)) + ucast off + ucast (of_nat (length buf) :: u32);
           i \<leftarrow> fs_heap fs3 p;
           if data_end > i_size i then nkfs_inode_write_dirty p (put_inode p (nkfs_inode_set_size i data_end) fs3)
           else Some (0, fs3)
         })"
    have "\<exists>fs4. g = Some (0, fs4) \<and> inode_ok {} p fs4 (i\<lparr>i_size := of_nat z\<rparr>) n' s' \<and> fs_frame p {} {i_block i} fs3 fs4 \<and> sb_pins (fs_sb fs4) = sb_pins (fs_sb fs3)"
    proof (cases "i_size i < ?e")
      case True
      obtain fs4 where "nkfs_inode_write_dirty p (put_inode p (nkfs_inode_set_size i3 ?e) fs3) = Some (0, fs4)" "inode_ok {} p fs4 (i\<lparr>i_size := ?e\<rparr>) n' s'"
        "fs_frame p {} {i_block i} fs3 fs4" "sb_pins (fs_sb fs4) = sb_pins (fs_sb fs3)"
        by (rule inode_resize [OF w2 i3(1)]) (use True in auto)
      then show ?thesis
        using True i3 bs3 zz by (simp add: g_def)
    next
      case False
      then have "g = Some (0, fs3)" "i\<lparr>i_size := of_nat z\<rparr> = i"
        using i3 bs3 zz by (simp_all add: g_def)
      moreover have "fs_frame p {} {i_block i} fs3 fs3"
        by (rule fs_frame_mono [OF fs_frame_id [OF inode_okD(7) [OF w2]]]) simp
      ultimately show ?thesis
        using w2 by simp
    qed
    then obtain fs4 where 4: "g = Some (0, fs4)" "inode_ok {} p fs4 (i\<lparr>i_size := of_nat z\<rparr>) n' s'" "fs_frame p {} {i_block i} fs3 fs4" "sb_pins (fs_sb fs4) = sb_pins (fs_sb fs3)"
      by blast
    have p4: "sb_pins (fs_sb fs4) = pin_add c (pin_add b (sb_pins (fs_sb fs)))"
      using 4(4) w(4) d(4) rc(8) by simp
    obtain fs5 where 5: "nkfs_inode_block_relse (opened v b c) fs4 = Some fs5" "inode_ok {} p fs5 (i\<lparr>i_size := of_nat z\<rparr>) n' s'" "fs_frame p {} {} fs4 fs5"
      "sb_content (fs_sb fs5) = sb_content (fs_sb fs4)" "sb_pins (fs_sb fs5) = sb_pins (fs_sb fs)"
      by (rule block_relse [OF 4(2) p4])
    have r: "nkfs_inode_write_block_buf p v off buf fs = Some (\<lparr>io_err = 0, io_data = [], io_count = of_nat (length buf), io_eof = False\<rparr>, fs5)"
      using rc(1) d(1) w(1) 4(1) 5(1) fits bs0 i3(1)
      by (simp add: nkfs_inode_write_block_buf_def on_fdev_def on_fsb_def on_dev_def fs_dev_def g_def Let_def)
    obtain x where x: "file_of (fs_sb fs1) n' = (file_of (fs_sb fs) n)(v \<mapsto> x)" "file_of (fs_sb fs) n v = None \<or> file_of (fs_sb fs) n v = Some x"
      using rc(9) by blast
    have x1: "x = sb_content (fs_sb fs1) b"
      using fun_cong [OF x(1), of v] m(1) by (simp add: file_of_def)
    have lx: "length x = 65536"
      by (rule length_file_of [OF rc(2), of v]) (simp add: x(1))
    have "file_of (fs_sb fs3) n' = (file_of (fs_sb fs1) n')(v \<mapsto> memcpy_at x (unat off) buf)"
    proof
      fix u
      show "file_of (fs_sb fs3) n' u = ((file_of (fs_sb fs1) n')(v \<mapsto> memcpy_at x (unat off) buf)) u"
      proof (cases "node_map n' (vkey u)")
        case (Some a)
        have "a \<noteq> c"
          by (rule places_apart [OF inode_okD(2) [OF rc(2)] Some m(2)])
        moreover have "a = b \<longleftrightarrow> u = v"
          using ran_inj [OF places_okD(1) [OF inode_okD(2) [OF rc(2)]] m(1), of "vkey u"] Some by (auto simp: vkey_inj)
        ultimately show ?thesis
          using Some w(5) d(5) x1 by (simp add: file_of_def)
      qed (use m(1) in \<open>auto simp: file_of_def vkey_inj\<close>)
    qed
    moreover have "file_of (fs_sb fs5) n' = file_of (fs_sb fs3) n'"
    proof -
      have "fs_frame p {} {i_block i} fs3 fs5"
        using fs_frame_trans [OF 4(3) 5(3)] by simp
      then show ?thesis
        by (intro file_of_frame [OF w2 fs_frame_sb]) (use inode_own_tree(5) [OF w2] in auto)
    qed
    ultimately have F: "file_of (fs_sb fs5) n' = (file_of (fs_sb fs) n)(v \<mapsto> memcpy_at x (unat off) buf)"
      using x(1) by simp
    have "fs_frame p N ({n_block n, n_block s, c} \<union> {b} \<union> {c} \<union> {i_block i} \<union> {}) fs fs5"
      using fs_frame_trans [OF fs_frame_trans [OF fs_frame_trans [OF fs_frame_trans [OF rc(7) d(3)] w(3)] 4(3)] 5(3)] by simp
    moreover have "{n_block n, n_block s, c} \<union> {b} \<union> {c} \<union> {i_block i} \<union> {} \<subseteq> iown i n' s'"
      using inode_okD(4,5) [OF assms(1)] m by (auto simp: own_def ran_def)
    ultimately have "fs_frame p N (iown i n' s') fs fs5"
      by (rule fs_frame_mono)
    then show ?thesis
      using written [OF r 5(2) F x(2) lx] rc(3,5,6) 5(5) by simp
  qed
qed


section \<open>Files byte by byte\<close>

definition file_byte :: "(u64 \<rightharpoonup> u8 list) \<Rightarrow> nat \<rightharpoonup> u8" where
  "file_byte F x = map_option (\<lambda>b. b ! (x mod 65536)) (F (of_nat (x div 65536)))"

text \<open>The bytes at \<open>pos\<close> are now \<open>bs\<close>, and no other byte has changed.\<close>

definition file_put :: "(u64 \<rightharpoonup> u8 list) \<Rightarrow> nat \<Rightarrow> u8 list \<Rightarrow> (u64 \<rightharpoonup> u8 list) \<Rightarrow> bool" where
  "file_put F pos bs F' \<longleftrightarrow> (\<forall>k < length bs. file_byte F' (pos + k) = Some (bs ! k))
     \<and> (\<forall>x < 2 ^ 64. \<not> (pos \<le> x \<and> x < pos + length bs) \<and> file_byte F x \<noteq> None \<longrightarrow> file_byte F' x = file_byte F x)"

lemma file_put_refl [simp]: "file_put F pos [] F"
  by (simp add: file_put_def)

lemma file_put_trans:
  assumes "file_put F pos bs F'" "file_put F' (pos + length bs) cs F''" "pos + length bs + length cs \<le> 2 ^ 64"
  shows "file_put F pos (bs @ cs) F''"
  unfolding file_put_def
proof (intro conjI allI impI)
  fix k
  assume k: "k < length (bs @ cs)"
  show "file_byte F'' (pos + k) = Some ((bs @ cs) ! k)"
  proof (cases "k < length bs")
    case True
    then have "file_byte F' (pos + k) = Some (bs ! k)"
      using assms(1) by (simp add: file_put_def)
    moreover have "pos + k < 2 ^ 64" "\<not> (pos + length bs \<le> pos + k \<and> pos + k < pos + length bs + length cs)"
      using True assms(3) by simp_all
    ultimately show ?thesis
      using assms(2) True unfolding file_put_def by (simp add: nth_append)
  next
    case False
    then have "k - length bs < length cs"
      using k by simp
    then have "file_byte F'' (pos + length bs + (k - length bs)) = Some (cs ! (k - length bs))"
      using assms(2) unfolding file_put_def by blast
    then show ?thesis
      using False by (simp add: nth_append)
  qed
next
  fix x :: nat
  assume x: "x < 2 ^ 64" "\<not> (pos \<le> x \<and> x < pos + length (bs @ cs)) \<and> file_byte F x \<noteq> None"
  then have 1: "file_byte F' x = file_byte F x"
    using assms(1) unfolding file_put_def by auto
  then have "file_byte F'' x = file_byte F' x"
    using assms(2) x unfolding file_put_def by auto
  with 1 show "file_byte F'' x = file_byte F x"
    by simp
qed

lemma block_of_pos:
  assumes "off < 65536"
  shows "(unat (v :: u64) * 65536 + off) div 65536 = unat v" "(unat v * 65536 + off) mod 65536 = off"
  using assms by simp_all

lemma file_put_block:
  assumes "F v = None \<or> F v = Some x" "length x = 65536" "off + length bs \<le> 65536"
  shows "file_put F (unat v * 65536 + off) bs (F(v \<mapsto> memcpy_at x off bs))"
  unfolding file_put_def
proof (intro conjI allI impI)
  fix k
  assume k: "k < length bs"
  then have lt: "off + k < 65536"
    using assms(3) by simp
  show "file_byte (F(v \<mapsto> memcpy_at x off bs)) (unat v * 65536 + off + k) = Some (bs ! k)"
    using k assms(2,3) lt block_of_pos [OF lt, of v] by (simp add: file_byte_def nth_memcpy_at add.assoc)
next
  fix y :: nat
  assume y: "y < 2 ^ 64" "\<not> (unat v * 65536 + off \<le> y \<and> y < unat v * 65536 + off + length bs) \<and> file_byte F y \<noteq> None"
  show "file_byte (F(v \<mapsto> memcpy_at x off bs)) y = file_byte F y"
  proof (cases "of_nat (y div 65536) = v")
    case False
    then show ?thesis
      by (simp add: file_byte_def)
  next
    case True
    have "unat (of_nat (y div 65536) :: u64) = y div 65536"
      using y(1) by (simp add: unat_of_nat)
    then have v: "unat v = y div 65536"
      using True by simp
    have "y = unat v * 65536 + y mod 65536"
      unfolding v by simp
    then have out: "\<not> (off \<le> y mod 65536 \<and> y mod 65536 < off + length bs)"
      using y(2) by linarith
    have "F v = Some x"
      using y(2) True assms(1) by (auto simp: file_byte_def)
    then show ?thesis
      using True out assms(2,3) by (auto simp: file_byte_def nth_memcpy_at)
  qed
qed

text \<open>The blocks that a range of bytes meets.\<close>

definition touched :: "nat \<Rightarrow> nat \<Rightarrow> u64 set" where
  "touched pos len = {v. pos < unat v * 65536 + 65536 \<and> unat v * 65536 < pos + len \<and> len \<noteq> 0}"

lemma touched_block:
  assumes "off + len \<le> 65536" "0 < len" "off < 65536"
  shows "touched (unat v * 65536 + off) len = {v}"
proof -
  have "unat w = unat v" if "unat v * 65536 + off < unat w * 65536 + 65536" "unat w * 65536 < unat v * 65536 + off + len" for w :: u64
  proof -
    have "unat v * 65536 < (unat w + 1) * 65536" "unat w * 65536 < (unat v + 1) * 65536"
      using that assms by simp_all
    then show ?thesis
      unfolding mult_less_cancel2 by simp
  qed
  then show ?thesis
    using assms by (auto simp: touched_def word_unat_eq_iff)
qed

lemma touched_empty [simp]: "touched pos 0 = {}"
  by (simp add: touched_def)

lemma touched_append:
  "touched pos (k + l) = touched pos k \<union> touched (pos + k) l"
proof (cases "k = 0 \<or> l = 0")
  case False
  then show ?thesis
    unfolding touched_def by auto
qed auto

lemma touched_mono: "k \<le> l \<Longrightarrow> touched pos k \<subseteq> touched pos l"
  by (auto simp: touched_def)


section \<open>Writing many blocks\<close>

text \<open>A file in memory; it has no checksum blocks without blocks.\<close>

definition file_ok :: "nat \<Rightarrow> nkfs_fs \<Rightarrow> nkfs_inode \<Rightarrow> nkfs_btree_node \<Rightarrow> nkfs_btree_node \<Rightarrow> bool" where
  "file_ok p fs i n s \<longleftrightarrow> inode_ok {} p fs i n s \<and> dom (node_map s) \<subseteq> vkey ` sum_blk ` {v. vkey v \<in> dom (node_map n)}"

lemma file_okD: "file_ok p fs i n s \<Longrightarrow> inode_ok {} p fs i n s"
  by (simp add: file_ok_def)

lemma finite_node_map [simp]: "finite (dom (node_map n))"
  by (simp add: node_map_def finite_dom_map_of)

lemma inode_nr:
  assumes "inode_ok X p fs i n s"
  shows "node_nr n = card (dom (node_map n))" "node_nr s = card (dom (node_map s))"
  using inode_okD(1) [OF assms] by (auto simp: inode_rep_def leaf_at_def node_map_card)

lemma tight_card:
  assumes "dom S \<subseteq> vkey ` sum_blk ` {v. vkey v \<in> dom M}" "finite (dom M)"
  shows "card (dom S) \<le> card (dom M)"
proof -
  let ?V = "{v. vkey v \<in> dom M}"
  have inj: "inj_on vkey ?V"
    by (simp add: inj_on_def vkey_inj)
  have sub: "vkey ` ?V \<subseteq> dom M"
    by blast
  have fin: "finite ?V"
    using finite_imageD [OF finite_subset [OF sub] inj] assms(2) by simp
  have "card (dom S) \<le> card (vkey ` sum_blk ` ?V)"
    using assms fin by (intro card_mono) auto
  also have "\<dots> \<le> card (sum_blk ` ?V)"
    by (intro card_image_le finite_imageI fin)
  also have "\<dots> \<le> card ?V"
    by (intro card_image_le fin)
  also have "\<dots> \<le> card (dom M)"
    using card_inj_on_le [OF inj sub assms(2)] .
  finally show ?thesis .
qed

lemma file_sums_card: "file_ok p fs i n s \<Longrightarrow> card (dom (node_map s)) \<le> card (dom (node_map n))"
  by (rule tight_card) (simp_all add: file_ok_def)

definition grow :: "nat \<Rightarrow> nat \<Rightarrow> nat \<Rightarrow> nat" where
  "grow sz pos len = (if len = 0 then sz else max sz (pos + len))"

text \<open>From one state of a file to the next: the bytes \<open>bs\<close> were written at \<open>pos\<close>.\<close>

definition wrote :: "nat \<Rightarrow> nat \<Rightarrow> u8 list \<Rightarrow> nkfs_fs \<Rightarrow> nkfs_inode \<Rightarrow> nkfs_btree_node \<Rightarrow> nkfs_btree_node \<Rightarrow>
    nkfs_fs \<Rightarrow> nkfs_inode \<Rightarrow> nkfs_btree_node \<Rightarrow> nkfs_btree_node \<Rightarrow> bool" where
  "wrote p pos bs fs i n s fs' i' n' s' \<longleftrightarrow> file_ok p fs' i' n' s' \<and> i' = i\<lparr>i_size := of_nat (grow (unat (i_size i)) pos (length bs))\<rparr>
     \<and> file_put (file_of (fs_sb fs) n) pos bs (file_of (fs_sb fs') n') \<and> dom (node_map n') = dom (node_map n) \<union> vkey ` touched pos (length bs)
     \<and> (\<exists>N. iown i n' s' = iown i n s \<union> N \<and> fs_frame p N (iown i n' s') fs fs') \<and> sb_pins (fs_sb fs') = sb_pins (fs_sb fs)"

lemma iown_size [simp]: "iown (i\<lparr>i_size := z\<rparr>) n s = iown i n s"
  by (simp add: own_def)

lemma wrote_refl: "file_ok p fs i n s \<Longrightarrow> wrote p pos [] fs i n s fs i n s"
  using fs_frame_mono [OF fs_frame_id [OF inode_okD(7) [OF file_okD]], of p fs i n s] by (auto simp: wrote_def grow_def)

lemma wrote_ok: "wrote p pos bs fs i n s fs' i' n' s' \<Longrightarrow> file_ok p fs' i' n' s'"
  and wrote_dom: "wrote p pos bs fs i n s fs' i' n' s' \<Longrightarrow> dom (node_map n') = dom (node_map n) \<union> vkey ` touched pos (length bs)"
  and wrote_put: "wrote p pos bs fs i n s fs' i' n' s' \<Longrightarrow> file_put (file_of (fs_sb fs) n) pos bs (file_of (fs_sb fs') n')"
  and wrote_inode: "wrote p pos bs fs i n s fs' i' n' s' \<Longrightarrow> i' = i\<lparr>i_size := of_nat (grow (unat (i_size i)) pos (length bs))\<rparr>"
  and wrote_pins: "wrote p pos bs fs i n s fs' i' n' s' \<Longrightarrow> sb_pins (fs_sb fs') = sb_pins (fs_sb fs)"
  unfolding wrote_def by blast+

lemma grow_trans: "grow (grow sz pos k) (pos + k) l = grow sz pos (k + l)"
  by (auto simp: grow_def)

lemma wrote_trans:
  assumes "wrote p pos bs fs i n s fs1 i1 n1 s1" "wrote p (pos + length bs) cs fs1 i1 n1 s1 fs2 i2 n2 s2" "pos + length bs + length cs < 2 ^ 64"
  shows "wrote p pos (bs @ cs) fs i n s fs2 i2 n2 s2"
proof -
  have "unat (i_size i) < 2 ^ 64"
    by (rule unat_lt64)
  then have g: "grow (unat (i_size i)) pos (length bs) < 2 ^ 64"
    using assms(3) by (simp add: grow_def)
  have i1: "i1 = i\<lparr>i_size := of_nat (grow (unat (i_size i)) pos (length bs))\<rparr>"
    using assms(1) by (simp add: wrote_def)
  then have "unat (i_size i1) = grow (unat (i_size i)) pos (length bs)"
    using g by (simp add: unat_of_nat)
  then have i2: "i2 = i\<lparr>i_size := of_nat (grow (unat (i_size i)) pos (length bs + length cs))\<rparr>"
    using assms(2) i1 by (simp add: wrote_def grow_trans)
  have put: "file_put (file_of (fs_sb fs) n) pos (bs @ cs) (file_of (fs_sb fs2) n2)"
    by (rule file_put_trans [of _ _ _ "file_of (fs_sb fs1) n1"]) (use assms in \<open>simp_all add: wrote_def\<close>)
  obtain N M where N: "iown i n1 s1 = iown i n s \<union> N" "fs_frame p N (iown i n1 s1) fs fs1"
    and M: "iown i1 n2 s2 = iown i1 n1 s1 \<union> M" "fs_frame p M (iown i1 n2 s2) fs1 fs2"
    using assms(1,2) by (auto simp: wrote_def)
  have o: "iown i1 n2 s2 = iown i n2 s2" "iown i1 n1 s1 = iown i n1 s1"
    unfolding i1 by simp_all
  have "fs_frame p (N \<union> M) (iown i n2 s2) fs fs2"
    by (rule fs_frame_mono [OF fs_frame_trans [OF N(2) M(2)]]) (use M(1) o in auto)
  moreover have "iown i n2 s2 = iown i n s \<union> (N \<union> M)"
    using N(1) M(1) o by auto
  ultimately show ?thesis
    unfolding wrote_def
    using assms(1,2) i2 put by (auto simp: wrote_def touched_append)
qed


lemma write_block:
  assumes "file_ok p fs i n s" "unat v < 2 ^ 48" "unat off < 65536" "unat off + length buf \<le> 65536" "unat v * 65536 + unat off + length buf < 2 ^ 64"
    and "card (dom (node_map n) \<union> vkey ` touched (unat v * 65536 + unat off) (length buf)) \<le> 1791" "buf \<noteq> []"
  obtains (full) fs' where "nkfs_inode_write_block_buf p v off buf fs = Some (io_fail (- ENOSPC), fs')" "card (sb_free (fs_sb fs')) \<le> 1"
      "wrote p (unat v * 65536 + unat off) [] fs i n s fs' i n s"
  | (written) fs' i' n' s' where "nkfs_inode_write_block_buf p v off buf fs = Some (\<lparr>io_err = 0, io_data = [], io_count = of_nat (length buf), io_eof = False\<rparr>, fs')"
      "wrote p (unat v * 65536 + unat off) buf fs i n s fs' i' n' s'"
proof -
  note ok = file_okD [OF assms(1)]
  have t: "touched (unat v * 65536 + unat off) (length buf) = {v}"
    by (rule touched_block) (use assms in simp_all)
  have room: "node_nr n < 1791 \<and> node_nr s < 1791" if "file_of (fs_sb fs) n v = None"
  proof -
    have "vkey v \<notin> dom (node_map n)"
      using that by (auto simp: file_of_none)
    then have "card (dom (node_map n)) < 1791"
      using assms(6) t by simp
    then show ?thesis
      using file_sums_card [OF assms(1)] inode_nr [OF ok] by simp
  qed
  show ?thesis
  proof (cases rule: write_block_buf [OF ok assms(2-5) room])
    case (2 fs')
    have "file_of (fs_sb fs') n = file_of (fs_sb fs) n"
      by (rule file_of_frame [OF ok fs_frame_sb [OF 2(5)]]) simp
    moreover have "fs_frame p {} (iown i n s) fs fs'"
      by (rule fs_frame_mono [OF 2(5)]) simp
    ultimately have "wrote p (unat v * 65536 + unat off) [] fs i n s fs' i n s"
      using 2(4,6) assms(1) by (auto simp: wrote_def file_ok_def grow_def)
    then show ?thesis
      using full 2(1,2) sb_free_frame [OF fs_frame_sb [OF 2(5)]] by simp
  next
    case (3 fs' n' s' N x)
    have "file_put (file_of (fs_sb fs) n) (unat v * 65536 + unat off) buf (file_of (fs_sb fs') n')"
      unfolding 3(3) by (rule file_put_block) (use 3(4,5) assms(4) in simp_all)
    moreover have "{w. vkey w \<in> dom (node_map n')} = insert v {w. vkey w \<in> dom (node_map n)}"
      unfolding 3(6) by (auto simp: vkey_inj)
    then have "dom (node_map s') \<subseteq> vkey ` sum_blk ` {v. vkey v \<in> dom (node_map n')}"
      using assms(1) unfolding 3(7) file_ok_def by auto
    ultimately have "wrote p (unat v * 65536 + unat off) buf fs i n s fs' (i\<lparr>i_size := of_nat (grow (unat (i_size i)) (unat v * 65536 + unat off) (length buf))\<rparr>) n' s'"
      using 3 assms(7) t by (auto simp: wrote_def file_ok_def grow_def)
    then show ?thesis
      using written 3(1) by blast
  qed
qed

lemma io_loop_done:
  "io_rest b = 0 \<Longrightarrow> nkfs_inode_io_loop p v loff b cnt acc fs = Some (\<lparr>io_err = 0, io_data = acc, io_count = cnt, io_eof = False\<rparr>, fs)"
  by (subst nkfs_inode_io_loop.simps) simp

text \<open>What remains of a request within a block.\<close>

lemma loop_llen:
  assumes "unat res + 65536 < 2 ^ 32" "unat loff < 65536"
  shows "unat (if res + loff > (65536 :: u32) then 65536 - loff else res) = min (unat res) (65536 - unat loff)"
proof -
  have s: "unat (res + loff) = unat res + unat loff"
    using assms by (simp add: unat_word_ariths)
  have "unat (65536 - loff) = 65536 - unat loff"
    using unat_sub [of loff 65536] assms(2) by (simp add: word_le_nat_alt)
  then show ?thesis
    using s by (simp add: word_less_nat_alt)
qed

lemma room_mono: "k \<le> l \<Longrightarrow> card (dom (node_map n) \<union> vkey ` touched pos k) \<le> card (dom (node_map n) \<union> vkey ` touched pos l)"
  using touched_mono [of k l pos] by (intro card_mono) auto

lemma unat_next_block: "unat v < 2 ^ 48 \<Longrightarrow> unat (v + 1 :: u64) = unat v + 1"
  by (simp add: unat_word_ariths)

lemma file_write_loop:
  assumes "file_ok p fs i n s" "unat loff < 65536" "unat v * 65536 + unat loff + length buf < 2 ^ 64" "length buf + 65536 < 2 ^ 32"
    and "card (dom (node_map n) \<union> vkey ` touched (unat v * 65536 + unat loff) (length buf)) \<le> 1791"
  shows "\<exists>k fs' i' n' s'. wrote p (unat v * 65536 + unat loff) (take k buf) fs i n s fs' i' n' s' \<and>
    (k = length buf \<and> nkfs_inode_io_loop p v loff (IoWrite buf) cnt acc fs = Some (\<lparr>io_err = 0, io_data = acc, io_count = cnt + of_nat k, io_eof = False\<rparr>, fs')
     \<or> k < length buf \<and> card (sb_free (fs_sb fs')) \<le> 1 \<and>
       nkfs_inode_io_loop p v loff (IoWrite buf) cnt acc fs = Some (\<lparr>io_err = - ENOSPC, io_data = acc, io_count = 0, io_eof = False\<rparr>, fs'))"
  using assms
proof (induction "length buf" arbitrary: v loff buf cnt fs i n s rule: less_induct)
  case less
  show ?case
  proof (cases "buf = []")
    case True
    then show ?thesis
      using wrote_refl [OF less.prems(1)] by (intro exI [of _ 0]) (auto simp: io_loop_done io_rest_def)
  next
    case ne: False
    let ?pos = "unat v * 65536 + unat loff"
    let ?l = "min (length buf) (65536 - unat loff)"
    define llen :: u32 where "llen = (if io_rest (IoWrite buf) + loff > 65536 then 65536 - loff else io_rest (IoWrite buf))"
    have rest: "unat (io_rest (IoWrite buf)) = length buf" "io_rest (IoWrite buf) \<noteq> 0"
      using less.prems(4) ne by (simp_all add: io_rest_def unat_of_nat unat_eq_0 [symmetric])
    have l: "unat llen = ?l"
      using loop_llen [of "io_rest (IoWrite buf)" loff] less.prems(2,4) rest unfolding llen_def by simp
    have v48: "unat v < 2 ^ 48"
      using less.prems(3) by simp
    have bs: "bsize (fs_sb fs) = 65536"
      by (rule inode_okD(10) [OF file_okD [OF less.prems(1)]])
    have tk: "length (take ?l buf) = ?l" "take ?l buf \<noteq> []"
      using less.prems(2) ne by simp_all
    have sub: "card (dom (node_map n) \<union> vkey ` touched ?pos ?l) \<le> 1791"
      by (rule le_trans [OF room_mono less.prems(5)]) simp
    have skip: "io_skip llen (IoWrite buf) = IoWrite (drop ?l buf)"
      by (simp add: io_skip_def l)
    have step: "nkfs_inode_io_loop p v loff (IoWrite buf) cnt acc fs = do {
        (r, fs) \<leftarrow> nkfs_inode_write_block_buf p v loff (take ?l buf) fs;
        if io_err r \<noteq> 0 then Some (\<lparr>io_err = io_err r, io_data = acc, io_count = 0, io_eof = False\<rparr>, fs)
        else if io_eof r then Some (\<lparr>io_err = 0, io_data = acc @ io_data r, io_count = cnt + io_count r, io_eof = True\<rparr>, fs)
        else do {
          assert_that (\<not> llen \<noteq> io_count r);
          nkfs_inode_io_loop p (v + 1) 0 (IoWrite (drop ?l buf)) (cnt + io_count r) (acc @ io_data r) fs
        }
      }"
      by (subst nkfs_inode_io_loop.simps, simp only: rest(2) if_False bs llen_def [symmetric] Let_def, unfold skip) (simp add: io_block_buf_def l)
    have pos: "?pos + ?l \<le> 2 ^ 64" "?pos + length (take ?l buf) < 2 ^ 64"
      using less.prems(3) by simp_all
    have pre: "unat loff + length (take ?l buf) \<le> 65536" "card (dom (node_map n) \<union> vkey ` touched ?pos (length (take ?l buf))) \<le> 1791"
      using less.prems(2) sub tk(1) by simp_all
    show ?thesis
    proof (cases rule: write_block [OF less.prems(1) v48 less.prems(2) pre(1) pos(2) pre(2) tk(2)])
      case full: (1 fs')
      then have "nkfs_inode_io_loop p v loff (IoWrite buf) cnt acc fs = Some (\<lparr>io_err = - ENOSPC, io_data = acc, io_count = 0, io_eof = False\<rparr>, fs')"
        by (simp add: step io_fail_def)
      then show ?thesis
        using full ne by (intro exI [of _ 0]) auto
    next
      case written: (2 fs1 i1 n1 s1)
      have cnt: "of_nat ?l = llen"
        unfolding l [symmetric] by simp
      have call: "nkfs_inode_io_loop p v loff (IoWrite buf) cnt acc fs = nkfs_inode_io_loop p (v + 1) 0 (IoWrite (drop ?l buf)) (cnt + of_nat ?l) acc fs1"
        using written(1) tk(1) cnt by (simp add: step del: length_take)
      show ?thesis
      proof (cases "length buf \<le> 65536 - unat loff")
        case True
        then have "?l = length buf" "drop ?l buf = []" "take ?l buf = buf"
          by simp_all
        then show ?thesis
          using written(2) call by (intro exI [of _ "length buf"]) (auto simp: io_loop_done io_rest_def)
      next
        case False
        then have ll: "?l = 65536 - unat loff"
          by simp
        have next_pos: "unat (v + 1) * 65536 + unat (0 :: u32) = ?pos + ?l"
          using ll less.prems(2) by (simp add: unat_next_block [OF v48])
        have ok1: "file_ok p fs1 i1 n1 s1" "dom (node_map n1) = dom (node_map n) \<union> vkey ` touched ?pos ?l"
          using wrote_ok [OF written(2)] wrote_dom [OF written(2)] tk(1) by simp_all
        have "\<exists>k fs' i' n' s'. wrote p (unat (v + 1) * 65536 + unat (0 :: u32)) (take k (drop ?l buf)) fs1 i1 n1 s1 fs' i' n' s' \<and>
          (k = length (drop ?l buf) \<and> nkfs_inode_io_loop p (v + 1) 0 (IoWrite (drop ?l buf)) (cnt + of_nat ?l) acc fs1
              = Some (\<lparr>io_err = 0, io_data = acc, io_count = cnt + of_nat ?l + of_nat k, io_eof = False\<rparr>, fs')
           \<or> k < length (drop ?l buf) \<and> card (sb_free (fs_sb fs')) \<le> 1 \<and>
             nkfs_inode_io_loop p (v + 1) 0 (IoWrite (drop ?l buf)) (cnt + of_nat ?l) acc fs1 = Some (\<lparr>io_err = - ENOSPC, io_data = acc, io_count = 0, io_eof = False\<rparr>, fs'))"
        proof (rule less.hyps)
          show "length (drop ?l buf) < length buf"
            using ll less.prems(2) ne by simp
          show "unat (v + 1) * 65536 + unat (0 :: u32) + length (drop ?l buf) < 2 ^ 64"
            unfolding next_pos using less.prems(3) by simp
          show "card (dom (node_map n1) \<union> vkey ` touched (unat (v + 1) * 65536 + unat (0 :: u32)) (length (drop ?l buf))) \<le> 1791"
            unfolding next_pos ok1(2) using less.prems(5) touched_append [of ?pos ?l "length buf - ?l"] by (simp add: image_Un Un_assoc)
        qed (use ok1(1) less.prems(4) in simp_all)
        then obtain k fs' i' n' s' where k: "wrote p (?pos + ?l) (take k (drop ?l buf)) fs1 i1 n1 s1 fs' i' n' s'"
          "k = length (drop ?l buf) \<and> nkfs_inode_io_loop p (v + 1) 0 (IoWrite (drop ?l buf)) (cnt + of_nat ?l) acc fs1
              = Some (\<lparr>io_err = 0, io_data = acc, io_count = cnt + of_nat ?l + of_nat k, io_eof = False\<rparr>, fs')
           \<or> k < length (drop ?l buf) \<and> card (sb_free (fs_sb fs')) \<le> 1 \<and>
             nkfs_inode_io_loop p (v + 1) 0 (IoWrite (drop ?l buf)) (cnt + of_nat ?l) acc fs1 = Some (\<lparr>io_err = - ENOSPC, io_data = acc, io_count = 0, io_eof = False\<rparr>, fs')"
          unfolding next_pos by blast
        have "wrote p ?pos (take ?l buf @ take k (drop ?l buf)) fs i n s fs' i' n' s'"
        proof (rule wrote_trans [OF written(2)])
          show "?pos + length (take ?l buf) + length (take k (drop ?l buf)) < 2 ^ 64"
            using less.prems(3) by simp
        qed (use k(1) tk(1) in simp)
        then have w: "wrote p ?pos (take (?l + k) buf) fs i n s fs' i' n' s'"
          by (simp add: take_add)
        show ?thesis
          using w k(2) call by (intro exI [of _ "?l + k"] exI [of _ fs'] exI [of _ i'] exI [of _ n'] exI [of _ s']) (auto simp: add.assoc)
      qed
    qed
  qed
qed


section \<open>Reading many blocks\<close>

definition present :: "(u64 \<rightharpoonup> u8 list) \<Rightarrow> nat \<Rightarrow> nat \<Rightarrow> bool" where
  "present F a b \<longleftrightarrow> (\<forall>x. a \<le> x \<and> x < b \<longrightarrow> file_byte F x \<noteq> None)"

definition file_bytes :: "(u64 \<rightharpoonup> u8 list) \<Rightarrow> nat \<Rightarrow> nat \<Rightarrow> u8 list" where
  "file_bytes F a b = map (\<lambda>x. the (file_byte F x)) [a..<b]"

lemma file_bytes_append: "a \<le> b \<Longrightarrow> b \<le> c \<Longrightarrow> file_bytes F a b @ file_bytes F b c = file_bytes F a c"
  using upt_add_eq_append [of a b "c - b"] by (simp add: file_bytes_def)

lemma present_append: "a \<le> b \<Longrightarrow> b \<le> c \<Longrightarrow> present F a c \<longleftrightarrow> present F a b \<and> present F b c"
  unfolding present_def by (meson le_trans less_le_trans not_le_imp_less order.strict_trans2)

lemma file_bytes_empty [simp]: "b \<le> a \<Longrightarrow> file_bytes F a b = []" "b \<le> a \<Longrightarrow> present F a b"
  by (auto simp: file_bytes_def present_def)

lemma block_bytes:
  assumes "F v = Some x" "length x = 65536" "off + l \<le> 65536"
  shows "file_bytes F (unat v * 65536 + off) (unat v * 65536 + off + l) = take l (drop off x)" "present F (unat v * 65536 + off) (unat v * 65536 + off + l)"
proof -
  have b: "file_byte F (unat v * 65536 + off + k) = Some (x ! (off + k))" if "k < l" for k
    using that assms block_of_pos [of "off + k" v] by (simp add: file_byte_def add.assoc)
  show "file_bytes F (unat v * 65536 + off) (unat v * 65536 + off + l) = take l (drop off x)"
    by (rule nth_equalityI) (use assms b in \<open>simp_all add: file_bytes_def\<close>)
  show "present F (unat v * 65536 + off) (unat v * 65536 + off + l)"
    unfolding present_def
  proof (intro allI impI)
    fix y
    assume y: "unat v * 65536 + off \<le> y \<and> y < unat v * 65536 + off + l"
    then have "y - (unat v * 65536 + off) < l"
      by linarith
    then show "file_byte F y \<noteq> None"
      using b [of "y - (unat v * 65536 + off)"] y by simp
  qed
qed

lemma block_absent: "F v = None \<Longrightarrow> off < 65536 \<Longrightarrow> file_byte F (unat v * 65536 + off) = None"
  using block_of_pos [of off v] by (simp add: file_byte_def)

text \<open>What a read of many blocks returns.\<close>

definition loop_read :: "(u64 \<rightharpoonup> u8 list) \<Rightarrow> nat \<Rightarrow> nat \<Rightarrow> nat \<Rightarrow> u32 \<Rightarrow> u8 list \<Rightarrow> io_result \<Rightarrow> bool" where
  "loop_read F sz pos len cnt acc r \<longleftrightarrow>
     (if len = 0 then r = \<lparr>io_err = 0, io_data = acc, io_count = cnt, io_eof = False\<rparr>
      else if sz < pos then io_err r = - ERANGE
      else if \<not> present F pos (min (pos + len) sz) then io_err r = - ENOENT
      else r = \<lparr>io_err = 0, io_data = acc @ file_bytes F pos (min (pos + len) sz), io_count = cnt + of_nat (min len (sz - pos)), io_eof = sz \<le> pos + len\<rparr>)"

lemma loop_read_step:
  assumes "loop_read F sz (pos + l) (len - l) (cnt + of_nat l) (acc @ file_bytes F pos (pos + l)) r" "present F pos (pos + l)"
    and "pos + l < sz" "0 < l" "l < len"
  shows "loop_read F sz pos len cnt acc r"
proof -
  let ?e = "min (pos + len) sz"
  have e: "min (pos + l + (len - l)) sz = ?e" "pos + l \<le> ?e"
    using assms by simp_all
  have m: "min len (sz - pos) = l + min (len - l) (sz - (pos + l))"
    using assms by simp
  have p: "present F pos ?e \<longleftrightarrow> present F (pos + l) ?e"
    using present_append [of pos "pos + l" ?e F] e assms(2) by simp
  have b: "acc @ file_bytes F pos (pos + l) @ file_bytes F (pos + l) ?e = acc @ file_bytes F pos ?e"
    using file_bytes_append [of pos "pos + l" ?e F] e by simp
  show ?thesis
    using assms(1,3-5) e p b by (simp add: loop_read_def m add.assoc split: if_splits)
qed

lemma file_of_cong: "sb_content sb' = sb_content sb \<Longrightarrow> file_of sb' n = file_of sb n"
  by (simp add: file_of_def)

lemma file_read_loop:
  assumes "inode_ok {} p fs i n s" "unat loff < 65536" "unat v * 65536 + unat loff + unat len < 2 ^ 64" "unat len + 65536 < 2 ^ 32"
  shows "\<exists>r fs'. nkfs_inode_io_loop p v loff (IoRead len) cnt acc fs = Some (r, fs') \<and>
    loop_read (file_of (fs_sb fs) n) (unat (i_size i)) (unat v * 65536 + unat loff) (unat len) cnt acc r \<and>
    inode_ok {} p fs' i n s \<and> fs_frame p {} {} fs fs' \<and> sb_pins (fs_sb fs') = sb_pins (fs_sb fs) \<and> sb_content (fs_sb fs') = sb_content (fs_sb fs)"
  using assms
proof (induction "unat len" arbitrary: v loff len cnt acc fs rule: less_induct)
  case less
  let ?F = "file_of (fs_sb fs) n" and ?sz = "unat (i_size i)"
  show ?case
  proof (cases "len = 0")
    case True
    then show ?thesis
      using less.prems(1) fs_frame_id [OF inode_okD(7) [OF less.prems(1)]] by (auto simp: io_loop_done io_rest_def loop_read_def)
  next
    case ne: False
    let ?pos = "unat v * 65536 + unat loff"
    let ?l = "min (unat len) (65536 - unat loff)"
    define llen where "llen = (if len + loff > 65536 then 65536 - loff else len)"
    have l: "unat llen = ?l"
      using loop_llen [of len loff] less.prems(2,4) unfolding llen_def by simp
    have l0: "0 < ?l"
      using ne less.prems(2) by (simp add: unat_gt_0)
    have v48: "unat v < 2 ^ 48"
      using less.prems(3) by simp
    have bs: "bsize (fs_sb fs) = 65536"
      by (rule inode_okD(10) [OF less.prems(1)])
    have rest: "io_rest (IoRead len) = len"
      by (simp add: io_rest_def)
    have skip: "io_skip llen (IoRead len) = IoRead (len - llen)"
      by (simp add: io_skip_def)
    have step: "nkfs_inode_io_loop p v loff (IoRead len) cnt acc fs = do {
        (r, fs) \<leftarrow> nkfs_inode_read_block_buf p v loff llen fs;
        if io_err r \<noteq> 0 then Some (\<lparr>io_err = io_err r, io_data = acc, io_count = 0, io_eof = False\<rparr>, fs)
        else if io_eof r then Some (\<lparr>io_err = 0, io_data = acc @ io_data r, io_count = cnt + io_count r, io_eof = True\<rparr>, fs)
        else do {
          assert_that (\<not> llen \<noteq> io_count r);
          nkfs_inode_io_loop p (v + 1) 0 (IoRead (len - llen)) (cnt + io_count r) (acc @ io_data r) fs
        }
      }"
      by (subst nkfs_inode_io_loop.simps, simp only: rest ne if_False bs llen_def [symmetric] Let_def, unfold skip) (simp add: io_block_buf_def)
    have pre: "unat loff + unat llen \<le> 65536" "?pos + unat llen < 2 ^ 64"
      using l less.prems(2,3) by simp_all
    obtain fs1 where 1: "nkfs_inode_read_block_buf p v loff llen fs = Some (read_result ?F ?sz v (unat loff) ?l, fs1)"
      "inode_ok {} p fs1 i n s" "fs_frame p {} {} fs fs1" "sb_pins (fs_sb fs1) = sb_pins (fs_sb fs)" "sb_content (fs_sb fs1) = sb_content (fs_sb fs)"
      using read_block_buf [OF less.prems(1) v48 less.prems(2) pre] unfolding l by metis
    have finish: ?thesis if "nkfs_inode_io_loop p v loff (IoRead len) cnt acc fs = Some (r, fs1)" "loop_read ?F ?sz ?pos (unat len) cnt acc r" for r
      using that 1(2-5) by blast
    have len0: "unat len \<noteq> 0"
      using ne by (simp add: unat_eq_zero)
    consider "?sz < ?pos" | "?pos = ?sz" | "?pos < ?sz" "?F v = None" | x where "?pos < ?sz" "?F v = Some x"
      by (cases "?F v") force+
    then show ?thesis
    proof cases
      case 1: 1
      then show ?thesis
        using \<open>nkfs_inode_read_block_buf p v loff llen fs = _\<close> len0
        by (intro finish [of "\<lparr>io_err = - ERANGE, io_data = acc, io_count = 0, io_eof = False\<rparr>"]) (simp_all add: step read_result_def io_fail_def loop_read_def)
    next
      case 2
      then show ?thesis
        using 1(1) len0 by (intro finish [of "\<lparr>io_err = 0, io_data = acc, io_count = cnt, io_eof = True\<rparr>"]) (simp_all add: step read_result_def loop_read_def)
    next
      case 3
      have "\<not> present ?F ?pos (min (?pos + unat len) ?sz)"
        using block_absent [of ?F v "unat loff", OF 3(2) less.prems(2)] 3(1) len0 unfolding present_def by auto
      then show ?thesis
        using 1(1) 3 len0 by (intro finish [of "\<lparr>io_err = - ENOENT, io_data = acc, io_count = 0, io_eof = False\<rparr>"])
          (simp_all add: step read_result_def io_fail_def loop_read_def)
    next
      case (4 x)
      have len_x: "length x = 65536"
        by (rule length_file_of [OF less.prems(1) 4(2)])
      let ?m = "min ?l (?sz - ?pos)"
      have "unat loff + ?m \<le> 65536"
        using less.prems(2) by simp
      note bb = block_bytes [of ?F v, OF 4(2) len_x this]
      have r1: "read_result ?F ?sz v (unat loff) ?l = \<lparr>io_err = 0, io_data = file_bytes ?F ?pos (?pos + ?m), io_count = of_nat ?m, io_eof = ?sz \<le> ?pos + ?l\<rparr>"
        using 4 bb(1) by (simp add: read_result_def Let_def)
      show ?thesis
      proof (cases "?sz \<le> ?pos + ?l")
        case True
        then have e: "?pos + ?m = ?sz" "min (?pos + unat len) ?sz = ?sz" "?sz \<le> ?pos + unat len" "?m = ?sz - ?pos" "min (unat len) (?sz - ?pos) = ?sz - ?pos"
          using 4(1) by simp_all
        then show ?thesis
          using 1(1) True r1 bb(2) 4(1) len0
          by (intro finish [of "\<lparr>io_err = 0, io_data = acc @ file_bytes ?F ?pos ?sz, io_count = cnt + of_nat (?sz - ?pos), io_eof = True\<rparr>"]) (simp_all add: step loop_read_def)
      next
        case False
        then have m: "?m = ?l"
          by simp
        have cnt: "of_nat ?l = llen"
          unfolding l [symmetric] by simp
        have call: "nkfs_inode_io_loop p v loff (IoRead len) cnt acc fs
            = nkfs_inode_io_loop p (v + 1) 0 (IoRead (len - llen)) (cnt + of_nat ?l) (acc @ file_bytes ?F ?pos (?pos + ?l)) fs1"
          using 1(1) r1 False cnt unfolding m by (simp add: step)
        show ?thesis
        proof (cases "?l = unat len")
          case True
          then have "llen = len"
            using l by (simp add: word_unat_eq_iff)
          then show ?thesis
            using call True False bb(2) len0 4(1) unfolding m
            by (intro finish [of "\<lparr>io_err = 0, io_data = acc @ file_bytes ?F ?pos (?pos + unat len), io_count = cnt + of_nat (unat len), io_eof = False\<rparr>"])
              (simp_all add: io_loop_done io_rest_def loop_read_def)
        next
          case lt: False
          then have ll: "?l = 65536 - unat loff" "?l < unat len"
            by simp_all
          have next_pos: "unat (v + 1) * 65536 + unat (0 :: u32) = ?pos + ?l"
            using ll(1) less.prems(2) by (simp add: unat_next_block [OF v48])
          have sub: "unat (len - llen) = unat len - ?l"
            using unat_sub [of llen len] l by (simp add: word_le_nat_alt)
          have "\<exists>r fs'. nkfs_inode_io_loop p (v + 1) 0 (IoRead (len - llen)) (cnt + of_nat ?l) (acc @ file_bytes ?F ?pos (?pos + ?l)) fs1 = Some (r, fs') \<and>
            loop_read (file_of (fs_sb fs1) n) ?sz (unat (v + 1) * 65536 + unat (0 :: u32)) (unat (len - llen)) (cnt + of_nat ?l) (acc @ file_bytes ?F ?pos (?pos + ?l)) r \<and>
            inode_ok {} p fs' i n s \<and> fs_frame p {} {} fs1 fs' \<and> sb_pins (fs_sb fs') = sb_pins (fs_sb fs1) \<and> sb_content (fs_sb fs') = sb_content (fs_sb fs1)"
          proof (rule less.hyps [OF _ 1(2)])
            show "unat (len - llen) < unat len"
              using sub l0 len0 by simp
            show "unat (v + 1) * 65536 + unat (0 :: u32) + unat (len - llen) < 2 ^ 64"
              unfolding next_pos sub using less.prems(3) by simp
          qed (use less.prems(4) sub in simp_all)
          then obtain r fs' where h: "nkfs_inode_io_loop p (v + 1) 0 (IoRead (len - llen)) (cnt + of_nat ?l) (acc @ file_bytes ?F ?pos (?pos + ?l)) fs1 = Some (r, fs')"
            "loop_read ?F ?sz (?pos + ?l) (unat len - ?l) (cnt + of_nat ?l) (acc @ file_bytes ?F ?pos (?pos + ?l)) r"
            "inode_ok {} p fs' i n s" "fs_frame p {} {} fs1 fs'" "sb_pins (fs_sb fs') = sb_pins (fs_sb fs1)" "sb_content (fs_sb fs') = sb_content (fs_sb fs1)"
            unfolding next_pos sub file_of_cong [OF 1(5)] by blast
          have "loop_read ?F ?sz ?pos (unat len) cnt acc r"
            by (rule loop_read_step [OF h(2)]) (use bb(2) [unfolded m] False l0 ll(2) in simp_all)
          moreover have "fs_frame p {} {} fs fs'"
            using fs_frame_trans [OF 1(3) h(4)] by simp
          ultimately show ?thesis
            using call h 1(4,5) by simp
        qed
      qed
    qed
  qed
qed



section \<open>Reading and writing pages\<close>

lemma off_split:
  "unat (nkfs_div off 65536) * 65536 + unat (nkfs_mod off 65536) = unat (off :: u64)" "unat (nkfs_mod off 65536) < 65536"
proof -
  have m: "unat (off mod 65536) < 65536"
    by (simp add: unat_mod)
  then have "unat (nkfs_mod off 65536) = unat off mod 65536"
    by (simp add: nkfs_mod_def do_div_def Let_def unsigned_ucast_eq take_bit_eq_mod unat_mod)
  moreover have "unat (nkfs_div off 65536) = unat off div 65536"
    by (simp add: nkfs_div_def do_div_def Let_def unat_div)
  ultimately show "unat (nkfs_div off 65536) * 65536 + unat (nkfs_mod off 65536) = unat off" "unat (nkfs_mod off 65536) < 65536"
    by simp_all
qed

lemma write_buf:
  assumes "file_ok p fs i n s" "unat off + length buf < 2 ^ 64" "length buf + 65536 < 2 ^ 32"
    and "card (dom (node_map n) \<union> vkey ` touched (unat off) (length buf)) \<le> 1791"
  obtains (written) fs' i' n' s' where "nkfs_inode_io_buf p off (IoWrite buf) fs = Some (\<lparr>io_err = 0, io_data = [], io_count = of_nat (length buf), io_eof = False\<rparr>, fs')"
      "wrote p (unat off) buf fs i n s fs' i' n' s'"
  | (full) k fs' i' n' s' where "nkfs_inode_io_buf p off (IoWrite buf) fs = Some (\<lparr>io_err = - ENOSPC, io_data = [], io_count = 0, io_eof = False\<rparr>, fs')"
      "k < length buf" "card (sb_free (fs_sb fs')) \<le> 1" "wrote p (unat off) (take k buf) fs i n s fs' i' n' s'"
proof -
  have bs: "bsize (fs_sb fs) = 65536"
    by (rule inode_okD(10) [OF file_okD [OF assms(1)]])
  have e: "nkfs_inode_io_buf p off (IoWrite buf) fs = nkfs_inode_io_loop p (nkfs_div off 65536) (nkfs_mod off 65536) (IoWrite buf) 0 [] fs"
    by (simp add: nkfs_inode_io_buf_def bs)
  note w = file_write_loop [OF assms(1) off_split(2), of "nkfs_div off 65536" off buf 0 "[]", unfolded off_split(1), OF assms(2-4)]
  then obtain k fs' i' n' s' where k: "wrote p (unat off) (take k buf) fs i n s fs' i' n' s'"
    "k = length buf \<and> nkfs_inode_io_buf p off (IoWrite buf) fs = Some (\<lparr>io_err = 0, io_data = [], io_count = of_nat k, io_eof = False\<rparr>, fs')
     \<or> k < length buf \<and> card (sb_free (fs_sb fs')) \<le> 1 \<and> nkfs_inode_io_buf p off (IoWrite buf) fs = Some (\<lparr>io_err = - ENOSPC, io_data = [], io_count = 0, io_eof = False\<rparr>, fs')"
    unfolding e by auto
  then show ?thesis
    using written full by auto
qed

lemma read_buf:
  assumes "inode_ok {} p fs i n s" "unat off + unat len < 2 ^ 64" "unat len + 65536 < 2 ^ 32"
  obtains r fs' where "nkfs_inode_io_buf p off (IoRead len) fs = Some (r, fs')" "loop_read (file_of (fs_sb fs) n) (unat (i_size i)) (unat off) (unat len) 0 [] r"
    "inode_ok {} p fs' i n s" "fs_frame p {} {} fs fs'" "sb_pins (fs_sb fs') = sb_pins (fs_sb fs)" "sb_content (fs_sb fs') = sb_content (fs_sb fs)"
proof -
  have bs: "bsize (fs_sb fs) = 65536"
    by (rule inode_okD(10) [OF assms(1)])
  have e: "nkfs_inode_io_buf p off (IoRead len) fs = nkfs_inode_io_loop p (nkfs_div off 65536) (nkfs_mod off 65536) (IoRead len) 0 [] fs"
    by (simp add: nkfs_inode_io_buf_def bs)
  show ?thesis
    using file_read_loop [OF assms(1) off_split(2), of "nkfs_div off 65536" off len 0 "[]", unfolded off_split(1), OF assms(2,3)] that unfolding e by blast
qed


lemma pages_llen:
  assumes "unat len + 65536 < 2 ^ 32" "unat pg_off < 4096"
  shows "unat (if len + pg_off > (of_nat PAGE_SIZE :: u32) then of_nat PAGE_SIZE - pg_off else len) = min (unat len) (4096 - unat pg_off)"
proof -
  have s: "unat (len + pg_off) = unat len + unat pg_off"
    using assms by (simp add: unat_word_ariths)
  have "unat (4096 - pg_off) = 4096 - unat pg_off"
    using unat_sub [of pg_off 4096] assms(2) by (simp add: word_le_nat_alt)
  then show ?thesis
    using s by (simp add: word_less_nat_alt)
qed

lemma pages_piece:
  assumes "pages_wf pages" "j < length pages" "o1 < 4096" "l = min len (4096 - o1)" "j * 4096 + o1 + len \<le> length pages * 4096"
  shows "take len (drop (j * 4096 + o1) (concat pages)) = take l (drop o1 (pages ! j)) @ take (len - l) (drop ((j + 1) * 4096) (concat pages))"
    and "length (take l (drop o1 (pages ! j))) = l"
proof -
  have len: "length (drop o1 (pages ! j)) = 4096 - o1"
    using assms(1,2) by (simp add: pages_wf_def)
  have "drop (j * 4096 + o1) (concat pages) = drop o1 (pages ! j) @ drop ((j + 1) * 4096) (concat pages)"
    using drop_concat_pages [of pages j o1] assms(1-3) by simp
  then show "take len (drop (j * 4096 + o1) (concat pages)) = take l (drop o1 (pages ! j)) @ take (len - l) (drop ((j + 1) * 4096) (concat pages))"
    using assms(4) len by (simp add: min_def)
  show "length (take l (drop o1 (pages ! j))) = l"
    using assms(4) len by simp
qed

lemma off_add: "unat (off :: u64) + unat (l :: u32) < 2 ^ 64 \<Longrightarrow> unat (off + ucast l) = unat off + unat l"
  using unat_lt32 [of l] by (simp add: unat_word_ariths unsigned_ucast_eq take_bit_eq_mod)

lemma pages_loop_done: "nkfs_inode_io_pages_loop p w off pg_off 0 j pages cnt fs = Some ((0, cnt, pages), fs)"
  by (subst nkfs_inode_io_pages_loop.simps) simp

lemma file_pages_write:
  assumes "file_ok p fs i n s" "pages_wf pages" "unat pg_off < 4096" "j * 4096 + unat pg_off + unat len \<le> length pages * 4096"
    and "unat off + unat len < 2 ^ 64" "unat len + 65536 < 2 ^ 32" "card (dom (node_map n) \<union> vkey ` touched (unat off) (unat len)) \<le> 1791"
  shows "\<exists>k fs' i' n' s'. wrote p (unat off) (take k (take (unat len) (drop (j * 4096 + unat pg_off) (concat pages)))) fs i n s fs' i' n' s' \<and>
    (k = unat len \<and> nkfs_inode_io_pages_loop p True off pg_off len j pages cnt fs = Some ((0, cnt + of_nat k, pages), fs')
     \<or> k < unat len \<and> card (sb_free (fs_sb fs')) \<le> 1 \<and> nkfs_inode_io_pages_loop p True off pg_off len j pages cnt fs = Some ((- ENOSPC, 0, pages), fs'))"
  using assms
proof (induction "unat len" arbitrary: off pg_off len j cnt fs i n s rule: less_induct)
  case less
  show ?case
  proof (cases "len = 0")
    case True
    then show ?thesis
      using wrote_refl [OF less.prems(1)] by (intro exI [of _ 0]) (auto simp: pages_loop_done)
  next
    case ne: False
    let ?D = "take (unat len) (drop (j * 4096 + unat pg_off) (concat pages))"
    let ?l = "min (unat len) (4096 - unat pg_off)"
    let ?piece = "take ?l (drop (unat pg_off) (pages ! j))"
    define llen where "llen = (if len + pg_off > of_nat PAGE_SIZE then of_nat PAGE_SIZE - pg_off else len)"
    have l: "unat llen = ?l"
      using pages_llen [of len pg_off] less.prems(3,6) unfolding llen_def by simp
    have len0: "0 < unat len"
      using ne by (simp add: unat_gt_0)
    have j: "j < length pages"
    proof -
      have "j * 4096 < length pages * 4096"
        using less.prems(4) len0 by linarith
      then show ?thesis
        by (simp only: mult_less_cancel2)
    qed
    note pc = pages_piece [OF less.prems(2) j less.prems(3) refl less.prems(4)]
    have buf: "page_buf True (pages ! j) pg_off llen = IoWrite ?piece"
      by (simp add: page_buf_def l)
    have step: "nkfs_inode_io_pages_loop p True off pg_off len j pages cnt fs = do {
        (r, fs) \<leftarrow> nkfs_inode_io_buf p off (IoWrite ?piece) fs;
        let pages = pages[j := memcpy_at (pages ! j) (unat pg_off) (io_data r)];
        if io_err r \<noteq> 0 then Some ((io_err r, 0, pages), fs)
        else if io_eof r then Some ((0, cnt + io_count r, pages), fs)
        else do {
          assert_that (\<not> io_count r \<noteq> llen);
          nkfs_inode_io_pages_loop p True (off + ucast llen) 0 (len - llen) (j + 1) pages (cnt + io_count r) fs
        }
      }"
      by (subst nkfs_inode_io_pages_loop.simps, simp only: ne if_False llen_def [symmetric], unfold buf [symmetric]) (use j in \<open>simp add: Let_def\<close>)
    have same: "pages[j := memcpy_at (pages ! j) (unat pg_off) []] = pages"
      by simp
    have dl: "length ?D = unat len"
      using less.prems(2,4) by (simp add: length_concat_pages)
    have pre: "unat off + length ?piece < 2 ^ 64" "length ?piece + 65536 < 2 ^ 32" "card (dom (node_map n) \<union> vkey ` touched (unat off) (length ?piece)) \<le> 1791"
      unfolding pc(2) using less.prems(5,6) le_trans [OF room_mono less.prems(7), of ?l] by simp_all
    show ?thesis
    proof (cases rule: write_buf [OF less.prems(1) pre])
      case w: (2 k fs' i' n' s')
      have "take k ?D = take k ?piece"
        using w(2) unfolding pc(1) by simp
      moreover have "k < unat len"
        using w(2) pc(2) by simp
      moreover have "nkfs_inode_io_pages_loop p True off pg_off len j pages cnt fs = Some ((- ENOSPC, 0, pages), fs')"
        using w(1) by (simp add: step)
      ultimately show ?thesis
        using w(3,4) by (intro exI [of _ k]) auto
    next
      case w: (1 fs1 i1 n1 s1)
      have c0: "of_nat ?l = llen"
        unfolding l [symmetric] by simp
      have cnt: "of_nat (length ?piece) = llen"
        by (simp only: pc(2) c0)
      have call: "nkfs_inode_io_pages_loop p True off pg_off len j pages cnt fs
          = nkfs_inode_io_pages_loop p True (off + ucast llen) 0 (len - llen) (j + 1) pages (cnt + of_nat ?l) fs1"
        using w(1) c0 unfolding step by (simp add: cnt del: length_take)
      show ?thesis
      proof (cases "?l = unat len")
        case True
        then have "llen = len"
          using l by (simp add: word_unat_eq_iff)
        moreover have "?D = ?piece"
          unfolding pc(1) True by simp
        ultimately show ?thesis
          using w(2) call True by (intro exI [of _ "unat len"]) (auto simp: pages_loop_done)
      next
        case lt: False
        then have ll: "?l = 4096 - unat pg_off" "?l < unat len"
          by simp_all
        have sub: "unat (len - llen) = unat len - ?l"
          using unat_sub [of llen len] l by (simp add: word_le_nat_alt)
        have off': "unat (off + ucast llen) = unat off + ?l"
          using off_add [of off llen] less.prems(5) l by simp
        have at': "(j + 1) * 4096 + unat (0 :: u32) = j * 4096 + unat pg_off + ?l"
          using ll(1) less.prems(3) by simp
        let ?D' = "take (unat len - ?l) (drop ((j + 1) * 4096) (concat pages))"
        have ok1: "file_ok p fs1 i1 n1 s1" "dom (node_map n1) = dom (node_map n) \<union> vkey ` touched (unat off) ?l"
          using wrote_ok [OF w(2)] wrote_dom [OF w(2)] pc(2) by simp_all
        have "\<exists>k fs' i' n' s'. wrote p (unat (off + ucast llen)) (take k (take (unat (len - llen)) (drop ((j + 1) * 4096 + unat (0 :: u32)) (concat pages)))) fs1 i1 n1 s1 fs' i' n' s' \<and>
          (k = unat (len - llen) \<and> nkfs_inode_io_pages_loop p True (off + ucast llen) 0 (len - llen) (j + 1) pages (cnt + of_nat ?l) fs1 = Some ((0, cnt + of_nat ?l + of_nat k, pages), fs')
           \<or> k < unat (len - llen) \<and> card (sb_free (fs_sb fs')) \<le> 1 \<and>
             nkfs_inode_io_pages_loop p True (off + ucast llen) 0 (len - llen) (j + 1) pages (cnt + of_nat ?l) fs1 = Some ((- ENOSPC, 0, pages), fs'))"
        proof (rule less.hyps [OF _ ok1(1) less.prems(2)])
          show "unat (len - llen) < unat len"
            using sub ll less.prems(3) len0 by simp
          show "(j + 1) * 4096 + unat (0 :: u32) + unat (len - llen) \<le> length pages * 4096"
            unfolding at' sub using less.prems(4) ll(2) by simp
          show "unat (off + ucast llen) + unat (len - llen) < 2 ^ 64"
            unfolding off' sub using less.prems(5) ll(2) by simp
          show "card (dom (node_map n1) \<union> vkey ` touched (unat (off + ucast llen)) (unat (len - llen))) \<le> 1791"
            unfolding off' sub ok1(2) using less.prems(7) touched_append [of "unat off" ?l "unat len - ?l"] by (simp add: image_Un Un_assoc)
        qed (use less.prems(6) sub in simp_all)
        then obtain k fs' i' n' s' where k: "wrote p (unat off + ?l) (take k ?D') fs1 i1 n1 s1 fs' i' n' s'"
          "k = unat len - ?l \<and> nkfs_inode_io_pages_loop p True (off + ucast llen) 0 (len - llen) (j + 1) pages (cnt + of_nat ?l) fs1 = Some ((0, cnt + of_nat ?l + of_nat k, pages), fs')
           \<or> k < unat len - ?l \<and> card (sb_free (fs_sb fs')) \<le> 1 \<and>
             nkfs_inode_io_pages_loop p True (off + ucast llen) 0 (len - llen) (j + 1) pages (cnt + of_nat ?l) fs1 = Some ((- ENOSPC, 0, pages), fs')"
          unfolding off' sub by auto
        have tk: "take (?l + k) ?D = ?piece @ take k ?D'"
          unfolding pc(1) using pc(2) by simp
        have "wrote p (unat off) (?piece @ take k ?D') fs i n s fs' i' n' s'"
        proof (rule wrote_trans [OF w(2)])
          show "wrote p (unat off + length ?piece) (take k ?D') fs1 i1 n1 s1 fs' i' n' s'"
            using k(1) unfolding pc(2) .
          show "unat off + length ?piece + length (take k ?D') < 2 ^ 64"
          proof -
            have "length (take k ?D') \<le> unat len - ?l"
              by simp
            then show ?thesis
              unfolding pc(2) using less.prems(5) ll(2) by linarith
          qed
        qed
        then have wr: "wrote p (unat off) (take (?l + k) ?D) fs i n s fs' i' n' s'"
          unfolding tk .
        show ?thesis
          using wr k(2) call ll(2) by (intro exI [of _ "?l + k"] exI [of _ fs'] exI [of _ i'] exI [of _ n'] exI [of _ s']) (auto simp: add.assoc)
      qed
    qed
  qed
qed


definition pages_read :: "(u64 \<rightharpoonup> u8 list) \<Rightarrow> nat \<Rightarrow> nat \<Rightarrow> nat \<Rightarrow> u32 \<Rightarrow> nat \<Rightarrow> u8 list list \<Rightarrow> int \<times> u32 \<times> u8 list list \<Rightarrow> bool" where
  "pages_read F sz pos len cnt a0 pages r \<longleftrightarrow> (case r of (err, c, pages') \<Rightarrow>
     if len = 0 then err = 0 \<and> c = cnt \<and> pages' = pages
     else if sz < pos then err = - ERANGE
     else if \<not> present F pos (min (pos + len) sz) then err = - ENOENT
     else err = 0 \<and> c = cnt + of_nat (min len (sz - pos)) \<and> pages_wf pages' \<and> length pages' = length pages
       \<and> concat pages' = memcpy_at (concat pages) a0 (file_bytes F pos (min (pos + len) sz)))"

lemma length_file_bytes [simp]: "length (file_bytes F a b) = b - a"
  by (simp add: file_bytes_def)

lemma pages_read_step:
  assumes "pages_read F sz (pos + l) (len - l) (cnt + of_nat l) (a0 + l) pages1 r" "present F pos (pos + l)"
    and "concat pages1 = memcpy_at (concat pages) a0 (file_bytes F pos (pos + l))" "length pages1 = length pages"
    and "pos + l < sz" "0 < l" "l < len" "a0 + len \<le> length (concat pages)"
  shows "pages_read F sz pos len cnt a0 pages r"
proof -
  let ?e = "min (pos + len) sz"
  have e: "min (pos + l + (len - l)) sz = ?e" "pos + l \<le> ?e"
    using assms by simp_all
  have m: "min len (sz - pos) = l + min (len - l) (sz - (pos + l))"
    using assms by simp
  have p: "present F pos ?e \<longleftrightarrow> present F (pos + l) ?e"
    using present_append [of pos "pos + l" ?e F] e assms(2) by simp
  have b: "file_bytes F pos (pos + l) @ file_bytes F (pos + l) ?e = file_bytes F pos ?e"
    using file_bytes_append [of pos "pos + l" ?e F] e by simp
  have "memcpy_at (concat pages) a0 (file_bytes F pos ?e) = memcpy_at (concat pages1) (a0 + l) (file_bytes F (pos + l) ?e)"
    unfolding b [symmetric] assms(3) using memcpy_at_split [of a0 "file_bytes F pos (pos + l)" "concat pages" "file_bytes F (pos + l) ?e"] assms(7,8) by simp
  then show ?thesis
    using assms(1,4-7) e p by (auto simp: pages_read_def m add.assoc split: if_splits prod.splits)
qed

lemma file_pages_read:
  assumes "inode_ok {} p fs i n s" "pages_wf pages" "unat pg_off < 4096" "j * 4096 + unat pg_off + unat len \<le> length pages * 4096"
    and "unat off + unat len < 2 ^ 64" "unat len + 65536 < 2 ^ 32"
  shows "\<exists>r fs'. nkfs_inode_io_pages_loop p False off pg_off len j pages cnt fs = Some (r, fs') \<and>
    pages_read (file_of (fs_sb fs) n) (unat (i_size i)) (unat off) (unat len) cnt (j * 4096 + unat pg_off) pages r \<and>
    inode_ok {} p fs' i n s \<and> fs_frame p {} {} fs fs' \<and> sb_pins (fs_sb fs') = sb_pins (fs_sb fs) \<and> sb_content (fs_sb fs') = sb_content (fs_sb fs)"
  using assms
proof (induction "unat len" arbitrary: off pg_off len j cnt pages fs rule: less_induct)
  case less
  let ?F = "file_of (fs_sb fs) n" and ?sz = "unat (i_size i)" and ?pos = "unat off"
  show ?case
  proof (cases "len = 0")
    case True
    then show ?thesis
      using less.prems(1) fs_frame_id [OF inode_okD(7) [OF less.prems(1)]] by (auto simp: pages_loop_done pages_read_def)
  next
    case ne: False
    let ?l = "min (unat len) (4096 - unat pg_off)"
    let ?a = "j * 4096 + unat pg_off"
    define llen where "llen = (if len + pg_off > of_nat PAGE_SIZE then of_nat PAGE_SIZE - pg_off else len)"
    have l: "unat llen = ?l"
      using pages_llen [of len pg_off] less.prems(3,6) unfolding llen_def by simp
    have len0: "0 < unat len"
      using ne by (simp add: unat_gt_0)
    then have l0: "?l \<noteq> 0"
      using less.prems(3) by simp
    have j: "j < length pages"
    proof -
      have "j * 4096 < length pages * 4096"
        using less.prems(4) len0 by linarith
      then show ?thesis
        by (simp only: mult_less_cancel2)
    qed
    have buf: "page_buf False (pages ! j) pg_off llen = IoRead llen"
      by (simp add: page_buf_def)
    have step: "nkfs_inode_io_pages_loop p False off pg_off len j pages cnt fs = do {
        (r, fs) \<leftarrow> nkfs_inode_io_buf p off (IoRead llen) fs;
        let pages = pages[j := memcpy_at (pages ! j) (unat pg_off) (io_data r)];
        if io_err r \<noteq> 0 then Some ((io_err r, 0, pages), fs)
        else if io_eof r then Some ((0, cnt + io_count r, pages), fs)
        else do {
          assert_that (\<not> io_count r \<noteq> llen);
          nkfs_inode_io_pages_loop p False (off + ucast llen) 0 (len - llen) (j + 1) pages (cnt + io_count r) fs
        }
      }"
      by (subst nkfs_inode_io_pages_loop.simps, simp only: ne if_False llen_def [symmetric], unfold buf [symmetric]) (use j in \<open>simp add: Let_def\<close>)
    have pre: "?pos + unat llen < 2 ^ 64" "unat llen + 65536 < 2 ^ 32"
      unfolding l using less.prems(5,6) by simp_all
    obtain r1 fs1 where 1: "nkfs_inode_io_buf p off (IoRead llen) fs = Some (r1, fs1)" "loop_read ?F ?sz ?pos ?l 0 [] r1"
      "inode_ok {} p fs1 i n s" "fs_frame p {} {} fs fs1" "sb_pins (fs_sb fs1) = sb_pins (fs_sb fs)" "sb_content (fs_sb fs1) = sb_content (fs_sb fs)"
      using read_buf [OF less.prems(1) pre] unfolding l by blast
    have finish: ?thesis if "nkfs_inode_io_pages_loop p False off pg_off len j pages cnt fs = Some (r, fs1)" "pages_read ?F ?sz ?pos (unat len) cnt ?a pages r" for r
      using that 1(3-6) by blast
    consider "?sz < ?pos" | "?pos \<le> ?sz" "\<not> present ?F ?pos (min (?pos + ?l) ?sz)" | "?pos \<le> ?sz" "present ?F ?pos (min (?pos + ?l) ?sz)"
      by linarith
    then show ?thesis
    proof cases
      case a: 1
      then have "io_err r1 = - ERANGE"
        using 1(2) l0 by (simp add: loop_read_def)
      then show ?thesis
        using 1(1) a len0 by (intro finish [of "(- ERANGE, 0, pages[j := memcpy_at (pages ! j) (unat pg_off) (io_data r1)])"]) (simp_all add: step pages_read_def)
    next
      case a: 2
      then have "io_err r1 = - ENOENT"
        using 1(2) l0 by (simp add: loop_read_def)
      moreover have "\<not> present ?F ?pos (min (?pos + unat len) ?sz)"
        using a(2) unfolding present_def by auto
      ultimately show ?thesis
        using 1(1) a(1) len0 by (intro finish [of "(- ENOENT, 0, pages[j := memcpy_at (pages ! j) (unat pg_off) (io_data r1)])"]) (simp_all add: step pages_read_def)
    next
      case a: 3
      let ?bs = "file_bytes ?F ?pos (min (?pos + ?l) ?sz)"
      let ?pages = "pages[j := memcpy_at (pages ! j) (unat pg_off) ?bs]"
      have r1: "r1 = \<lparr>io_err = 0, io_data = ?bs, io_count = of_nat (min ?l (?sz - ?pos)), io_eof = ?sz \<le> ?pos + ?l\<rparr>"
        using 1(2) l0 a by (simp add: loop_read_def)
      have fit: "unat pg_off + length ?bs \<le> PAGE_SIZE"
        using less.prems(3) by simp
      note up = pages_wf_update [OF less.prems(2) j fit] concat_update_page [OF less.prems(2) j fit]
      show ?thesis
      proof (cases "?sz \<le> ?pos + ?l")
        case True
        then have e: "min (?pos + ?l) ?sz = ?sz" "min (?pos + unat len) ?sz = ?sz" "min ?l (?sz - ?pos) = ?sz - ?pos" "min (unat len) (?sz - ?pos) = ?sz - ?pos"
          by simp_all
        have "nkfs_inode_io_pages_loop p False off pg_off len j pages cnt fs = Some ((0, cnt + of_nat (?sz - ?pos), ?pages), fs1)"
          using 1(1) True unfolding step r1 e(3) by simp
        then show ?thesis
          using a up len0 e by (intro finish [of "(0, cnt + of_nat (?sz - ?pos), ?pages)"]) (simp_all add: pages_read_def)
      next
        case False
        then have e: "min (?pos + ?l) ?sz = ?pos + ?l" "min ?l (?sz - ?pos) = ?l"
          by simp_all
        have cnt: "of_nat ?l = llen"
          unfolding l [symmetric] by simp
        have call: "nkfs_inode_io_pages_loop p False off pg_off len j pages cnt fs
            = nkfs_inode_io_pages_loop p False (off + ucast llen) 0 (len - llen) (j + 1) ?pages (cnt + of_nat ?l) fs1"
          using 1(1) False cnt unfolding step r1 e(2) by simp
        show ?thesis
        proof (cases "?l = unat len")
          case True
          then have "llen = len"
            using l by (simp add: word_unat_eq_iff)
          moreover have "min (?pos + unat len) ?sz = ?pos + unat len" "min (unat len) (?sz - ?pos) = unat len"
            using False unfolding True by simp_all
          ultimately show ?thesis
            using call a up len0 e True
            by (intro finish [of "(0, cnt + of_nat (unat len), ?pages)"]) (simp_all add: pages_loop_done pages_read_def)
        next
          case lt: False
          then have ll: "?l = 4096 - unat pg_off" "?l < unat len"
            by simp_all
          have sub: "unat (len - llen) = unat len - ?l"
            using unat_sub [of llen len] l by (simp add: word_le_nat_alt)
          have off': "unat (off + ucast llen) = ?pos + ?l"
            using off_add [of off llen] less.prems(5) l by simp
          have at': "(j + 1) * 4096 + unat (0 :: u32) = ?a + ?l"
            using ll(1) less.prems(3) by simp
          have "\<exists>r fs'. nkfs_inode_io_pages_loop p False (off + ucast llen) 0 (len - llen) (j + 1) ?pages (cnt + of_nat ?l) fs1 = Some (r, fs') \<and>
            pages_read (file_of (fs_sb fs1) n) ?sz (unat (off + ucast llen)) (unat (len - llen)) (cnt + of_nat ?l) ((j + 1) * 4096 + unat (0 :: u32)) ?pages r \<and>
            inode_ok {} p fs' i n s \<and> fs_frame p {} {} fs1 fs' \<and> sb_pins (fs_sb fs') = sb_pins (fs_sb fs1) \<and> sb_content (fs_sb fs') = sb_content (fs_sb fs1)"
          proof (rule less.hyps [OF _ 1(3) up(1)])
            show "unat (len - llen) < unat len"
              using sub ll less.prems(3) len0 by simp
            show "(j + 1) * 4096 + unat (0 :: u32) + unat (len - llen) \<le> length ?pages * 4096"
              unfolding at' sub using less.prems(4) ll(2) by simp
            show "unat (off + ucast llen) + unat (len - llen) < 2 ^ 64"
              unfolding off' sub using less.prems(5) ll(2) by simp
          qed (use less.prems(6) sub in simp_all)
          then obtain r fs' where h: "nkfs_inode_io_pages_loop p False (off + ucast llen) 0 (len - llen) (j + 1) ?pages (cnt + of_nat ?l) fs1 = Some (r, fs')"
            "pages_read ?F ?sz (?pos + ?l) (unat len - ?l) (cnt + of_nat ?l) (?a + ?l) ?pages r"
            "inode_ok {} p fs' i n s" "fs_frame p {} {} fs1 fs'" "sb_pins (fs_sb fs') = sb_pins (fs_sb fs1)" "sb_content (fs_sb fs') = sb_content (fs_sb fs1)"
            unfolding off' sub at' file_of_cong [OF 1(6)] by blast
          have "pages_read ?F ?sz ?pos (unat len) cnt ?a pages r"
          proof (rule pages_read_step [OF h(2)])
            show "present ?F ?pos (?pos + ?l)"
              using a(2) unfolding e(1) .
            show "concat ?pages = memcpy_at (concat pages) ?a (file_bytes ?F ?pos (?pos + ?l))"
              using up(2) unfolding e(1) by simp
            show "?a + unat len \<le> length (concat pages)"
              using less.prems(2,4) by (simp add: length_concat_pages)
          qed (use False l0 ll(2) in simp_all)
          moreover have "fs_frame p {} {} fs fs'"
            using fs_frame_trans [OF 1(4) h(4)] by simp
          ultimately show ?thesis
            using call h 1(5,6) by simp
        qed
      qed
    qed
  qed
qed


end
