(* ===== verification/Inode_Life.thy ===== *)
theory Inode_Life
  imports Inode_Io
begin

text \<open>
  Files at rest and the life of an inode: a file on disk that no inode in memory stands for (stored), loading it (nkfs_inode_read),
  dropping the last reference (nkfs_inode_deref) and creating an empty file (nkfs_inode_create).
\<close>

section \<open>Files on disk\<close>

type_synonym bmap = "nkfs_btree_key \<rightharpoonup> u64"

text \<open>A file that is not in memory: its inode's image, its two trees and its blocks.\<close>

definition stored :: "nkfs_sb \<Rightarrow> nkfs_inode \<Rightarrow> bmap \<Rightarrow> bmap \<Rightarrow> bool" where
  "stored sb i M S \<longleftrightarrow> places_ok sb i M S \<and> sums_ok {} (sb_content sb) M S \<and> leaf_block sb (i_blocks_tree_block i) M \<and> leaf_block sb (i_blocks_sum_tree_block i) S
     \<and> take 56 (sb_content sb (i_block i)) = inode_disk_bytes (nkfs_inode_to_on_disk i) \<and> dom S \<subseteq> vkey ` sum_blk ` {v. vkey v \<in> dom M}"

lemma file_ok_stored:
  assumes "file_ok p fs i n s"
  shows "stored (fs_sb fs) i (node_map n) (node_map s)"
proof -
  note ok = inode_okD [OF file_okD [OF assms]]
  obtain i' t ts a b where r: "leaf_at a n (t\<lparr>bt_sb := fs_sb fs\<rparr>)" "leaf_at b s (ts\<lparr>bt_sb := fs_sb fs\<rparr>)"
    using ok(1) by (auto simp: inode_rep_def)
  show ?thesis
    using leaf_at_block [OF r(1)] leaf_at_block [OF r(2)] ok assms by (simp add: stored_def file_ok_def)
qed

lemma leaf_block_frame:
  assumes "leaf_block sb b m" "nr_blocks sb' = nr_blocks sb" "sb_content sb' b = sb_content sb b"
  shows "leaf_block sb' b m"
  using assms unfolding leaf_block_def by metis

lemma stored_frame:
  assumes "stored sb i M S" "sb_frame N B sb sb'" "B \<inter> own i M S = {}"
  shows "stored sb' i M S"
proof -
  have p: "places_ok sb i M S"
    using assms(1) by (simp add: stored_def)
  have c: "sb_content sb' b = sb_content sb b" if "b \<in> own i M S" for b
    by (rule sb_frame_content [OF assms(2)]) (use places_okD(4) [OF p] assms(3) that in auto)
  have "sums_ok {} (sb_content sb') M S"
    by (rule sums_cong [of _ "sb_content sb"]) (use assms(1) c in \<open>auto simp: stored_def own_def\<close>)
  moreover have "sb_content sb' (i_block i) = sb_content sb (i_block i)" "sb_content sb' (i_blocks_tree_block i) = sb_content sb (i_blocks_tree_block i)"
    "sb_content sb' (i_blocks_sum_tree_block i) = sb_content sb (i_blocks_sum_tree_block i)"
    by (rule c, simp add: own_def)+
  ultimately show ?thesis
    using assms(1) places_frame [OF p assms(2)] leaf_block_frame [of sb _ _ sb'] sb_frame_fields(2) [OF assms(2)] by (simp add: stored_def)
qed

section \<open>References to inodes\<close>

lemma inode_free_ok:
  assumes "file_ok p fs i n s"
  shows "nkfs_inode_free p fs = Some (fs\<lparr>fs_heap := (fs_heap fs)(p := None)\<rparr>)"
proof -
  obtain i' t ts a b where r: "fs_heap fs p = Some i'" "i_blocks_tree i' = Some t" "leaf_at a n (t\<lparr>bt_sb := fs_sb fs\<rparr>)"
    "i_blocks_sum_tree i' = Some ts" "leaf_at b s (ts\<lparr>bt_sb := fs_sb fs\<rparr>)"
    using inode_okD(1) [OF file_okD [OF assms]] by (auto simp: inode_rep_def)
  show ?thesis
    using r leaf_deref [OF r(3)] leaf_deref [OF r(5)] by (simp add: nkfs_inode_free_def fs_tree_deref_def)
qed

lemma places_ref [simp]: "places_ok sb (i\<lparr>i_ref := r\<rparr>) M S = places_ok sb i M S" "own (i\<lparr>i_ref := r\<rparr>) M S = own i M S"
  "nkfs_inode_to_on_disk (i\<lparr>i_ref := r\<rparr>) = nkfs_inode_to_on_disk i"
  by (simp_all add: places_ok_def own_def nkfs_inode_to_on_disk_def Let_def)

text \<open>The last reference to an inode is dropped.\<close>

lemma inode_last_deref:
  assumes "file_ok p fs i n s" "i_ref i = 1" "RBT.lookup (fs_inodes fs) (i_block i) = Some p"
  obtains fs' where "nkfs_inode_deref p fs = Some fs'" "fs_sb fs' = fs_sb fs" "RBT.lookup (fs_inodes fs') = (RBT.lookup (fs_inodes fs))(i_block i := None)"
    "inodes_active fs' = inodes_active fs - 1" "inodes_tree fs' = inodes_tree fs"
proof -
  obtain i' where i': "fs_heap fs p = Some i'" "bare i' = i"
    using inode_ok_heap [OF file_okD [OF assms(1)]] by blast
  have ib: "i_block i' = i_block i" "i_ref i' = 1"
    using i'(2) assms(2) by auto
  let ?fs1 = "put_inode p (i'\<lparr>i_ref := 0\<rparr>) fs"
  let ?fs2 = "?fs1\<lparr>fs_inodes := RBT.delete (i_block i) (fs_inodes fs), inodes_active := inodes_active fs - 1\<rparr>"
  have "file_ok p ?fs1 (i\<lparr>i_ref := 0\<rparr>) n s"
  proof -
    have b: "bare (i'\<lparr>i_ref := 0\<rparr>) = i\<lparr>i_ref := 0\<rparr>"
      using i'(2) by (auto simp: bare_def)
    have "inode_rep p ?fs1 (i\<lparr>i_ref := 0\<rparr>) n s"
      using inode_okD(1) [OF file_okD [OF assms(1)]] i'(1) b unfolding inode_rep_def by auto
    then show ?thesis
      using assms(1) by (simp add: file_ok_def inode_ok_def)
  qed
  then have "file_ok p ?fs2 (i\<lparr>i_ref := 0\<rparr>) n s"
    by (simp add: file_ok_def inode_ok_def inode_rep_def)
  note f = inode_free_ok [OF this]
  have "nkfs_inode_deref p fs = Some (?fs2\<lparr>fs_heap := (fs_heap ?fs2)(p := None)\<rparr>)"
    using i'(1) ib assms(3) f by (simp add: nkfs_inode_deref_def nkfs_inode_release_def nkfs_inodes_remove_def)
  then show ?thesis
    by (rule that) simp_all
qed


section \<open>Loading an inode\<close>

definition mem_inode :: "nkfs_inode \<Rightarrow> nkfs_inode" where
  "mem_inode i = \<lparr>i_sig1 = NKFS_INODE_SIG1, i_ref = 1, i_ino = i_ino i, i_block = i_block i, i_size = i_size i, i_blocks_tree_block = i_blocks_tree_block i,
     i_blocks_sum_tree_block = i_blocks_sum_tree_block i, i_blocks_tree = None, i_blocks_sum_tree = None, i_dirty = False, i_sig2 = NKFS_INODE_SIG2\<rparr>"

lemma mem_inode_simps [simp]: "i_block (mem_inode i) = i_block i" "i_size (mem_inode i) = i_size i" "i_ino (mem_inode i) = i_ino i" "i_ref (mem_inode i) = 1"
  "own (mem_inode i) M S = own i M S" "places_ok sb (mem_inode i) M S = places_ok sb i M S" "nkfs_inode_to_on_disk (mem_inode i) = nkfs_inode_to_on_disk i"
  "i_blocks_tree_block (mem_inode i) = i_blocks_tree_block i" "i_blocks_sum_tree_block (mem_inode i) = i_blocks_sum_tree_block i" "\<not> i_dirty (mem_inode i)"
  by (simp_all add: mem_inode_def own_def places_ok_def nkfs_inode_to_on_disk_def Let_def)

lemma leaf_load:
  assumes "sb_sane sb" "leaf_block sb b m" "card (dom m) \<le> 1024"
  obtains t n sb' where "nkfs_btree_create sb b = Some (Some t, sb')" "leaf_at 0 n (t\<lparr>bt_sb := sb'\<rparr>)" "node_map n = m" "n_block n = b" "sb_frame {} {} sb sb'" "dio_abs (ddev sb') = dio_abs (ddev sb)"
proof -
  have "wpo (nkfs_btree_create sb b) (\<lambda>(r, sb'). \<exists>t n. r = Some t \<and> leaf_at 0 n (t\<lparr>bt_sb := sb'\<rparr>) \<and> node_map n = m \<and> n_block n = b \<and> sb_frame {} {} sb sb' \<and> dio_abs (ddev sb') = dio_abs (ddev sb))"
  proof (rule wp_leaf_load [OF sb_sane_dev_ok [OF assms(1)] assms(2,3)])
    fix t n
    assume t: "leaf_at 0 n t" "node_map n = m" "n_block n = b" "bt_sb t = sb\<lparr>ddev := bt_dev t\<rparr>" "dio_good 65536 (bt_dev t)" "dio_abs (bt_dev t) = dio_abs (ddev sb)"
    have "sb_frame {} {} sb (sb\<lparr>ddev := bt_dev t\<rparr>)"
      by (rule sb_frame_dev [OF assms(1) t(5)]) (simp_all add: t(6))
    then have "sb_frame {} {} sb (bt_sb t)"
      using t(4) by simp
    then show "case (Some t, bt_sb t) of (r, sb') \<Rightarrow> \<exists>t n. r = Some t \<and> leaf_at 0 n (t\<lparr>bt_sb := sb'\<rparr>) \<and> node_map n = m \<and> n_block n = b \<and> sb_frame {} {} sb sb' \<and> dio_abs (ddev sb') = dio_abs (ddev sb)"
      using t(1,2,3,6) by (auto simp: bt_dev_def)
  qed
  then show ?thesis
    using that by (auto simp: wpo_def)
qed

lemma leaf_at_frame:
  assumes "leaf_at a n (t\<lparr>bt_sb := sb\<rparr>)" "sb_frame N B sb sb'" "data_block sb (n_block n)" "n_block n \<notin> B"
  shows "leaf_at a n (t\<lparr>bt_sb := sb'\<rparr>)"
  by (rule leaf_at_sb [OF assms(1) sb_sane_dev_ok [OF sb_frame_sane [OF assms(2)]] sb_frame_fields(2) [OF assms(2)] sb_frame_content [OF assms(2-4)]])

lemma stored_sums_card: "stored sb i M S \<Longrightarrow> finite (dom M) \<Longrightarrow> card (dom S) \<le> card (dom M)"
  by (rule tight_card) (simp_all add: stored_def)

lemma stored_finite:
  assumes "stored sb i M S"
  shows "finite (dom M)" "finite (dom S)"
proof -
  obtain n s where "node_map n = M" "node_map s = S"
    using assms by (auto simp: stored_def leaf_block_def)
  then show "finite (dom M)" "finite (dom S)"
    by auto
qed

lemma inode_trees_load:
  assumes "sb_sane (fs_sb fs)" "stored (fs_sb fs) i M S" "card (dom M) \<le> 1024" "fs_heap fs p = Some j" "bare j = mem_inode i"
  obtains fs' n s where "inode_trees p (i_blocks_tree_block i) (i_blocks_sum_tree_block i) fs = Some (True, fs')" "file_ok p fs' (mem_inode i) n s" "node_map n = M" "node_map s = S"
    "fs_frame p {} {} fs fs'" "dio_abs (ddev (fs_sb fs')) = dio_abs (ddev (fs_sb fs))"
proof -
  have st: "places_ok (fs_sb fs) i M S" "leaf_block (fs_sb fs) (i_blocks_tree_block i) M" "leaf_block (fs_sb fs) (i_blocks_sum_tree_block i) S"
    using assms(2) by (simp_all add: stored_def)
  note d = places_okD(4) [OF st(1)]
  have dt: "data_block (fs_sb fs) (i_blocks_tree_block i)" "data_block (fs_sb fs) (i_blocks_sum_tree_block i)"
    using d by (simp_all add: own_def)
  obtain t n sb1 where 1: "nkfs_btree_create (fs_sb fs) (i_blocks_tree_block i) = Some (Some t, sb1)" "leaf_at 0 n (t\<lparr>bt_sb := sb1\<rparr>)" "node_map n = M"
    "n_block n = i_blocks_tree_block i" "sb_frame {} {} (fs_sb fs) sb1" "dio_abs (ddev sb1) = dio_abs (ddev (fs_sb fs))"
    by (rule leaf_load [OF assms(1) st(2) assms(3)])
  have lb: "leaf_block sb1 (i_blocks_sum_tree_block i) S"
    by (rule leaf_block_frame [OF st(3) sb_frame_fields(2) [OF 1(5)]]) (simp add: 1(6))
  have cS: "card (dom S) \<le> 1024"
    using stored_sums_card [OF assms(2) stored_finite(1) [OF assms(2)]] assms(3) by simp
  obtain u s sb2 where 2: "nkfs_btree_create sb1 (i_blocks_sum_tree_block i) = Some (Some u, sb2)" "leaf_at 0 s (u\<lparr>bt_sb := sb2\<rparr>)" "node_map s = S"
    "n_block s = i_blocks_sum_tree_block i" "sb_frame {} {} sb1 sb2" "dio_abs (ddev sb2) = dio_abs (ddev sb1)"
    by (rule leaf_load [OF sb_frame_sane [OF 1(5)] lb cS])
  have f: "sb_frame {} {} (fs_sb fs) sb2"
    using sb_frame_trans [OF 1(5) 2(5)] by simp
  have dn: "data_block sb1 (n_block n)"
    using data_block_frame [OF 1(5) dt(1)] 1(4) by simp
  have ln: "leaf_at 0 n (t\<lparr>bt_sb := sb2\<rparr>)"
    by (rule leaf_at_frame [OF 1(2) 2(5) dn]) simp
  let ?j = "j\<lparr>i_blocks_tree := Some t, i_blocks_sum_tree := Some u\<rparr>"
  let ?fs = "put_inode p ?j (fs\<lparr>fs_sb := sb2\<rparr>)"
  have r: "inode_trees p (i_blocks_tree_block i) (i_blocks_sum_tree_block i) fs = Some (True, ?fs)"
    using 1(1) 2(1) assms(4) by (simp add: inode_trees_def on_fsb_def put_inode_def)
  have "stored sb2 i M S"
    by (rule stored_frame [OF assms(2) f]) simp
  moreover have "inode_rep p ?fs (mem_inode i) n s"
    unfolding inode_rep_def
    using sb_frame_sane [OF f] data_block_frame [OF f dt(1)] data_block_frame [OF f dt(2)] places_okD(8) [OF st(1)] 1(4) 2(4) ln 2(2) assms(5)
    by (auto simp: bare_def)
  ultimately have "file_ok p ?fs (mem_inode i) n s"
    using 1(3,4) 2(3,4) by (simp add: file_ok_def inode_ok_def stored_def)
  then show ?thesis
    by (rule that [OF r]) (use 1 2 fs_frame_put [OF f] in simp_all)
qed


lemma clu_get_ok:
  assumes "sb_sane sb" "data_block sb b"
  obtains dev where "dio_clu_get (ddev sb) b = Some (True, dev)" "dio_good 65536 dev" "content (dio_abs dev) = sb_content sb" "pins (dio_abs dev) = pin_add b (sb_pins sb)"
    "sb_frame {} {} sb (sb\<lparr>ddev := dev\<rparr>)"
proof -
  have "wpo (dio_clu_get (ddev sb) b) (\<lambda>(ok, dev). ok \<and> dio_good 65536 dev \<and> content (dio_abs dev) = sb_content sb \<and> pins (dio_abs dev) = pin_add b (sb_pins sb))"
    by (rule wp_dio_clu_get [OF sb_sane_good [OF assms(1)] data_block_index [OF assms]]) (simp add: pin_add_def)
  then obtain dev where d: "dio_clu_get (ddev sb) b = Some (True, dev)" "dio_good 65536 dev" "content (dio_abs dev) = sb_content sb" "pins (dio_abs dev) = pin_add b (sb_pins sb)"
    by (auto simp: wpo_def)
  have "sb_frame {} {} sb (sb\<lparr>ddev := dev\<rparr>)"
    by (rule sb_frame_dev [OF assms(1) d(2)]) (simp_all add: d(3))
  then show ?thesis
    by (rule that [OF d])
qed

lemma clu_put_ok:
  assumes "sb_sane sb" "sb_pins sb = pin_add b f"
  obtains dev where "dio_clu_put (ddev sb) b = Some dev" "dio_good 65536 dev" "content (dio_abs dev) = sb_content sb" "pins (dio_abs dev) = f" "sb_frame {} {} sb (sb\<lparr>ddev := dev\<rparr>)"
proof -
  have "wpo (dio_clu_put (ddev sb) b) (\<lambda>dev. dio_good 65536 dev \<and> content (dio_abs dev) = sb_content sb \<and> pins (dio_abs dev) = f)"
    by (rule wp_dio_clu_put [OF sb_sane_good [OF assms(1)]]) (use assms(2) in \<open>simp_all add: pin_add_def\<close>)
  then obtain dev where d: "dio_clu_put (ddev sb) b = Some dev" "dio_good 65536 dev" "content (dio_abs dev) = sb_content sb" "pins (dio_abs dev) = f"
    by (auto simp: wpo_def)
  have "sb_frame {} {} sb (sb\<lparr>ddev := dev\<rparr>)"
    by (rule sb_frame_dev [OF assms(1) d(2)]) (simp_all add: d(3))
  then show ?thesis
    by (rule that [OF d])
qed

lemma clu_read_ok:
  assumes "sb_sane sb" "0 < sb_pins sb b" "off + len \<le> 65536"
  obtains dev where "dio_clu_read (ddev sb) b len off = Some ((0, take len (drop off (sb_content sb b))), dev)" "dio_good 65536 dev" "dio_abs dev = dio_abs (ddev sb)"
    "sb_frame {} {} sb (sb\<lparr>ddev := dev\<rparr>)"
proof -
  have "wpo (dio_clu_read (ddev sb) b len off) (\<lambda>(r, dev). r = (0, take len (drop off (sb_content sb b))) \<and> dio_good 65536 dev \<and> dio_abs dev = dio_abs (ddev sb))"
    by (rule wp_dio_clu_read [OF sb_sane_good [OF assms(1)] assms(2,3)]) simp
  then obtain dev where d: "dio_clu_read (ddev sb) b len off = Some ((0, take len (drop off (sb_content sb b))), dev)" "dio_good 65536 dev" "dio_abs dev = dio_abs (ddev sb)"
    by (auto simp: wpo_def)
  have "sb_frame {} {} sb (sb\<lparr>ddev := dev\<rparr>)"
    by (rule sb_frame_dev [OF assms(1) d(2)]) (simp_all add: d(3))
  then show ?thesis
    by (rule that [OF d])
qed

lemma on_fdev_eq: "f (ddev (fs_sb fs)) = Some (r, dev) \<Longrightarrow> on_fdev f fs = Some (r, fs_dev dev fs)"
  by (simp add: on_fdev_def on_fsb_def on_dev_def fs_dev_def)

lemma fs_put_eq: "dio_clu_put (ddev (fs_sb fs)) b = Some dev \<Longrightarrow> fs_clu_put b fs = Some (fs_dev dev fs)"
  by (simp add: fs_clu_put_def sb_clu_put_def fs_dev_def)

lemma sane_mem: "sb_sane (fs_sb fs) \<Longrightarrow> fs_mem fs = (True, fs)"
  by (rule fs_mem_ok [OF sb_sane_good])

text \<open>A new inode is entered, and the second reference is dropped.\<close>

lemma inode_enter:
  assumes "file_ok p fs i n s" "i_ref i = 1" "RBT.lookup (fs_inodes fs) (i_block i) = None"
  obtains fs1 fs' where "nkfs_inodes_insert p fs = Some (p, fs1)" "nkfs_inode_deref p fs1 = Some fs'" "file_ok p fs' i n s" "fs_sb fs' = fs_sb fs"
    "RBT.lookup (fs_inodes fs') = (RBT.lookup (fs_inodes fs))(i_block i \<mapsto> p)" "inodes_active fs' = inodes_active fs + 1" "inodes_tree fs' = inodes_tree fs"
proof -
  obtain i' where i': "fs_heap fs p = Some i'" "bare i' = i"
    using inode_ok_heap [OF file_okD [OF assms(1)]] by blast
  have ib: "i_block i' = i_block i" "i_ref i' = 1"
    using i'(2) assms(2) by auto
  let ?fs0 = "fs\<lparr>fs_inodes := RBT.insert (i_block i) p (fs_inodes fs), inodes_active := inodes_active fs + 1\<rparr>"
  have a: "nkfs_inodes_insert p fs = Some (p, put_inode p (i'\<lparr>i_ref := 2\<rparr>) ?fs0)"
    using i'(1) ib assms(3) by (simp add: nkfs_inodes_insert_def nkfs_inode_ref_def)
  have "put_inode p i' ?fs0 = ?fs0"
    using i'(1) by (simp add: put_inode_def map_upd_triv)
  then have b: "nkfs_inode_deref p (put_inode p (i'\<lparr>i_ref := 2\<rparr>) ?fs0) = Some ?fs0"
    using ib by (simp add: nkfs_inode_deref_def) (metis nkfs_inode.fold_congs(2) nkfs_inode.surjective nkfs_inode.update_convs(2))
  have "file_ok p ?fs0 i n s"
    using assms(1) by (simp add: file_ok_def inode_ok_def inode_rep_def)
  then show ?thesis
    by (rule that [OF a b]) simp_all
qed


lemma inode_alloc_ok:
  assumes "sb_sane (fs_sb fs)"
  shows "nkfs_inode_alloc fs = (Some (fs_next fs), put_inode (fs_next fs)
        \<lparr>i_sig1 = 0, i_ref = 1, i_ino = nkfs_obj_id_zero, i_block = 0, i_size = 0, i_blocks_tree_block = 0,
         i_blocks_sum_tree_block = 0, i_blocks_tree = None, i_blocks_sum_tree = None, i_dirty = False, i_sig2 = 0\<rparr> (fs\<lparr>fs_next := Suc (fs_next fs)\<rparr>))"
  by (simp add: nkfs_inode_alloc_def sane_mem [OF assms] put_inode_def)

lemma inode_load_ok:
  assumes "sb_sane (fs_sb fs)" "stored (fs_sb fs) i M S" "card (dom M) \<le> 1024" "0 < sb_pins (fs_sb fs) (i_block i)"
    and "fs_heap fs p = Some \<lparr>i_sig1 = 0, i_ref = 1, i_ino = nkfs_obj_id_zero, i_block = i_block i, i_size = 0, i_blocks_tree_block = 0,
         i_blocks_sum_tree_block = 0, i_blocks_tree = None, i_blocks_sum_tree = None, i_dirty = False, i_sig2 = 0\<rparr>"
  obtains fs' n s where "inode_load p (i_block i) fs = Some (True, fs')" "file_ok p fs' (mem_inode i) n s" "node_map n = M" "node_map s = S"
    "fs_frame p {} {} fs fs'" "dio_abs (ddev (fs_sb fs')) = dio_abs (ddev (fs_sb fs))"
proof -
  let ?b = "i_block i"
  obtain dev where d: "dio_clu_read (ddev (fs_sb fs)) ?b 56 0 = Some ((0, take 56 (drop 0 (sb_content (fs_sb fs) ?b))), dev)" "dio_good 65536 dev"
    "dio_abs dev = dio_abs (ddev (fs_sb fs))" "sb_frame {} {} (fs_sb fs) ((fs_sb fs)\<lparr>ddev := dev\<rparr>)"
    by (rule clu_read_ok [OF assms(1,4), of 0 56]) simp_all
  have img: "take 56 (sb_content (fs_sb fs) ?b) = inode_disk_bytes (nkfs_inode_to_on_disk i)"
    using assms(2) by (simp add: stored_def)
  let ?fs1 = "fs_dev dev fs"
  let ?j0 = "\<lparr>i_sig1 = 0, i_ref = 1, i_ino = nkfs_obj_id_zero, i_block = ?b, i_size = 0, i_blocks_tree_block = 0,
         i_blocks_sum_tree_block = 0, i_blocks_tree = None, i_blocks_sum_tree = None, i_dirty = False, i_sig2 = 0\<rparr> :: nkfs_inode"
  have ps: "nkfs_inode_parse_on_disk ?j0 (inode_disk_of_bytes (take 56 (sb_content (fs_sb fs) ?b))) = (0, mem_inode i)"
    unfolding img inode_codec by (simp add: mem_inode_def)
  let ?fs2 = "put_inode p (mem_inode i) ?fs1"
  have st: "stored (fs_sb ?fs2) i M S"
    using stored_frame [OF assms(2) d(4)] by simp
  obtain fs' n s where t: "inode_trees p (i_blocks_tree_block i) (i_blocks_sum_tree_block i) ?fs2 = Some (True, fs')" "file_ok p fs' (mem_inode i) n s" "node_map n = M" "node_map s = S"
    "fs_frame p {} {} ?fs2 fs'" "dio_abs (ddev (fs_sb fs')) = dio_abs (ddev (fs_sb ?fs2))"
    by (rule inode_trees_load [of ?fs2 i M S p "mem_inode i"]) (use st assms(3) sb_frame_sane [OF d(4)] in \<open>simp_all add: bare_def mem_inode_def\<close>)
  have "inode_load p ?b fs = Some (True, fs')"
    using on_fdev_eq [of "\<lambda>dev. dio_clu_read dev ?b 56 0", OF d(1)] assms(5) ps t(1) by (simp add: inode_load_def)
  moreover have "fs_frame p {} {} fs ?fs2"
    using d(4) by (simp add: fs_frame_def)
  then have "fs_frame p {} {} fs fs'"
    using fs_frame_trans [OF _ t(5)] by fastforce
  ultimately show ?thesis
    using that t d(3) by simp
qed

lemma pin_add_pins: "pins (dio_abs dev) = pin_add b f \<Longrightarrow> 0 < pins (dio_abs dev) b"
  by simp

lemma inode_read_miss:
  assumes "sb_sane (fs_sb fs)" "stored (fs_sb fs) i M S" "card (dom M) \<le> 1024" "RBT.lookup (fs_inodes fs) (i_block i) = None"
  obtains p fs' n s where "nkfs_inode_read fs (i_block i) = Some (Some p, fs')" "file_ok p fs' (mem_inode i) n s" "node_map n = M" "node_map s = S"
    "sb_frame {} {} (fs_sb fs) (fs_sb fs')" "sb_content (fs_sb fs') = sb_content (fs_sb fs)" "sb_pins (fs_sb fs') = sb_pins (fs_sb fs)"
    "RBT.lookup (fs_inodes fs') = (RBT.lookup (fs_inodes fs))(i_block i \<mapsto> p)" "inodes_active fs' = inodes_active fs + 1" "inodes_tree fs' = inodes_tree fs"
proof -
  let ?b = "i_block i" and ?p = "fs_next fs"
  let ?j0 = "\<lparr>i_sig1 = 0, i_ref = 1, i_ino = nkfs_obj_id_zero, i_block = ?b, i_size = 0, i_blocks_tree_block = 0,
         i_blocks_sum_tree_block = 0, i_blocks_tree = None, i_blocks_sum_tree = None, i_dirty = False, i_sig2 = 0\<rparr> :: nkfs_inode"
  let ?fs1 = "put_inode ?p ?j0 (fs\<lparr>fs_next := Suc ?p\<rparr>)"
  have d: "data_block (fs_sb fs) ?b"
    using assms(2) places_okD(4) [of "fs_sb fs" i M S] by (simp add: stored_def own_def)
  obtain dev where g: "dio_clu_get (ddev (fs_sb fs)) ?b = Some (True, dev)" "dio_good 65536 dev" "content (dio_abs dev) = sb_content (fs_sb fs)"
    "pins (dio_abs dev) = pin_add ?b (sb_pins (fs_sb fs))" "sb_frame {} {} (fs_sb fs) ((fs_sb fs)\<lparr>ddev := dev\<rparr>)"
    by (rule clu_get_ok [OF assms(1) d])
  let ?fs2 = "fs_dev dev ?fs1"
  have s2: "sb_sane (fs_sb ?fs2)" "stored (fs_sb ?fs2) i M S"
    using sb_frame_sane [OF g(5)] stored_frame [OF assms(2) g(5)] by simp_all
  obtain fs3 n s where 3: "inode_load ?p ?b ?fs2 = Some (True, fs3)" "file_ok ?p fs3 (mem_inode i) n s" "node_map n = M" "node_map s = S"
    "fs_frame ?p {} {} ?fs2 fs3" "dio_abs (ddev (fs_sb fs3)) = dio_abs (ddev (fs_sb ?fs2))"
    by (rule inode_load_ok [OF s2 assms(3), of ?p]) (use g(4) in simp_all)
  have in3: "fs_inodes fs3 = fs_inodes fs" "inodes_active fs3 = inodes_active fs" "inodes_tree fs3 = inodes_tree fs"
    using 3(5) by (simp_all add: fs_frame_def)
  obtain fs4 fs5 where 5: "nkfs_inodes_insert ?p fs3 = Some (?p, fs4)" "nkfs_inode_deref ?p fs4 = Some fs5" "file_ok ?p fs5 (mem_inode i) n s" "fs_sb fs5 = fs_sb fs3"
    "RBT.lookup (fs_inodes fs5) = (RBT.lookup (fs_inodes fs3))(i_block (mem_inode i) \<mapsto> ?p)" "inodes_active fs5 = inodes_active fs3 + 1" "inodes_tree fs5 = inodes_tree fs3"
    by (rule inode_enter [OF 3(2)]) (use assms(4) in3 in simp_all)
  have f3: "sb_frame {} {} (fs_sb fs) (fs_sb fs3)"
    using sb_frame_trans [OF g(5)] fs_frame_sb [OF 3(5)] by fastforce
  have p5: "sb_pins (fs_sb fs5) = pin_add ?b (sb_pins (fs_sb fs))"
    using 5(4) 3(6) g(4) by simp
  obtain dev6 where 6: "dio_clu_put (ddev (fs_sb fs5)) ?b = Some dev6" "dio_good 65536 dev6" "content (dio_abs dev6) = sb_content (fs_sb fs5)" "pins (dio_abs dev6) = sb_pins (fs_sb fs)"
    "sb_frame {} {} (fs_sb fs5) ((fs_sb fs5)\<lparr>ddev := dev6\<rparr>)"
    by (rule clu_put_ok [OF _ p5]) (use 5(4) sb_frame_sane [OF f3] in simp)
  have ok6: "file_ok ?p (fs_dev dev6 fs5) (mem_inode i) n s"
    using inode_ok_dev [OF file_okD [OF 5(3)] 6(2,3)] 5(3) by (simp add: file_ok_def)
  have mem: "fs_mem ?fs2 = (True, ?fs2)"
    by (rule sane_mem [OF s2(1)])
  have get: "on_fdev (\<lambda>dev. dio_clu_get dev ?b) ?fs1 = Some (True, ?fs2)"
    by (rule on_fdev_eq) (use g(1) in simp)
  have "nkfs_inode_read fs ?b = Some (Some ?p, fs_dev dev6 fs5)"
    using assms(4) inode_alloc_ok [OF assms(1)] get mem 3(1) 5(1,2) fs_put_eq [OF 6(1)]
    by (simp add: nkfs_inode_read_def nkfs_inodes_lookup_def)
  moreover have "sb_frame {} {} (fs_sb fs) (fs_sb (fs_dev dev6 fs5))"
    using sb_frame_trans [OF f3] 6(5) 5(4) by fastforce
  moreover have "sb_content (fs_sb (fs_dev dev6 fs5)) = sb_content (fs_sb fs)"
    using 6(3) 5(4) 3(6) g(3) by simp
  ultimately show ?thesis
    using that [OF _ ok6] 3(3,4) 6(4) 5 in3 by simp
qed


section \<open>Creating an inode\<close>

lemma leaf_create:
  assumes "sb_sane sb" "sb_free sb \<noteq> {}"
  obtains a t n sb' where "nkfs_btree_create sb 0 = Some (Some t, sb')" "leaf_at a n (t\<lparr>bt_sb := sb'\<rparr>)" "node_map n = Map.empty" "n_block n \<in> sb_free sb"
    "sb_frame {n_block n} {n_block n} sb sb'" "sb_pins sb' = sb_pins sb" "nkfs_btree_root_block t = Some (n_block n)"
proof -
  have ok: "sb_tree_ok sb"
  proof -
    obtain b where "b < nr_blocks sb" "\<not> bm_used sb (unat b)"
      using assms(2) by (auto simp: sb_free_def)
    then show ?thesis
      using assms(1) by (auto simp: sb_tree_ok_def sb_sane_def word_less_nat_alt)
  qed
  have "wpo (nkfs_btree_create sb 0) (\<lambda>(r, sb'). \<exists>a t n. r = Some t \<and> leaf_at a n (t\<lparr>bt_sb := sb'\<rparr>) \<and> node_map n = Map.empty \<and> n_block n \<in> sb_free sb \<and>
    sb_frame {n_block n} {n_block n} sb sb' \<and> sb_pins sb' = sb_pins sb \<and> nkfs_btree_root_block t = Some (n_block n))"
  proof (rule wp_leaf_create [OF ok])
    fix t a n sb1
    assume t: "leaf_at a n t" "node_map n = Map.empty" "n_block n < nr_blocks sb" "\<not> bm_used sb (unat (n_block n))" "bm_changed sb (unat (n_block n)) True sb1"
      "pins (dio_abs (ddev sb1)) = sb_pins sb" "sb_frame_block sb1 (n_block n) (bt_sb t)"
    have f1: "sb_frame {n_block n} {} sb sb1"
      by (rule sb_frame_changed [OF assms(1) t(5,3,4)])
    have f2: "sb_frame {} {n_block n} sb1 (bt_sb t)"
      by (rule sb_frame_of_block [OF sb_frame_sane [OF f1] t(7) data_block_new [OF assms(1) f1]]) simp
    have "sb_frame {n_block n} {n_block n} sb (bt_sb t)"
      using sb_frame_trans [OF f1 f2] by simp
    moreover have "n_block n \<in> sb_free sb"
      using t(3,4) by (simp add: sb_free_def)
    moreover have "sb_pins (bt_sb t) = sb_pins sb"
      using t(6,7) by (simp add: sb_frame_block_def)
    moreover have "nkfs_btree_root_block t = Some (n_block n)"
      using t(1) by (simp add: leaf_at_def nkfs_btree_root_block_def)
    ultimately show "case (Some t, bt_sb t) of (r, sb') \<Rightarrow> \<exists>a t n. r = Some t \<and> leaf_at a n (t\<lparr>bt_sb := sb'\<rparr>) \<and> node_map n = Map.empty \<and> n_block n \<in> sb_free sb \<and>
      sb_frame {n_block n} {n_block n} sb sb' \<and> sb_pins sb' = sb_pins sb \<and> nkfs_btree_root_block t = Some (n_block n)"
      using t(1,2) by auto
  qed
  then show ?thesis
    using that by (auto simp: wpo_def)
qed

text \<open>The two trees of a new inode and its block.\<close>

lemma inode_fill_ok:
  assumes "sb_sane (fs_sb fs)" "2 \<le> card (sb_free (fs_sb fs))" "fs_heap fs p = Some j" "data_block (fs_sb fs) (i_block j)" "\<not> i_dirty j"
    "i_blocks_tree j = None" "i_blocks_sum_tree j = None"
  obtains fs' n s where "inode_fill p fs = Some (True, fs')" "file_ok p fs' (j\<lparr>i_blocks_tree_block := n_block n, i_blocks_sum_tree_block := n_block s\<rparr>) n s"
    "node_map n = Map.empty" "node_map s = Map.empty" "n_block n \<in> sb_free (fs_sb fs)" "n_block s \<in> sb_free (fs_sb fs)"
    "fs_frame p {n_block n, n_block s} {n_block n, n_block s, i_block j} fs fs'" "sb_pins (fs_sb fs') = sb_pins (fs_sb fs)"
proof -
  have ne: "sb_free (fs_sb fs) \<noteq> {}"
    using assms(2) by auto
  obtain a t n sb1 where 1: "nkfs_btree_create (fs_sb fs) 0 = Some (Some t, sb1)" "leaf_at a n (t\<lparr>bt_sb := sb1\<rparr>)" "node_map n = Map.empty" "n_block n \<in> sb_free (fs_sb fs)"
    "sb_frame {n_block n} {n_block n} (fs_sb fs) sb1" "sb_pins sb1 = sb_pins (fs_sb fs)" "nkfs_btree_root_block t = Some (n_block n)"
    by (rule leaf_create [OF assms(1) ne])
  have sub1: "sb_free sb1 = sb_free (fs_sb fs) - {n_block n}"
    by (rule sb_free_frame [OF 1(5)])
  have "\<not> sb_free (fs_sb fs) \<subseteq> {n_block n}"
    using card_mono [of "{n_block n}" "sb_free (fs_sb fs)"] assms(2) by auto
  then have ne1: "sb_free sb1 \<noteq> {}"
    unfolding sub1 by blast
  obtain b u s sb2 where 2: "nkfs_btree_create sb1 0 = Some (Some u, sb2)" "leaf_at b s (u\<lparr>bt_sb := sb2\<rparr>)" "node_map s = Map.empty" "n_block s \<in> sb_free sb1"
    "sb_frame {n_block s} {n_block s} sb1 sb2" "sb_pins sb2 = sb_pins sb1" "nkfs_btree_root_block u = Some (n_block s)"
    by (rule leaf_create [OF sb_frame_sane [OF 1(5)] ne1])
  have dn: "data_block sb1 (n_block n)"
    by (rule data_block_new [OF assms(1) 1(5)]) simp
  have ds: "data_block sb2 (n_block s)"
    by (rule data_block_new [OF sb_frame_sane [OF 1(5)] 2(5)]) simp
  have ns: "n_block n \<noteq> n_block s" "n_block s \<in> sb_free (fs_sb fs)"
    using 2(4) [unfolded sub1] by auto
  have f2: "sb_frame {n_block n, n_block s} {n_block n, n_block s} (fs_sb fs) sb2"
    using sb_frame_trans [OF 1(5) 2(5)] by (simp add: insert_commute)
  have ln: "leaf_at a n (t\<lparr>bt_sb := sb2\<rparr>)"
    by (rule leaf_at_frame [OF 1(2) 2(5) dn]) (use ns in simp)
  have dn2: "data_block sb2 (n_block n)"
    by (rule data_block_frame [OF 2(5) dn])
  let ?j = "j\<lparr>i_blocks_tree := Some t, i_blocks_sum_tree := Some u, i_blocks_tree_block := n_block n, i_blocks_sum_tree_block := n_block s\<rparr>"
  let ?i = "j\<lparr>i_blocks_tree_block := n_block n, i_blocks_sum_tree_block := n_block s\<rparr>"
  let ?fs2 = "put_inode p ?j (fs\<lparr>fs_sb := sb2\<rparr>)"
  have bi: "bare ?j = ?i"
    using assms(6,7) by (simp add: bare_def)
  have dj: "data_block sb2 (i_block j)" "i_block j \<notin> sb_free (fs_sb fs)"
    using data_block_frame [OF f2 assms(4)] data_block_not_free [OF assms(4)] by simp_all
  obtain dev where 3: "nkfs_inode_write p ?fs2 = Some (0, fs_dev dev ?fs2)" "dio_good 65536 dev" "pins (dio_abs dev) = sb_pins sb2"
    "content (dio_abs dev) = (sb_content sb2)(i_block j := memcpy_at (sb_content sb2 (i_block j)) 0 (inode_disk_bytes (nkfs_inode_to_on_disk ?j)))"
    by (rule inode_write [of ?fs2 p ?j]) (use sb_frame_sane [OF f2] dj in simp_all)
  let ?fs3 = "fs_dev dev ?fs2"
  have f3: "sb_frame {} {i_block j} sb2 (fs_sb ?fs3)"
    using sb_frame_dev [OF sb_frame_sane [OF f2] 3(2), of "{i_block j}"] 3(4) dj(1) by simp
  have od: "nkfs_inode_to_on_disk ?j = nkfs_inode_to_on_disk ?i"
    by (simp add: nkfs_inode_to_on_disk_def Let_def)
  have nj: "n_block n \<noteq> i_block j" "n_block s \<noteq> i_block j"
    using dj(2) 1(4) ns(2) by auto
  have r: "inode_fill p fs = Some (True, ?fs3)"
    using 1(1,7) 2(1,7) 3(1) assms(3) by (simp add: inode_fill_def inode_trees_def on_fsb_def put_inode_def)
  have rep: "inode_rep p ?fs3 ?i n s"
  proof -
    have "inode_rep p ?fs2 ?i n s"
      unfolding inode_rep_def using sb_frame_sane [OF f2] dn2 ds ns(1) bi ln 2(2) by auto
    then show ?thesis
      by (rule inode_rep_frame) (use f3 nj in auto)
  qed
  have "take 56 (content (dio_abs dev) (i_block j)) = inode_disk_bytes (nkfs_inode_to_on_disk ?i)"
    using 3(4) od length_sb_content [OF sb_frame_sane [OF f2] dj(1)] by (simp add: memcpy_at_def)
  moreover have "places_ok (fs_sb ?fs3) ?i (node_map n) (node_map s)"
    unfolding places_ok_def own_def 1(3) 2(3)
    using data_block_frame [OF f3] dj(1) dn2 ds ns(1) nj by auto
  ultimately have ok: "file_ok p ?fs3 ?i n s"
    unfolding file_ok_def inode_ok_def using rep assms(5) 1(3) 2(3) by (simp add: sums_ok_def)
  have "fs_frame p {n_block n, n_block s} {n_block n, n_block s, i_block j} fs ?fs3"
    using sb_frame_trans [OF f2 f3] by (simp add: fs_frame_def insert_commute)
  then show ?thesis
    by (rule that [OF r ok 1(3) 2(3) 1(4) ns(2)]) (use 3(3) 1(6) 2(6) in simp)
qed


lemma inode_create_ok:
  assumes "sb_sane (fs_sb fs)" "3 \<le> card (sb_free (fs_sb fs))" "\<And>b. b \<in> sb_free (fs_sb fs) \<Longrightarrow> RBT.lookup (fs_inodes fs) b = None"
  obtains p fs' i n s where "nkfs_inode_create fs ino = Some (Some p, fs')" "file_ok p fs' i n s" "i_ino i = ino" "i_size i = 0" "i_ref i = 1"
    "node_map n = Map.empty" "node_map s = Map.empty" "iown i n s \<subseteq> sb_free (fs_sb fs)" "sb_frame (iown i n s) (iown i n s) (fs_sb fs) (fs_sb fs')"
    "sb_pins (fs_sb fs') = sb_pins (fs_sb fs)" "RBT.lookup (fs_inodes fs') = (RBT.lookup (fs_inodes fs))(i_block i \<mapsto> p)"
    "inodes_active fs' = inodes_active fs + 1" "inodes_tree fs' = inodes_tree fs"
proof -
  let ?p = "fs_next fs"
  let ?new = "\<lparr>i_sig1 = 0, i_ref = 1, i_ino = nkfs_obj_id_zero, i_block = 0, i_size = 0, i_blocks_tree_block = 0,
         i_blocks_sum_tree_block = 0, i_blocks_tree = None, i_blocks_sum_tree = None, i_dirty = False, i_sig2 = 0\<rparr> :: nkfs_inode"
  let ?fs1 = "put_inode ?p ?new (fs\<lparr>fs_next := Suc ?p\<rparr>)"
  have ne: "sb_free (fs_sb fs) \<noteq> {}"
    using assms(2) by auto
  obtain b sb1 where b: "b \<in> sb_free (fs_sb fs)" "nkfs_balloc_block_alloc (fs_sb fs) = Some ((0, b), sb1)" "sb_frame {b} {} (fs_sb fs) sb1" "sb_pins sb1 = sb_pins (fs_sb fs)"
    by (cases rule: sb_alloc [OF assms(1)]) (use ne in auto)
  have db: "data_block sb1 b"
    by (rule data_block_new [OF assms(1) b(3)]) simp
  then have b0: "b \<noteq> 0"
    by (simp add: data_block_def)
  let ?j = "?new\<lparr>i_block := b, i_ino := ino\<rparr>"
  let ?fs2 = "put_inode ?p ?j (fs\<lparr>fs_next := Suc ?p, fs_sb := sb1\<rparr>)"
  have fr1: "sb_free sb1 = sb_free (fs_sb fs) - {b}"
    by (rule sb_free_frame [OF b(3)])
  have "2 \<le> card (sb_free (fs_sb fs) - {b})"
    using assms(2) card_Diff1_le [of "sb_free (fs_sb fs)" b] diff_card_le_card_Diff [of "{b}" "sb_free (fs_sb fs)"] by simp
  then have c2: "2 \<le> card (sb_free (fs_sb ?fs2))"
    by (simp add: fr1)
  obtain fs3 n s where 3: "inode_fill ?p ?fs2 = Some (True, fs3)" "file_ok ?p fs3 (?j\<lparr>i_blocks_tree_block := n_block n, i_blocks_sum_tree_block := n_block s\<rparr>) n s"
    "node_map n = Map.empty" "node_map s = Map.empty" "n_block n \<in> sb_free (fs_sb ?fs2)" "n_block s \<in> sb_free (fs_sb ?fs2)"
    "fs_frame ?p {n_block n, n_block s} {n_block n, n_block s, i_block ?j} ?fs2 fs3" "sb_pins (fs_sb fs3) = sb_pins (fs_sb ?fs2)"
    by (rule inode_fill_ok [OF _ c2, of ?p ?j]) (use sb_frame_sane [OF b(3)] db in simp_all)
  let ?i = "?j\<lparr>i_blocks_tree_block := n_block n, i_blocks_sum_tree_block := n_block s\<rparr>"
  have own: "iown ?i n s = {b, n_block n, n_block s}"
    by (simp add: own_def 3(3,4))
  have in3: "fs_inodes fs3 = fs_inodes fs" "inodes_active fs3 = inodes_active fs" "inodes_tree fs3 = inodes_tree fs"
    using 3(7) by (simp_all add: fs_frame_def)
  obtain fs4 fs5 where 5: "nkfs_inodes_insert ?p fs3 = Some (?p, fs4)" "nkfs_inode_deref ?p fs4 = Some fs5" "file_ok ?p fs5 ?i n s" "fs_sb fs5 = fs_sb fs3"
    "RBT.lookup (fs_inodes fs5) = (RBT.lookup (fs_inodes fs3))(i_block ?i \<mapsto> ?p)" "inodes_active fs5 = inodes_active fs3 + 1" "inodes_tree fs5 = inodes_tree fs3"
    by (rule inode_enter [OF 3(2)]) (use assms(3) [OF b(1)] in3 in simp_all)
  have al: "on_fsb nkfs_balloc_block_alloc ?fs1 = Some ((0, b), ?fs1\<lparr>fs_sb := sb1\<rparr>)"
    using b(2) by (simp add: on_fsb_def)
  have pf: "put_inode ?p ?j (?fs1\<lparr>fs_sb := sb1\<rparr>) = ?fs2"
    by (rule nkfs_fs.equality) simp_all
  have hp: "fs_heap (?fs1\<lparr>fs_sb := sb1\<rparr>) ?p = Some ?new"
    by simp
  have r: "nkfs_inode_create fs ino = Some (Some ?p, fs5)"
    unfolding nkfs_inode_create_def inode_alloc_ok [OF assms(1)] prod.case option.case al Option.bind.simps hp
    using b0 by (simp only: if_False simp_thms refl assert_that_True Option.bind.simps hp pf 3(1) 5(1,2) prod.case if_True)
  have "sb_frame ({b} \<union> {n_block n, n_block s}) ({} \<union> {n_block n, n_block s, b}) (fs_sb fs) (fs_sb fs3)"
    by (rule sb_frame_trans [OF b(3)]) (use fs_frame_sb [OF 3(7)] in simp)
  then have "sb_frame (iown ?i n s) (iown ?i n s) (fs_sb fs) (fs_sb fs5)"
    unfolding own 5(4) by (simp add: insert_commute)
  moreover have "iown ?i n s \<subseteq> sb_free (fs_sb fs)"
    unfolding own using b(1) 3(5,6) by (simp add: fr1)
  ultimately show ?thesis
    using that [OF r 5(3)] 3(3,4,8) 5 b(4) in3 by simp
qed


end
