(* ===== verification/Spec2Isabelle.thy ===== *)
theory Spec2Isabelle
  imports Nk8 Sha256 Inode_Life
begin

text \<open>Header to come.\<close>

end
